(* ===== verification/Prelude.thy ===== *)
theory Prelude
  imports Main "HOL-Library.Word" "HOL-Library.AList"
begin

text \<open>
  Shared vocabulary of the development: the Rust types the components use, the standard
  collections they are built from, and the lemmas on them.

  \<^item> \<open>i64\<close> is \<open>int\<close>; where the code casts or where a result could leave the range, the
    wrap-around of a release build is written out with \<open>as_i64\<close>. \<open>u16\<close> and \<open>u32\<close> are words.
  \<^item> \<open>datetime\<close> (\<^verbatim>\<open>chrono::DateTime<Utc>\<close>) is the number of nanoseconds since the epoch, and
    \<open>duration\<close> (\<^verbatim>\<open>std::time::Duration\<close>) a number of nanoseconds.
  \<^item> A \<^verbatim>\<open>HashMap\<close> is an association list with distinct keys whose order is the iteration
    order, which the standard library leaves open: statements hold for every order.
  \<^item> A \<^verbatim>\<open>BTreeSet\<close> whose \<^verbatim>\<open>Ord\<close> compares a key of the element is a list strictly ascending in
    that key; inserting an element whose key is present keeps the old element.
\<close>

named_theorems wm_defs \<open>unfolding of the small accessors\<close>
named_theorems preserves \<open>operations that keep a component's invariant\<close>

type_synonym u16 = "16 word"
type_synonym u32 = "32 word"
type_synonym i64 = int
type_synonym datetime = int
type_synonym duration = nat
type_synonym bytes = "8 word list"
type_synonym ('k, 'v) hashmap = "('k \<times> 'v) list"

section \<open>Integers and time\<close>

definition i64_MAX :: i64 where
  "i64_MAX = 2 ^ 63 - 1"

definition as_i64 :: "int \<Rightarrow> i64" where
  "as_i64 x = (x + 2 ^ 63) mod 2 ^ 64 - 2 ^ 63"

definition is_i64 :: "int \<Rightarrow> bool" where
  "is_i64 x \<longleftrightarrow> - (2 ^ 63) \<le> x \<and> x \<le> i64_MAX"

lemma as_i64_id [simp]: "is_i64 x \<Longrightarrow> as_i64 x = x"
  by (simp add: as_i64_def is_i64_def i64_MAX_def)

lemma is_i64_as_i64 [simp]: "is_i64 (as_i64 x)"
proof -
  have "0 \<le> (x + 2 ^ 63) mod 2 ^ 64" and "(x + 2 ^ 63) mod 2 ^ 64 < (2 ^ 64 :: int)"
    by simp_all
  then show ?thesis by (simp add: as_i64_def is_i64_def i64_MAX_def)
qed

definition timestamp_millis :: "datetime \<Rightarrow> i64" where
  "timestamp_millis t = t div 1000000"

definition from_timestamp_millis :: "i64 \<Rightarrow> datetime" where
  "from_timestamp_millis m = m * 1000000"

lemma timestamp_millis_from [simp]: "timestamp_millis (from_timestamp_millis m) = m"
  by (simp add: timestamp_millis_def from_timestamp_millis_def)

lemma from_timestamp_millis_le [simp]:
  "from_timestamp_millis a \<le> from_timestamp_millis b \<longleftrightarrow> a \<le> b"
  by (simp add: from_timestamp_millis_def)

lemma from_timestamp_millis_less [simp]:
  "from_timestamp_millis a < from_timestamp_millis b \<longleftrightarrow> a < b"
  by (simp add: from_timestamp_millis_def)

lemma from_timestamp_millis_inject [simp]:
  "from_timestamp_millis a = from_timestamp_millis b \<longleftrightarrow> a = b"
  by (simp add: from_timestamp_millis_def)

lemma timestamp_millis_mono: "a \<le> b \<Longrightarrow> timestamp_millis a \<le> timestamp_millis b"
  by (simp add: timestamp_millis_def zdiv_mono1)

lemma from_timestamp_millis_floor: "from_timestamp_millis (timestamp_millis t) \<le> t"
proof -
  have "t div 1000000 * 1000000 + t mod 1000000 = t" by (rule div_mult_mod_eq)
  moreover have "0 \<le> t mod 1000000" by simp
  ultimately show ?thesis by (simp only: timestamp_millis_def from_timestamp_millis_def)
qed

lemma less_millis_iff: "t < from_timestamp_millis m \<longleftrightarrow> timestamp_millis t < m"
proof -
  have "t = t div 1000000 * 1000000 + t mod 1000000" by simp
  moreover have "0 \<le> t mod 1000000" "t mod 1000000 < 1000000" by simp_all
  ultimately show ?thesis unfolding timestamp_millis_def from_timestamp_millis_def by linarith
qed

lemma millis_le_iff: "from_timestamp_millis m \<le> t \<longleftrightarrow> m \<le> timestamp_millis t"
  using less_millis_iff [of t m] by linarith

text \<open>\<^verbatim>\<open>Duration::as_millis() as i64\<close>.\<close>

definition dur_millis :: "duration \<Rightarrow> i64" where
  "dur_millis d = as_i64 (int (d div 1000000))"

definition duration_ok :: "duration \<Rightarrow> bool" where
  "duration_ok d \<longleftrightarrow> int (d div 1000000) \<le> i64_MAX"

lemma dur_millis_ok [simp]: "duration_ok d \<Longrightarrow> dur_millis d = int (d div 1000000)"
proof -
  assume "duration_ok d"
  then have "is_i64 (int (d div 1000000))" by (simp add: duration_ok_def is_i64_def)
  then show ?thesis by (simp add: dur_millis_def)
qed

section \<open>Three-way comparison\<close>

datatype ordering = Less | Equal | Greater

definition cmp :: "'a::linorder \<Rightarrow> 'a \<Rightarrow> ordering" where
  "cmp a b = (if a < b then Less else if a = b then Equal else Greater)"

lemma cmp_simps [simp]:
  "cmp a b = Less \<longleftrightarrow> a < b"
  "cmp a b = Equal \<longleftrightarrow> a = b"
  "cmp a b = Greater \<longleftrightarrow> b < a"
  by (auto simp: cmp_def)

section \<open>Hash maps\<close>

definition hm_wf :: "('k, 'v) hashmap \<Rightarrow> bool" where
  "hm_wf m \<longleftrightarrow> distinct (map fst m)"

abbreviation hm_get :: "('k, 'v) hashmap \<Rightarrow> 'k \<Rightarrow> 'v option" where
  "hm_get \<equiv> map_of"

abbreviation hm_insert :: "'k \<Rightarrow> 'v \<Rightarrow> ('k, 'v) hashmap \<Rightarrow> ('k, 'v) hashmap" where
  "hm_insert \<equiv> AList.update"

abbreviation hm_remove :: "'k \<Rightarrow> ('k, 'v) hashmap \<Rightarrow> ('k, 'v) hashmap" where
  "hm_remove \<equiv> AList.delete"

abbreviation hm_values :: "('k, 'v) hashmap \<Rightarrow> 'v list" where
  "hm_values \<equiv> map snd"

abbreviation hm_keys :: "('k, 'v) hashmap \<Rightarrow> 'k list" where
  "hm_keys \<equiv> map fst"

definition hm_contains :: "'k \<Rightarrow> ('k, 'v) hashmap \<Rightarrow> bool" where
  "hm_contains k m \<longleftrightarrow> map_of m k \<noteq> None"

text \<open>\<^verbatim>\<open>values_mut\<close> and \<^verbatim>\<open>retain\<close>.\<close>

definition hm_map_values :: "('v \<Rightarrow> 'w) \<Rightarrow> ('k, 'v) hashmap \<Rightarrow> ('k, 'w) hashmap" where
  "hm_map_values f m = map (\<lambda>(k, v). (k, f v)) m"

definition hm_retain :: "('k \<Rightarrow> 'v \<Rightarrow> bool) \<Rightarrow> ('k, 'v) hashmap \<Rightarrow> ('k, 'v) hashmap" where
  "hm_retain p m = filter (\<lambda>(k, v). p k v) m"

lemma hm_wf_Nil [simp]: "hm_wf []"
  by (simp add: hm_wf_def)

lemma hm_wf_insert [simp]: "hm_wf m \<Longrightarrow> hm_wf (hm_insert k v m)"
  by (simp add: hm_wf_def distinct_update)

lemma hm_wf_remove [simp]: "hm_wf m \<Longrightarrow> hm_wf (hm_remove k m)"
  by (simp add: hm_wf_def distinct_delete)

lemma hm_get_insert [simp]: "hm_get (hm_insert k v m) x = (if x = k then Some v else hm_get m x)"
  by (simp add: update_conv')

lemma hm_get_remove [simp]: "hm_get (hm_remove k m) x = (if x = k then None else hm_get m x)"
  by (simp add: delete_conv')

lemma dom_hm_insert [simp]: "dom (hm_get (hm_insert k v m)) = insert k (dom (hm_get m))"
  by (simp add: update_conv')

lemma dom_hm_remove [simp]: "dom (hm_get (hm_remove k m)) = dom (hm_get m) - {k}"
  by (simp add: delete_conv')

lemma hm_keys_map_values [simp]: "hm_keys (hm_map_values f m) = hm_keys m"
  by (induction m) (auto simp: hm_map_values_def)

lemma hm_values_map_values [simp]: "hm_values (hm_map_values f m) = map f (hm_values m)"
  by (induction m) (auto simp: hm_map_values_def)

lemma hm_wf_map_values [simp]: "hm_wf (hm_map_values f m) \<longleftrightarrow> hm_wf m"
  by (simp add: hm_wf_def)

lemma hm_get_map_values [simp]: "hm_get (hm_map_values f m) k = map_option f (hm_get m k)"
  by (induction m) (auto simp: hm_map_values_def)

lemma hm_wf_retain [simp]: "hm_wf m \<Longrightarrow> hm_wf (hm_retain p m)"
  by (induction m) (auto simp: hm_wf_def hm_retain_def)

lemma hm_get_in_set: "hm_get m k = Some v \<Longrightarrow> (k, v) \<in> set m"
  by (rule map_of_SomeD)

lemma hm_get_iff: "hm_wf m \<Longrightarrow> hm_get m k = Some v \<longleftrightarrow> (k, v) \<in> set m"
  unfolding hm_wf_def by (rule map_of_eq_Some_iff)

lemma hm_get_retain:
  assumes "hm_wf m"
  shows "hm_get (hm_retain p m) k =
    (case hm_get m k of None \<Rightarrow> None | Some v \<Rightarrow> if p k v then Some v else None)"
proof (cases "hm_get m k")
  case None
  then have "k \<notin> fst ` set m" by (simp add: map_of_eq_None_iff)
  then have "k \<notin> fst ` set (hm_retain p m)" by (auto simp: hm_retain_def)
  then have "hm_get (hm_retain p m) k = None" by (simp add: map_of_eq_None_iff)
  with None show ?thesis by simp
next
  case (Some v)
  have wf': "hm_wf (hm_retain p m)" using assms by simp
  show ?thesis
  proof (cases "p k v")
    case True
    then have "(k, v) \<in> set (hm_retain p m)"
      using hm_get_in_set [OF Some] by (simp add: hm_retain_def)
    with True Some show ?thesis by (simp add: hm_get_iff [OF wf'])
  next
    case False
    have "hm_get (hm_retain p m) k = None"
    proof (rule ccontr)
      assume "hm_get (hm_retain p m) k \<noteq> None"
      then obtain w where "(k, w) \<in> set (hm_retain p m)"
        by (auto dest: hm_get_in_set)
      then have "(k, w) \<in> set m" and "p k w" by (auto simp: hm_retain_def)
      with Some False show False by (simp add: hm_get_iff [OF assms, symmetric])
    qed
    with False Some show ?thesis by simp
  qed
qed

lemma set_hm_insert:
  "hm_wf m \<Longrightarrow> set (hm_insert k v m) = insert (k, v) {x \<in> set m. fst x \<noteq> k}"
  by (induction m) (auto simp: hm_wf_def, (force simp: image_iff)+)

lemma set_hm_remove: "set (hm_remove k m) = {x \<in> set m. fst x \<noteq> k}"
  by (auto simp: AList.delete_eq)

section \<open>Ordered sets\<close>

fun bt_insert :: "('a \<Rightarrow> 'b::linorder) \<Rightarrow> 'a \<Rightarrow> 'a list \<Rightarrow> 'a list" where
  "bt_insert f x [] = [x]"
| "bt_insert f x (y # ys) =
     (if f x < f y then x # y # ys
      else if f x = f y then y # ys
      else y # bt_insert f x ys)"

definition bt_contains :: "('a \<Rightarrow> 'b) \<Rightarrow> 'a \<Rightarrow> 'a list \<Rightarrow> bool" where
  "bt_contains f x ys \<longleftrightarrow> list_ex (\<lambda>y. f y = f x) ys"

definition bt_remove :: "('a \<Rightarrow> 'b) \<Rightarrow> 'a \<Rightarrow> 'a list \<Rightarrow> 'a list" where
  "bt_remove f x ys = filter (\<lambda>y. f y \<noteq> f x) ys"

definition bt_first :: "'a list \<Rightarrow> 'a option" where
  "bt_first ys = (case ys of [] \<Rightarrow> None | y # _ \<Rightarrow> Some y)"

text \<open>\<^verbatim>\<open>extract_if(.., p)\<close>: the elements taken out, in order, and the set that stays.\<close>

definition bt_extract :: "('a \<Rightarrow> bool) \<Rightarrow> 'a list \<Rightarrow> 'a list \<times> 'a list" where
  "bt_extract p ys = (filter p ys, filter (\<lambda>y. \<not> p y) ys)"

definition bt_wf :: "('a \<Rightarrow> 'b::linorder) \<Rightarrow> 'a list \<Rightarrow> bool" where
  "bt_wf f ys \<longleftrightarrow> sorted_wrt (<) (map f ys)"

lemma bt_wf_Nil [simp]: "bt_wf f []"
  by (simp add: bt_wf_def)

lemma bt_wf_Cons [simp]: "bt_wf f (y # ys) \<longleftrightarrow> (\<forall>z \<in> set ys. f y < f z) \<and> bt_wf f ys"
  by (simp add: bt_wf_def)

lemma bt_contains_iff [simp]: "bt_contains f x ys \<longleftrightarrow> f x \<in> f ` set ys"
  unfolding bt_contains_def list_ex_iff image_iff by (metis (full_types))

lemma set_bt_insert:
  "bt_wf f ys \<Longrightarrow> set (bt_insert f x ys) = (if f x \<in> f ` set ys then set ys else insert x (set ys))"
proof (induction ys)
  case (Cons y ys)
  then have "f x < f y \<Longrightarrow> f x \<notin> f ` set ys" by fastforce
  with Cons show ?case by auto
qed simp

lemma bt_wf_insert [simp]: "bt_wf f ys \<Longrightarrow> bt_wf f (bt_insert f x ys)"
proof (induction ys)
  case (Cons y ys)
  then have "bt_wf f ys" and less: "\<forall>z \<in> set ys. f y < f z" by simp_all
  then have wf: "bt_wf f (bt_insert f x ys)" using Cons.IH by simp
  have sub: "set (bt_insert f x ys) \<subseteq> insert x (set ys)"
    using \<open>bt_wf f ys\<close> by (auto simp: set_bt_insert)
  show ?case
  proof (cases "f y < f x")
    case True
    then have "\<forall>z \<in> set (bt_insert f x ys). f y < f z" using less sub by blast
    with True wf show ?thesis by auto
  next
    case False
    then consider "f x < f y" | "f x = f y" by fastforce
    then show ?thesis
    proof cases
      case 1
      then have "\<forall>z \<in> set ys. f x < f z" using less by force
      with 1 Cons.prems show ?thesis by simp
    next
      case 2
      with Cons.prems show ?thesis by simp
    qed
  qed
qed simp

lemma bt_insert_keys: "f ` set (bt_insert f x ys) = insert (f x) (f ` set ys)"
  by (induction ys) auto

lemma bt_insert_present: "bt_wf f ys \<Longrightarrow> f x \<in> f ` set ys \<Longrightarrow> bt_insert f x ys = ys"
proof (induction ys)
  case (Cons y ys)
  then have "f y \<le> f x" by fastforce
  with Cons show ?case by auto
qed simp

lemma bt_wf_filter [simp]: "bt_wf f ys \<Longrightarrow> bt_wf f (filter p ys)"
  by (induction ys) auto

lemma bt_wf_remove [simp]: "bt_wf f ys \<Longrightarrow> bt_wf f (bt_remove f x ys)"
  by (simp add: bt_remove_def)

lemma set_bt_remove [simp]: "set (bt_remove f x ys) = {y \<in> set ys. f y \<noteq> f x}"
  by (auto simp: bt_remove_def)

lemma bt_first_None [simp]: "bt_first ys = None \<longleftrightarrow> ys = []"
  by (cases ys) (auto simp: bt_first_def)

lemma bt_first_in: "bt_first ys = Some y \<Longrightarrow> y \<in> set ys"
  by (cases ys) (auto simp: bt_first_def)

lemma bt_first_least: "bt_wf f ys \<Longrightarrow> bt_first ys = Some y \<Longrightarrow> z \<in> set ys \<Longrightarrow> f y \<le> f z"
  by (cases ys) (auto simp: bt_first_def)

lemma bt_wf_inj: "bt_wf f ys \<Longrightarrow> inj_on f (set ys)"
proof (induction ys)
  case (Cons y ys)
  then have "f y \<notin> f ` set ys" by auto
  with Cons show ?case by (auto simp: inj_on_insert)
qed simp

lemma bt_wf_distinct: "bt_wf f ys \<Longrightarrow> distinct ys"
  by (induction ys) auto

lemma set_map_filter_eq: "set (List.map_filter f xs) = {y. \<exists>x \<in> set xs. f x = Some y}"
  by (induction xs) (auto split: option.splits)

lemma set_fold_bt_insert:
  assumes "bt_wf f ys"
  shows "bt_wf f (fold (bt_insert f) xs ys)" and "set (fold (bt_insert f) xs ys) \<subseteq> set xs \<union> set ys"
    and "set ys \<subseteq> set (fold (bt_insert f) xs ys)"
    and "f ` set (fold (bt_insert f) xs ys) = f ` set xs \<union> f ` set ys"
  using assms
proof (atomize (full), induction xs arbitrary: ys)
  case (Cons x xs)
  have "bt_wf f (bt_insert f x ys)" using Cons.prems by simp
  note IH = Cons.IH [OF this]
  moreover have "set (bt_insert f x ys) \<subseteq> insert x (set ys)" "set ys \<subseteq> set (bt_insert f x ys)"
    using set_bt_insert [OF Cons.prems, of x] by (auto split: if_splits)
  moreover have "f ` set (bt_insert f x ys) = insert (f x) (f ` set ys)" by (rule bt_insert_keys)
  ultimately show ?case by auto
qed simp

lemma set_fold_bt_insert_inj:
  assumes "\<And>v w. v \<in> set xs \<Longrightarrow> w \<in> set xs \<Longrightarrow> f v = f w \<Longrightarrow> v = w"
  shows "set (fold (bt_insert f) xs []) = set xs"
proof (intro equalityI subsetI)
  note fold = set_fold_bt_insert [of f "[]" xs, simplified]
  fix x assume "x \<in> set (fold (bt_insert f) xs [])"
  with fold(2) show "x \<in> set xs" by blast
next
  note fold = set_fold_bt_insert [of f "[]" xs, simplified]
  fix x assume x: "x \<in> set xs"
  then have "f x \<in> f ` set (fold (bt_insert f) xs [])" unfolding fold(4) by simp
  then obtain y where y: "y \<in> set (fold (bt_insert f) xs [])" "f y = f x" by auto
  with fold(2) assms x have "y = x" by blast
  with y show "x \<in> set (fold (bt_insert f) xs [])" by simp
qed

section \<open>Minima\<close>

text \<open>\<^verbatim>\<open>Iterator::min\<close> on an iterator of ordered values.\<close>

definition iter_min :: "'a::linorder list \<Rightarrow> 'a option" where
  "iter_min xs = (case xs of [] \<Rightarrow> None | x # ys \<Rightarrow> Some (fold min ys x))"

definition iter_max :: "'a::linorder list \<Rightarrow> 'a option" where
  "iter_max xs = (case xs of [] \<Rightarrow> None | x # ys \<Rightarrow> Some (fold max ys x))"

lemma fold_min_le: "fold min xs (a::'a::linorder) \<le> a"
proof (induction xs arbitrary: a)
  case (Cons x xs)
  have "fold min xs (min x a) \<le> min x a" by (rule Cons.IH)
  then show ?case by simp
qed simp

lemma fold_min_le_elem: "x \<in> set xs \<Longrightarrow> fold min xs (a::'a::linorder) \<le> x"
proof (induction xs arbitrary: a)
  case (Cons y ys)
  show ?case
  proof (cases "x = y")
    case True
    have "fold min ys (min y a) \<le> min y a" by (rule fold_min_le)
    with True show ?thesis by simp
  next
    case False
    with Cons show ?thesis by simp
  qed
qed simp

lemma fold_min_in: "fold min xs (a::'a::linorder) \<in> insert a (set xs)"
proof (induction xs arbitrary: a)
  case (Cons y ys)
  have "fold min ys (min y a) \<in> insert (min y a) (set ys)" by (rule Cons.IH)
  moreover have "min y a \<in> {y, a}" by (simp add: min_def)
  ultimately show ?case by auto
qed simp

lemma iter_min_None [simp]: "iter_min xs = None \<longleftrightarrow> xs = []"
  by (cases xs) (auto simp: iter_min_def)

lemma iter_min_Nil [simp]: "iter_min [] = None"
  by simp

lemma iter_min_in: "iter_min xs = Some m \<Longrightarrow> m \<in> set xs"
proof (cases xs)
  case (Cons x ys)
  assume "iter_min xs = Some m"
  with Cons show ?thesis using fold_min_in [of ys x] by (simp add: iter_min_def)
qed simp

lemma iter_min_le: "iter_min xs = Some m \<Longrightarrow> x \<in> set xs \<Longrightarrow> m \<le> x"
  by (cases xs) (auto simp: iter_min_def fold_min_le fold_min_le_elem)

lemma iter_min_eqI:
  assumes "m \<in> set xs" and "\<And>x. x \<in> set xs \<Longrightarrow> m \<le> x"
  shows "iter_min xs = Some m"
proof -
  from assms(1) obtain k where k: "iter_min xs = Some k" by (cases "iter_min xs") auto
  from iter_min_in [OF k] assms(2) have "m \<le> k" by blast
  moreover from iter_min_le [OF k assms(1)] have "k \<le> m" .
  ultimately show ?thesis using k by simp
qed

lemma iter_min_Some_iff: "iter_min xs = Some m \<longleftrightarrow> m \<in> set xs \<and> (\<forall>x \<in> set xs. m \<le> x)"
proof
  assume "iter_min xs = Some m"
  then show "m \<in> set xs \<and> (\<forall>x \<in> set xs. m \<le> x)" by (simp add: iter_min_in iter_min_le)
next
  assume "m \<in> set xs \<and> (\<forall>x \<in> set xs. m \<le> x)"
  then show "iter_min xs = Some m" by (intro iter_min_eqI) simp_all
qed

lemma iter_min_set:
  assumes "set xs = set ys"
  shows "iter_min xs = iter_min ys"
proof (cases "iter_min xs")
  case None
  then have "xs = []" by simp
  with assms have "ys = []" by simp
  with \<open>xs = []\<close> show ?thesis by simp
next
  case (Some m)
  then have "m \<in> set ys \<and> (\<forall>x \<in> set ys. m \<le> x)"
    unfolding iter_min_Some_iff assms .
  then have "iter_min ys = Some m" by (rule iffD2 [OF iter_min_Some_iff])
  with Some show ?thesis by simp
qed

section \<open>Decimal numbers\<close>

text \<open>\<^verbatim>\<open>Display\<close> of an integer.\<close>

fun show_nat :: "nat \<Rightarrow> string" where
  "show_nat n =
     (if n < 10 then [char_of (48 + n)] else show_nat (n div 10) @ [char_of (48 + n mod 10)])"

definition show_int :: "int \<Rightarrow> string" where
  "show_int i = (if i < 0 then CHR ''-'' # show_nat (nat (- i)) else show_nat (nat i))"

declare show_nat.simps [simp del]

definition is_digit :: "char \<Rightarrow> bool" where
  "is_digit c \<longleftrightarrow> 48 \<le> (of_char c :: nat) \<and> (of_char c :: nat) \<le> 57"

definition digit_value :: "char \<Rightarrow> nat" where
  "digit_value c = of_char c - 48"

definition read_nat :: "string \<Rightarrow> nat" where
  "read_nat ds = foldl (\<lambda>n c. 10 * n + digit_value c) 0 ds"

lemma digit_value_char: "n < 10 \<Longrightarrow> digit_value (char_of (48 + n)) = n"
  by (simp add: digit_value_def of_char_of take_bit_nat_eq_self)

lemma read_show_nat [simp]: "read_nat (show_nat n) = n"
proof (induction n rule: show_nat.induct)
  case (1 n)
  show ?case
  proof (cases "n < 10")
    case True
    then show ?thesis by (subst show_nat.simps) (simp add: read_nat_def digit_value_char)
  next
    case False
    then show ?thesis
      by (subst show_nat.simps) (use 1 in \<open>simp add: read_nat_def digit_value_char\<close>)
  qed
qed

lemma minus_not_digit: "(n::nat) < 10 \<Longrightarrow> char_of (48 + n) \<noteq> CHR ''-''"
proof
  assume "n < 10" and "char_of (48 + n) = CHR ''-''"
  then have "of_char (char_of (48 + n) :: char) = (45::nat)" by simp
  with \<open>n < 10\<close> show False by (simp add: of_char_of take_bit_nat_eq_self)
qed

lemma minus_notin_show_nat: "CHR ''-'' \<notin> set (show_nat n)"
proof (induction n rule: show_nat.induct)
  case (1 n)
  show ?case
  proof (cases "n < 10")
    case True
    then show ?thesis using minus_not_digit by (subst show_nat.simps) (simp add: eq_commute)
  next
    case False
    then show ?thesis
      using minus_not_digit [of "n mod 10"] by (subst show_nat.simps) (use 1 in \<open>simp add: eq_commute\<close>)
  qed
qed

lemma show_nat_digits: "c \<in> set (show_nat n) \<Longrightarrow> is_digit c"
proof (induction n rule: show_nat.induct)
  case (1 n)
  have digit: "is_digit (char_of (48 + k))" if "k < 10" for k :: nat
    using that by (simp add: is_digit_def of_char_of take_bit_nat_eq_self)
  show ?case
  proof (cases "n < 10")
    case True
    then show ?thesis using "1.prems" digit by (subst (asm) show_nat.simps) simp
  next
    case False
    then show ?thesis
      using "1.prems" "1.IH" digit [of "n mod 10"] by (subst (asm) show_nat.simps) auto
  qed
qed

lemma show_nat_nonempty [simp]: "show_nat n \<noteq> []"
  by (subst show_nat.simps) simp

lemma show_nat_inject [simp]: "show_nat m = show_nat n \<longleftrightarrow> m = n"
  by (metis read_show_nat)

text \<open>Two numbers joined by a dash can be told apart.\<close>

lemma append_sep_eq:
  assumes "c \<notin> set a" and "c \<notin> set b" and "a @ c # x = b @ c # y"
  shows "a = b \<and> x = y"
  using assms
proof (induction a arbitrary: b)
  case Nil
  then show ?case by (cases b) auto
next
  case (Cons z a)
  then show ?case by (cases b) auto
qed

lemma show_int_pair_inject:
  assumes "show_int a @ CHR ''-'' # x = show_int b @ CHR ''-'' # y"
  shows "a = b \<and> x = y"
proof -
  have hd: "show_nat n @ z \<noteq> CHR ''-'' # u" for n z u
  proof
    assume eq: "show_nat n @ z = CHR ''-'' # u"
    obtain c cs where "show_nat n = c # cs" by (cases "show_nat n") auto
    with eq minus_notin_show_nat [of n] show False by simp
  qed
  have nat_eq: "m = n \<and> x = y" if "show_nat m @ CHR ''-'' # x = show_nat n @ CHR ''-'' # y" for m n
    using append_sep_eq [OF minus_notin_show_nat minus_notin_show_nat that] by simp
  show ?thesis
  proof (cases "a < 0")
    case True
    then have "b < 0" using assms hd by (metis append_Cons show_int_def)
    with True assms nat_eq [of "nat (- a)" "nat (- b)"] show ?thesis
      by (auto simp: show_int_def nat_eq_iff)
  next
    case False
    then have "\<not> b < 0" using assms hd by (metis append_Cons show_int_def)
    with False assms nat_eq [of "nat a" "nat b"] show ?thesis
      by (auto simp: show_int_def nat_eq_iff)
  qed
qed

lemma show_int_inject: "show_int a = show_int b \<Longrightarrow> a = b"
  using show_int_pair_inject [of a "[]" b "[]"] by simp

end
