(* ===== verification/Timeline.thy ===== *)
theory Timeline
  imports Prelude
begin

text \<open>
  The watermark message \<open>WMB\<close> (\<^verbatim>\<open>numaflow-core/src/watermark/wmb.rs\<close>) with its protobuf
  conversions, and the \<open>OffsetTimeline\<close> (\<^verbatim>\<open>watermark/processor/timeline.rs\<close>): the bounded,
  descending list of the \<open>(offset, watermark)\<close> records one processor has published for one
  partition, from which a consumer reads the event time of an offset.
\<close>

unbundle bit_operations_syntax

section \<open>Watermark messages\<close>

record wmb =
  wmb_idle :: bool
  wmb_offset :: i64
  wmb_watermark :: i64
  wmb_partition :: u16
  wmb_processor_count :: "u32 option"

definition wmb_default :: wmb where
  "wmb_default = \<lparr>wmb_idle = False, wmb_offset = -1, wmb_watermark = -1,
     wmb_partition = 0, wmb_processor_count = None\<rparr>"

text \<open>
  The generated protobuf message holds \<^verbatim>\<open>partition\<close> and \<^verbatim>\<open>processor_count\<close> as \<^verbatim>\<open>i32\<close>. Encoding
  and decoding are the \<^verbatim>\<open>prost\<close> library's, hence parameters.
\<close>

record proto_wmb =
  pw_idle :: bool
  pw_offset :: i64
  pw_watermark :: i64
  pw_partition :: "32 word"
  pw_processor_count :: "32 word option"

datatype wm_error = Proto string | Watermark_error string

definition wmb_try_from :: "(bytes \<Rightarrow> string + proto_wmb) \<Rightarrow> bytes \<Rightarrow> wm_error + wmb" where
  "wmb_try_from decode bs =
     (case decode bs of
        Inl e \<Rightarrow> Inl (Proto e)
      | Inr p \<Rightarrow> Inr \<lparr>wmb_idle = pw_idle p, wmb_offset = pw_offset p,
          wmb_watermark = pw_watermark p, wmb_partition = ucast (pw_partition p),
          wmb_processor_count = map_option ucast (pw_processor_count p)\<rparr>)"

definition wmb_to_bytes :: "(proto_wmb \<Rightarrow> string + bytes) \<Rightarrow> wmb \<Rightarrow> wm_error + bytes" where
  "wmb_to_bytes encode w =
     (case encode \<lparr>pw_idle = wmb_idle w, pw_offset = wmb_offset w,
          pw_watermark = wmb_watermark w, pw_partition = ucast (wmb_partition w),
          pw_processor_count = map_option ucast (wmb_processor_count w)\<rparr> of
        Inl e \<Rightarrow> Inl (Proto e)
      | Inr bs \<Rightarrow> Inr bs)"

section \<open>The timeline\<close>

record offset_timeline =
  tl_watermarks :: "wmb list"
  tl_capacity :: nat

definition timeline_new :: "nat \<Rightarrow> offset_timeline" where
  "timeline_new capacity =
     \<lparr>tl_watermarks = replicate capacity wmb_default, tl_capacity = capacity\<rparr>"

text \<open>\<open>None\<close> is the panic of \<^verbatim>\<open>expect("timeline should never be empty")\<close>.\<close>

definition put :: "wmb \<Rightarrow> offset_timeline \<Rightarrow> offset_timeline option" where
  "put node t =
     (case tl_watermarks t of
        [] \<Rightarrow> None
      | element_node # rest \<Rightarrow>
          let ws =
            (case (cmp (wmb_watermark node) (wmb_watermark element_node),
                   cmp (wmb_offset node) (wmb_offset element_node)) of
               (Equal, Greater) \<Rightarrow> node # element_node # rest
             | (Equal, _) \<Rightarrow> element_node # rest
             | (Greater, Greater) \<Rightarrow> node # element_node # rest
             | (Greater, Less) \<Rightarrow> element_node # rest
             | (Less, _) \<Rightarrow> element_node # rest
             | (Greater, Equal) \<Rightarrow>
                 element_node\<lparr>wmb_watermark := wmb_watermark node\<rparr> # rest)
          in Some (t\<lparr>tl_watermarks :=
               (if length ws > tl_capacity t then butlast ws else ws)\<rparr>))"

definition get_head_offset :: "offset_timeline \<Rightarrow> i64" where
  "get_head_offset t = (case tl_watermarks t of [] \<Rightarrow> -1 | w # _ \<Rightarrow> wmb_offset w)"

definition get_head_watermark :: "offset_timeline \<Rightarrow> i64" where
  "get_head_watermark t = (case tl_watermarks t of [] \<Rightarrow> -1 | w # _ \<Rightarrow> wmb_watermark w)"

definition get_head_wmb :: "offset_timeline \<Rightarrow> wmb option" where
  "get_head_wmb t = (case tl_watermarks t of [] \<Rightarrow> None | w # _ \<Rightarrow> Some w)"

definition get_event_time :: "offset_timeline \<Rightarrow> i64 \<Rightarrow> i64" where
  "get_event_time t input_offset =
     (case find (\<lambda>w. wmb_offset w < input_offset) (tl_watermarks t) of
        None \<Rightarrow> -1
      | Some w \<Rightarrow> wmb_watermark w)"

definition entries :: "offset_timeline \<Rightarrow> wmb list" where
  "entries t = tl_watermarks t"

lemmas timeline_defs [wm_defs] =
  get_head_offset_def get_head_watermark_def get_head_wmb_def get_event_time_def entries_def

text \<open>A run of \<open>put\<close>s.\<close>

fun put_all :: "wmb list \<Rightarrow> offset_timeline \<Rightarrow> offset_timeline option" where
  "put_all [] t = Some t"
| "put_all (n # ns) t = Option.bind (put n t) (put_all ns)"

text \<open>
  A four-byte codec for small messages, an instance of the protobuf parameters: encoding fails
  on values that do not fit.
\<close>

definition byte_encode :: "proto_wmb \<Rightarrow> string + bytes" where
  "byte_encode p =
     (if pw_offset p \<in> {0..255} \<and> pw_watermark p \<in> {0..255} \<and> unat (pw_partition p) < 256 \<and>
         pw_processor_count p = None
      then Inr [of_bool (pw_idle p), of_int (pw_offset p), of_int (pw_watermark p),
             ucast (pw_partition p)]
      else Inl ''value too large'')"

definition byte_decode :: "bytes \<Rightarrow> string + proto_wmb" where
  "byte_decode bs =
     (case bs of
        [a, b, c, d] \<Rightarrow> Inr \<lparr>pw_idle = (a = 1), pw_offset = uint b, pw_watermark = uint c,
          pw_partition = ucast d, pw_processor_count = None\<rparr>
      | _ \<Rightarrow> Inl ''bad length'')"

section \<open>Invariant\<close>

definition wmb_ge :: "wmb \<Rightarrow> wmb \<Rightarrow> bool" where
  "wmb_ge a b \<longleftrightarrow> wmb_watermark b \<le> wmb_watermark a \<and>
     (wmb_offset b < wmb_offset a \<or> wmb_offset a = -1 \<and> wmb_offset b = -1)"

definition timeline_inv :: "offset_timeline \<Rightarrow> bool" where
  "timeline_inv t \<longleftrightarrow> 0 < tl_capacity t \<and> length (tl_watermarks t) = tl_capacity t \<and>
     sorted_wrt wmb_ge (tl_watermarks t) \<and>
     (\<forall>w \<in> set (tl_watermarks t). -1 \<le> wmb_watermark w \<and> -1 \<le> wmb_offset w)"

lemma timeline_inv_new [preserves]: "0 < capacity \<Longrightarrow> timeline_inv (timeline_new capacity)"
proof -
  have "sorted_wrt wmb_ge (replicate n wmb_default)" for n
    by (induction n) (auto simp: wmb_ge_def wmb_default_def)
  then show "0 < capacity \<Longrightarrow> ?thesis"
    by (simp add: timeline_inv_def timeline_new_def wmb_default_def)
qed

lemma timeline_inv_nonempty: "timeline_inv t \<Longrightarrow> \<exists>w ws. tl_watermarks t = w # ws"
  by (cases "tl_watermarks t") (auto simp: timeline_inv_def)

lemma put_total: "timeline_inv t \<Longrightarrow> \<exists>t'. put n t = Some t'"
  using timeline_inv_nonempty [of t] by (auto simp: put_def Let_def)

lemma sorted_wrt_butlast: "sorted_wrt P xs \<Longrightarrow> sorted_wrt P (butlast xs)"
  by (cases xs rule: rev_cases) (auto simp: sorted_wrt_append)

text \<open>\<open>put\<close> either extends the timeline, raises the watermark of its head, or leaves it.\<close>

lemma put_cases [consumes 2, case_names extend raise skip]:
  assumes "timeline_inv t" and "put n t = Some t'"
  obtains
    (extend) e rest where "tl_watermarks t = e # rest"
      "wmb_watermark e \<le> wmb_watermark n" "wmb_offset e < wmb_offset n"
      "t' = t\<lparr>tl_watermarks := n # butlast (e # rest)\<rparr>"
  | (raise) e rest where "tl_watermarks t = e # rest"
      "wmb_watermark e < wmb_watermark n" "wmb_offset n = wmb_offset e"
      "t' = t\<lparr>tl_watermarks := e\<lparr>wmb_watermark := wmb_watermark n\<rparr> # rest\<rparr>"
  | (skip) e rest where "tl_watermarks t = e # rest" "t' = t"
      "wmb_watermark n < wmb_watermark e \<or> wmb_offset n < wmb_offset e \<or>
       wmb_watermark n = wmb_watermark e \<and> wmb_offset n = wmb_offset e"
proof -
  from timeline_inv_nonempty [OF assms(1)] obtain e rest where t: "tl_watermarks t = e # rest"
    by blast
  with assms(1) have cap: "length rest + 1 = tl_capacity t" by (simp add: timeline_inv_def)
  have put: "put n t = Some (t\<lparr>tl_watermarks :=
      (if wmb_watermark e \<le> wmb_watermark n \<and> wmb_offset e < wmb_offset n
       then n # butlast (e # rest)
       else if wmb_watermark e < wmb_watermark n \<and> wmb_offset n = wmb_offset e
       then e\<lparr>wmb_watermark := wmb_watermark n\<rparr> # rest
       else e # rest)\<rparr>)"
    using t cap by (auto simp: put_def cmp_def)
  show ?thesis
  proof (cases "wmb_watermark e \<le> wmb_watermark n \<and> wmb_offset e < wmb_offset n")
    case True
    with put assms(2) t show ?thesis by (intro extend) auto
  next
    case ne: False
    show ?thesis
    proof (cases "wmb_watermark e < wmb_watermark n \<and> wmb_offset n = wmb_offset e")
      case True
      with ne put assms(2) t show ?thesis by (intro raise) auto
    next
      case False
      with ne have "wmb_watermark n < wmb_watermark e \<or> wmb_offset n < wmb_offset e \<or>
        wmb_watermark n = wmb_watermark e \<and> wmb_offset n = wmb_offset e" by linarith
      moreover from put assms(2) have "t' = t\<lparr>tl_watermarks := e # rest\<rparr>"
        unfolding if_not_P [OF ne] if_not_P [OF False] by simp
      then have "t' = t" using t by (cases t) simp
      ultimately show ?thesis using t by (intro skip) auto
    qed
  qed
qed

lemma timeline_inv_put [preserves]:
  assumes "timeline_inv t" and "put n t = Some t'"
  shows "timeline_inv t'"
  using assms
proof (cases rule: put_cases)
  case (extend e rest)
  have sorted: "sorted_wrt wmb_ge (e # rest)" using assms(1) extend(1) by (simp add: timeline_inv_def)
  have "wmb_ge n w" if "w \<in> set (e # rest)" for w
    using that extend(2,3) sorted by (auto simp: wmb_ge_def)
  then have "\<forall>w \<in> set (butlast (e # rest)). wmb_ge n w" by (meson in_set_butlastD)
  with sorted_wrt_butlast [OF sorted] have "sorted_wrt wmb_ge (n # butlast (e # rest))" by simp
  moreover have "\<forall>w \<in> set (n # butlast (e # rest)). -1 \<le> wmb_watermark w \<and> -1 \<le> wmb_offset w"
  proof
    fix w assume "w \<in> set (n # butlast (e # rest))"
    then consider "w = n" | "w \<in> set (e # rest)" by (metis in_set_butlastD set_ConsD)
    then show "-1 \<le> wmb_watermark w \<and> -1 \<le> wmb_offset w"
    proof cases
      case 1
      with extend(1-3) assms(1) show ?thesis by (simp add: timeline_inv_def)
    next
      case 2
      with extend(1) assms(1) show ?thesis by (auto simp: timeline_inv_def)
    qed
  qed
  ultimately show ?thesis using extend(1,4) assms(1) by (auto simp: timeline_inv_def)
next
  case (raise e rest)
  with assms(1) show ?thesis by (auto simp: timeline_inv_def wmb_ge_def)
next
  case (skip e rest)
  with assms(1) show ?thesis by simp
qed

lemma timeline_inv_put_all:
  "timeline_inv t \<Longrightarrow> \<exists>t'. put_all ns t = Some t' \<and> timeline_inv t'"
proof (induction ns arbitrary: t)
  case (Cons n ns)
  from put_total [OF Cons.prems] obtain t1 where t1: "put n t = Some t1" by blast
  from timeline_inv_put [OF Cons.prems t1] have "timeline_inv t1" .
  with Cons.IH t1 show ?case by simp
qed simp

lemma put_capacity: "timeline_inv t \<Longrightarrow> put n t = Some t' \<Longrightarrow> tl_capacity t' = tl_capacity t"
  by (erule (1) put_cases) simp_all

section \<open>What a timeline answers\<close>

lemma put_head_mono:
  assumes "timeline_inv t" and "put n t = Some t'"
  shows "get_head_watermark t \<le> get_head_watermark t'" and "get_head_offset t \<le> get_head_offset t'"
  using assms by (cases rule: put_cases, auto simp: wm_defs)+

lemma wmb_ge_watermark: "wmb_ge a b \<Longrightarrow> wmb_watermark b \<le> wmb_watermark a"
  by (simp add: wmb_ge_def)

lemma find_sorted_max:
  assumes "sorted_wrt wmb_ge ws" and "find P ws = Some x" and "y \<in> set ws" and "P y"
  shows "wmb_watermark y \<le> wmb_watermark x"
  using assms by (induction ws) (auto simp: wmb_ge_watermark split: if_splits)

lemma get_event_time_upper:
  assumes "timeline_inv t" and "w \<in> set (tl_watermarks t)" and "wmb_offset w < off"
  shows "wmb_watermark w \<le> get_event_time t off"
proof -
  have "sorted_wrt wmb_ge (tl_watermarks t)" using assms(1) by (simp add: timeline_inv_def)
  moreover from assms(2,3) obtain x where
    "find (\<lambda>w. wmb_offset w < off) (tl_watermarks t) = Some x"
    by (cases "find (\<lambda>w. wmb_offset w < off) (tl_watermarks t)") (auto simp: find_None_iff)
  ultimately show ?thesis
    using find_sorted_max [of "tl_watermarks t" "\<lambda>w. wmb_offset w < off" x w] assms(2,3)
    by (simp add: get_event_time_def)
qed

lemma get_event_time_cases:
  "get_event_time t off = -1 \<or>
   (\<exists>w \<in> set (tl_watermarks t). wmb_offset w < off \<and> get_event_time t off = wmb_watermark w)"
  by (auto simp: get_event_time_def find_Some_iff split: option.splits)

lemma get_event_time_ge: "timeline_inv t \<Longrightarrow> -1 \<le> get_event_time t off"
  using get_event_time_cases [of t off] by (auto simp: timeline_inv_def)

text \<open>
  Soundness of a run: each retained record is the initial one or carries the offset and the
  watermark of a published message, so no watermark is made up.
\<close>

definition from_history :: "wmb list \<Rightarrow> offset_timeline \<Rightarrow> bool" where
  "from_history ns t \<longleftrightarrow> (\<forall>w \<in> set (tl_watermarks t). wmb_watermark w = -1 \<or>
     (\<exists>n \<in> set ns. wmb_offset n = wmb_offset w \<and> wmb_watermark n = wmb_watermark w))"

lemma from_history_put:
  assumes "timeline_inv t" and "put n t = Some t'" and "from_history ns t" and "set (n # ns) \<subseteq> set ms"
  shows "from_history ms t'"
  using assms(1,2)
proof (cases rule: put_cases)
  case (extend e rest)
  then have "set (tl_watermarks t') \<subseteq> insert n (set (tl_watermarks t))"
    by (auto dest: in_set_butlastD split: if_splits)
  with assms(3,4) show ?thesis unfolding from_history_def by fastforce
next
  case (raise e rest)
  with assms(3,4) show ?thesis by (fastforce simp: from_history_def)
next
  case (skip e rest)
  with assms(3,4) show ?thesis by (fastforce simp: from_history_def)
qed

lemma from_history_put_all:
  assumes "timeline_inv t" and "put_all ns t = Some t'" and "from_history ms t"
  shows "from_history (ms @ ns) t'"
  using assms
proof (induction ns arbitrary: t ms)
  case (Cons n ns)
  then obtain t1 where t1: "put n t = Some t1" and "put_all ns t1 = Some t'"
    by (auto simp: bind_eq_Some_conv)
  moreover have "from_history (ms @ [n]) t1"
    by (rule from_history_put [OF Cons.prems(1) t1 Cons.prems(3)]) auto
  ultimately show ?case
    using Cons.IH [of t1 "ms @ [n]"] timeline_inv_put [OF Cons.prems(1) t1] by simp
qed simp

lemma from_history_lookup:
  assumes "from_history ns t"
  shows "get_event_time t off = -1 \<or>
    (\<exists>n \<in> set ns. wmb_offset n < off \<and> wmb_watermark n = get_event_time t off)"
proof (cases "get_event_time t off = -1")
  case False
  with get_event_time_cases [of t off] obtain w where w: "w \<in> set (tl_watermarks t)"
    "wmb_offset w < off" "get_event_time t off = wmb_watermark w" by blast
  with False assms obtain n where "n \<in> set ns" "wmb_offset n = wmb_offset w"
    "wmb_watermark n = wmb_watermark w" unfolding from_history_def by force
  with w show ?thesis by (intro disjI2 bexI [of _ n]) simp_all
qed simp

lemma from_history_new: "from_history [] (timeline_new c)"
  by (simp add: from_history_def timeline_new_def wmb_default_def)

text \<open>
  Completeness: a message that was put while it was ahead of the head is still represented, by
  its own record or, once evicted, by the oldest record kept.
\<close>

definition wmb_le :: "wmb \<Rightarrow> wmb \<Rightarrow> bool" where
  "wmb_le a b \<longleftrightarrow> wmb_watermark a \<le> wmb_watermark b \<and> wmb_offset a \<le> wmb_offset b"

definition covers :: "wmb list \<Rightarrow> offset_timeline \<Rightarrow> bool" where
  "covers ns t \<longleftrightarrow> (\<forall>n \<in> set ns. \<exists>w \<in> set (tl_watermarks t). wmb_le n w \<and>
     (wmb_offset w = wmb_offset n \<or> w = last (tl_watermarks t)))"

definition head_le :: "offset_timeline \<Rightarrow> wmb \<Rightarrow> bool" where
  "head_le t n \<longleftrightarrow> get_head_watermark t \<le> wmb_watermark n \<and> get_head_offset t \<le> wmb_offset n"

lemma wmb_ge_le: "wmb_ge a b \<Longrightarrow> wmb_le b a"
  by (auto simp: wmb_ge_def wmb_le_def)

lemma wmb_le_trans [trans]: "wmb_le a b \<Longrightarrow> wmb_le b c \<Longrightarrow> wmb_le a c"
  by (simp add: wmb_le_def)

lemma sorted_last_le:
  "sorted_wrt wmb_ge ws \<Longrightarrow> w \<in> set ws \<Longrightarrow> w = last ws \<or> wmb_le (last ws) w"
  by (induction ws) (auto simp: wmb_ge_le split: if_splits)

lemma covers_extend:
  assumes ns: "covers ns t" and sorted: "sorted_wrt wmb_ge (e # rest)"
    and t: "tl_watermarks t = e # rest" and t': "tl_watermarks t' = n # butlast (e # rest)"
    and le: "wmb_le e n"
  shows "covers (n # ns) t'"
proof -
  have all_le: "wmb_le w n" if "w \<in> set (e # rest)" for w
    using that sorted le by (auto dest: wmb_ge_le intro: wmb_le_trans)
  have last_le: "wmb_le (last (e # rest)) (last (tl_watermarks t'))"
  proof (cases rest rule: rev_cases)
    case Nil
    then show ?thesis using le by (simp add: t')
  next
    case (snoc r x)
    then have "last (e # rest) = x" and "butlast (e # rest) = e # r" by simp_all
    moreover have "wmb_ge (last (e # r)) x"
      using sorted snoc by (cases r rule: rev_cases) (auto simp: sorted_wrt_append)
    ultimately show ?thesis by (simp add: t' wmb_ge_le)
  qed
  have "\<exists>w \<in> set (tl_watermarks t'). wmb_le m w \<and>
      (wmb_offset w = wmb_offset m \<or> w = last (tl_watermarks t'))" if "m \<in> set ns" for m
  proof -
    from that ns t obtain w where w: "w \<in> set (e # rest)" "wmb_le m w"
      and cases: "wmb_offset w = wmb_offset m \<or> w = last (e # rest)"
      unfolding covers_def t by blast
    have "e # rest = butlast (e # rest) @ [last (e # rest)]" by simp
    with w(1) consider "w = last (e # rest)" | "w \<in> set (butlast (e # rest))" "wmb_offset w = wmb_offset m"
      using cases by (metis Un_iff empty_iff set_append insert_iff list.set)
    then show ?thesis
    proof cases
      case 1
      with w(2) last_le have "wmb_le m (last (tl_watermarks t'))" by (blast intro: wmb_le_trans)
      then show ?thesis using t' by (metis last_in_set list.distinct(1))
    next
      case 2
      with w(2) show ?thesis using t' by auto
    qed
  qed
  then show ?thesis unfolding covers_def by (auto simp: t' wmb_le_def)
qed

lemma covers_put:
  assumes inv: "timeline_inv t" and put: "put n t = Some t'" and ns: "covers ns t" and "head_le t n"
  shows "covers (n # ns) t'" and "get_head_watermark t' = wmb_watermark n"
    and "get_head_offset t' = wmb_offset n"
  using inv put
proof (atomize (full), cases rule: put_cases)
  case (extend e rest)
  moreover have "sorted_wrt wmb_ge (e # rest)" using inv extend(1) by (simp add: timeline_inv_def)
  moreover have "wmb_le e n" using extend(2,3) by (simp add: wmb_le_def)
  ultimately show "covers (n # ns) t' \<and> get_head_watermark t' = wmb_watermark n \<and>
      get_head_offset t' = wmb_offset n"
    using covers_extend [OF ns, of e rest t' n] by (simp add: wm_defs)
next
  case (raise e rest)
  then show "covers (n # ns) t' \<and> get_head_watermark t' = wmb_watermark n \<and>
      get_head_offset t' = wmb_offset n"
    using ns by (fastforce simp: covers_def wm_defs wmb_le_def)
next
  case (skip e rest)
  then have "wmb_watermark n = wmb_watermark e" "wmb_offset n = wmb_offset e"
    using assms(4) by (auto simp: head_le_def wm_defs)
  with skip show "covers (n # ns) t' \<and> get_head_watermark t' = wmb_watermark n \<and>
      get_head_offset t' = wmb_offset n"
    using ns by (auto simp: covers_def wm_defs wmb_le_def)
qed

lemma covers_set: "covers ns t \<Longrightarrow> set ms \<subseteq> set ns \<Longrightarrow> covers ms t"
  by (auto simp: covers_def)

lemma put_all_covers:
  assumes "timeline_inv t" and "covers ms t" and "sorted_wrt wmb_le ns"
    and "\<forall>n \<in> set ns. head_le t n" and "put_all ns t = Some t'"
  shows "covers (ms @ ns) t'"
  using assms
proof (induction ns arbitrary: t ms)
  case (Cons n ns)
  then obtain t1 where t1: "put n t = Some t1" and run: "put_all ns t1 = Some t'"
    by (auto simp: bind_eq_Some_conv)
  have "head_le t n" using Cons.prems(4) by simp
  note step = covers_put [OF Cons.prems(1) t1 Cons.prems(2) this]
  have "covers (ms @ [n]) t1" by (rule covers_set [OF step(1)]) auto
  moreover have "\<forall>m \<in> set ns. head_le t1 m"
    using Cons.prems(3) step(2,3) by (auto simp: head_le_def wmb_le_def)
  ultimately show ?case
    using Cons.IH [of t1 "ms @ [n]"] timeline_inv_put [OF Cons.prems(1) t1] Cons.prems(3) run by simp
qed simp

lemma get_event_time_out_of_range:
  assumes "timeline_inv t" and "\<not> wmb_offset (last (tl_watermarks t)) < off"
  shows "get_event_time t off = -1"
proof -
  have "\<not> wmb_offset w < off" if "w \<in> set (tl_watermarks t)" for w
    using sorted_last_le [of "tl_watermarks t" w] that assms by (auto simp: timeline_inv_def wmb_le_def)
  then have "find (\<lambda>w. wmb_offset w < off) (tl_watermarks t) = None" by (simp add: find_None_iff)
  then show ?thesis by (simp add: get_event_time_def)
qed

section \<open>Properties\<close>



text \<open>
  The event time a timeline answers for an offset is never invented: after any sequence of
  records it is \<open>-1\<close> or the watermark of a record published for a smaller offset.
\<close>

theorem get_event_time_sound:
  assumes "0 < capacity" and "put_all ns (timeline_new capacity) = Some t"
  shows "get_event_time t off = -1 \<or>
    (\<exists>n \<in> set ns. wmb_offset n < off \<and> wmb_watermark n = get_event_time t off)"
proof -
  have "from_history ns t"
    using from_history_put_all [OF timeline_inv_new [OF assms(1)] assms(2) from_history_new] by simp
  then show ?thesis by (rule from_history_lookup)
qed

theorem get_event_time_sound_witness:
  "\<exists>t. put_all [wmb_default\<lparr>wmb_offset := 3, wmb_watermark := 10\<rparr>] (timeline_new 2) = Some t \<and>
     (get_event_time t 4 = -1 \<or>
      (\<exists>n \<in> set [wmb_default\<lparr>wmb_offset := 3, wmb_watermark := 10\<rparr>].
         wmb_offset n < 4 \<and> wmb_watermark n = get_event_time t 4))"
proof -
  let ?ns = "[wmb_default\<lparr>wmb_offset := 3, wmb_watermark := 10\<rparr>]"
  have "\<exists>t. put_all ?ns (timeline_new 2) = Some t"
    by (simp add: put_def timeline_new_def wmb_default_def cmp_def numeral_2_eq_2)
  then obtain t where t: "put_all ?ns (timeline_new 2) = Some t" by blast
  show ?thesis using t get_event_time_sound [OF _ t, of 4] by (intro exI [of _ t]) simp
qed

text \<open>
  C8. For records published in ascending order, as a publisher does, the lookup is exact: for an
  offset above the oldest record kept it is the greatest watermark published for a smaller
  offset, evicted records included, and below it the timeline answers \<open>-1\<close>.
\<close>

theorem get_event_time_exact:
  assumes "0 < capacity" and "sorted_wrt wmb_le ns"
    and "\<forall>n \<in> set ns. -1 \<le> wmb_watermark n \<and> -1 \<le> wmb_offset n"
    and "put_all ns (timeline_new capacity) = Some t"
  shows "get_event_time t off =
    (if wmb_offset (last (entries t)) < off
     then Max (insert (-1) (wmb_watermark ` {n \<in> set ns. wmb_offset n < off}))
     else -1)"
proof -
  note inv0 = timeline_inv_new [OF assms(1)]
  have inv: "timeline_inv t" using timeline_inv_put_all [OF inv0, of ns] assms(4) by auto
  have "\<forall>n \<in> set ns. head_le (timeline_new capacity) n"
    using assms(1,3) by (cases capacity) (auto simp: head_le_def wm_defs timeline_new_def wmb_default_def)
  then have cov: "covers ns t"
    using put_all_covers [OF inv0, of "[]" ns t] assms(2,4) by (simp add: covers_def)
  have hist: "from_history ns t"
    using from_history_put_all [OF inv0 assms(4) from_history_new] by simp
  show ?thesis
  proof (cases "wmb_offset (last (tl_watermarks t)) < off")
    case True
    let ?M = "insert (-1) (wmb_watermark ` {n \<in> set ns. wmb_offset n < off})"
    have "get_event_time t off \<in> ?M"
      using from_history_lookup [OF hist, of off] by (auto intro: rev_image_eqI)
    moreover have "x \<le> get_event_time t off" if "x \<in> ?M" for x
    proof (cases "x = -1")
      case False
      with that obtain n where n: "n \<in> set ns" "wmb_offset n < off" "x = wmb_watermark n" by auto
      with cov obtain w where "w \<in> set (tl_watermarks t)" "wmb_le n w"
        "wmb_offset w = wmb_offset n \<or> w = last (tl_watermarks t)" unfolding covers_def by blast
      with n True get_event_time_upper [OF inv, of w off] show ?thesis by (auto simp: wmb_le_def)
    qed (simp add: get_event_time_ge [OF inv])
    ultimately have "Max ?M = get_event_time t off" by (intro Max_eqI) auto
    with True show ?thesis by (simp add: entries_def)
  qed (simp add: get_event_time_out_of_range [OF inv] entries_def)
qed

theorem get_event_time_exact_witness:
  "\<exists>t. put_all [wmb_default\<lparr>wmb_offset := 3, wmb_watermark := 10\<rparr>,
                wmb_default\<lparr>wmb_offset := 5, wmb_watermark := 20\<rparr>] (timeline_new 2) = Some t \<and>
     get_event_time t 4 =
       (if wmb_offset (last (entries t)) < 4
        then Max (insert (-1) (wmb_watermark `
          {n \<in> set [wmb_default\<lparr>wmb_offset := 3, wmb_watermark := 10\<rparr>,
                    wmb_default\<lparr>wmb_offset := 5, wmb_watermark := 20\<rparr>]. wmb_offset n < 4}))
        else -1)"
proof -
  let ?ns = "[wmb_default\<lparr>wmb_offset := 3, wmb_watermark := 10\<rparr>,
              wmb_default\<lparr>wmb_offset := 5, wmb_watermark := 20\<rparr>]"
  have "\<exists>t. put_all ?ns (timeline_new 2) = Some t"
    by (simp add: put_def timeline_new_def wmb_default_def cmp_def numeral_2_eq_2)
  then obtain t where t: "put_all ?ns (timeline_new 2) = Some t" by blast
  have asc: "sorted_wrt wmb_le ?ns"
    and low: "\<forall>n \<in> set ?ns. -1 \<le> wmb_watermark n \<and> -1 \<le> wmb_offset n"
    by (simp_all add: wmb_le_def)
  have "0 < (2::nat)" by simp
  note exact = get_event_time_exact [OF this asc low t, of 4]
  show ?thesis by (rule exI [of _ t], rule conjI, rule t, rule exact)
qed

text \<open>
  Looking up a larger offset never gives a smaller event time.
\<close>

theorem get_event_time_mono:
  assumes "timeline_inv t" and "a \<le> b"
  shows "get_event_time t a \<le> get_event_time t b"
proof -
  consider "get_event_time t a = -1"
    | w where "w \<in> set (tl_watermarks t)" "wmb_offset w < a" "get_event_time t a = wmb_watermark w"
    using get_event_time_cases [of t a] by blast
  then show ?thesis
  proof cases
    case 1
    with get_event_time_ge [OF assms(1), of b] show ?thesis by simp
  next
    case 2
    with get_event_time_upper [OF assms(1), of w b] assms(2) show ?thesis by simp
  qed
qed

theorem get_event_time_mono_witness:
  "timeline_inv (timeline_new 10) \<and>
   get_event_time (timeline_new 10) 3 \<le> get_event_time (timeline_new 10) 7"
  using get_event_time_mono [of "timeline_new 10" 3 7] timeline_inv_new [of 10] by simp

text \<open>
  C29. The watermark message survives the trip through the key-value store: whatever the protobuf
  library encodes and decodes back, the partition (widened to \<^verbatim>\<open>i32\<close> and narrowed to \<^verbatim>\<open>u16\<close>) and
  the processor count (cast to \<^verbatim>\<open>i32\<close> and back) come out unchanged.
\<close>

theorem wmb_roundtrip:
  assumes "\<And>p bs. encode p = Inr bs \<Longrightarrow> decode bs = Inr p"
    and "wmb_to_bytes encode w = Inr bs"
  shows "wmb_try_from decode bs = Inr w"
proof -
  have "ucast (ucast (wmb_partition w) :: 32 word) = wmb_partition w"
    by (rule bit_word_eqI) (simp add: bit_ucast_iff)
  moreover have "map_option ucast (map_option (ucast :: u32 \<Rightarrow> 32 word) (wmb_processor_count w))
      = wmb_processor_count w"
    by (cases "wmb_processor_count w") simp_all
  ultimately show ?thesis
    using assms(2) by (auto simp: wmb_to_bytes_def wmb_try_from_def dest!: assms(1) split: sum.splits)
qed

lemma byte_decode_encode:
  assumes "byte_encode p = Inr bs"
  shows "byte_decode bs = Inr p"
proof -
  have fits: "pw_offset p \<in> {0..255}" "pw_watermark p \<in> {0..255}" "unat (pw_partition p) < 256"
    "pw_processor_count p = None"
    and bs: "bs = [of_bool (pw_idle p), of_int (pw_offset p), of_int (pw_watermark p),
      ucast (pw_partition p)]"
    using assms by (auto simp: byte_encode_def split: if_splits)
  have small: "uint (of_int x :: 8 word) = x" if "x \<in> {0..255}" for x :: int
    using that by (simp add: uint_word_of_int_eq take_bit_int_eq_self)
  have "ucast (ucast (pw_partition p) :: 8 word) = pw_partition p"
    using fits(3) by (simp add: word_unat_eq_iff unsigned_ucast_eq unsigned_take_bit_eq take_bit_nat_eq_self)
  with fits small show ?thesis by (cases p) (simp add: bs byte_decode_def)
qed

theorem wmb_roundtrip_witness:
  "\<exists>bs. wmb_to_bytes byte_encode (wmb_default\<lparr>wmb_offset := 7, wmb_watermark := 100,
       wmb_partition := 3\<rparr>) = Inr bs \<and>
     wmb_try_from byte_decode bs =
       Inr (wmb_default\<lparr>wmb_offset := 7, wmb_watermark := 100, wmb_partition := 3\<rparr>)"
proof -
  let ?w = "wmb_default\<lparr>wmb_offset := 7, wmb_watermark := 100, wmb_partition := 3\<rparr>"
  have "\<exists>bs. wmb_to_bytes byte_encode ?w = Inr bs"
    by (simp add: wmb_to_bytes_def byte_encode_def wmb_default_def)
  then obtain bs where bs: "wmb_to_bytes byte_encode ?w = Inr bs" by blast
  have "wmb_try_from byte_decode bs = Inr ?w"
    by (rule wmb_roundtrip [where encode = byte_encode, OF _ bs]) (rule byte_decode_encode)
  with bs show ?thesis by blast
qed

end
