(* ===== verification/KVStore.thy ===== *)
theory KVStore
  imports Prelude
begin

text \<open>
  The key-value store the watermark of every edge travels through. The trait
  (\<^verbatim>\<open>numaflow-shared/src/kv.rs\<close>) is the locale \<open>kv_store\<close>; the in-memory implementation
  (\<^verbatim>\<open>kv/inmemory/store.rs\<close>, with the failure counters of \<^verbatim>\<open>error_injector.rs\<close>) is modelled in full
  and interprets it. A mutation returns the change entry it broadcasts to the watchers. The
  watch stream is the polling state machine over the replayed history and the broadcast channel.
\<close>

section \<open>Data\<close>

datatype kv_watch_op = Put | Delete | Purge

record kv_entry =
  kve_key :: string
  kve_value :: bytes
  kve_operation :: kv_watch_op
  kve_created :: i64

datatype kv_error =
    Keys_error string | Get_error string | Put_error string | Delete_error string
  | Watch_error string | Watch_stream_closed | Other_error string

record kv_history_entry =
  kvh_revision :: nat
  kvh_key :: string
  kvh_value :: bytes
  kvh_operation :: kv_watch_op
  kvh_created :: i64

definition kv_entry_of :: "kv_history_entry \<Rightarrow> kv_entry" where
  "kv_entry_of h = \<lparr>kve_key = kvh_key h, kve_value = kvh_value h,
     kve_operation = (case kvh_operation h of Put \<Rightarrow> Put | Delete \<Rightarrow> Delete | Purge \<Rightarrow> Purge),
     kve_created = kvh_created h\<rparr>"

record kv_state =
  kv_data :: "(string, bytes) hashmap"
  kv_revision :: nat
  kv_history :: "kv_history_entry list"
  kv_max_history_size :: nat

definition kv_state_new :: "nat \<Rightarrow> kv_state" where
  "kv_state_new max_history_size = \<lparr>kv_data = [], kv_revision = 0, kv_history = [],
     kv_max_history_size = max_history_size\<rparr>"

definition record_history :: "i64 \<Rightarrow> string \<Rightarrow> bytes \<Rightarrow> kv_watch_op \<Rightarrow> kv_state \<Rightarrow> kv_state" where
  "record_history now key value operation st =
     (let revision = kv_revision st + 1;
          entry = \<lparr>kvh_revision = revision, kvh_key = key, kvh_value = value,
                   kvh_operation = operation, kvh_created = now\<rparr>;
          history = kv_history st @ [entry]
      in st\<lparr>kv_revision := revision,
            kv_history :=
              (if 0 < kv_max_history_size st \<and> kv_max_history_size st < length history
               then drop (length history - kv_max_history_size st) history
               else history)\<rparr>)"

definition history_from :: "nat \<Rightarrow> kv_state \<Rightarrow> kv_history_entry list" where
  "history_from revision st = filter (\<lambda>e. revision \<le> kvh_revision e) (kv_history st)"

section \<open>Failure injection\<close>

record kv_injector =
  fail_next_keys :: nat
  fail_next_gets :: nat
  fail_next_puts :: nat
  fail_next_deletes :: nat
  fail_next_watches :: nat
  close_watch_after_items :: nat
  close_all_watches :: bool

definition kv_injector_default :: kv_injector where
  "kv_injector_default = \<lparr>fail_next_keys = 0, fail_next_gets = 0, fail_next_puts = 0,
     fail_next_deletes = 0, fail_next_watches = 0, close_watch_after_items = 0,
     close_all_watches = False\<rparr>"

definition decrement_counter :: "nat \<Rightarrow> bool \<times> nat" where
  "decrement_counter c = (if 0 < c then (True, c - 1) else (False, c))"

section \<open>The store\<close>

record simple_kv =
  skv_state :: kv_state
  skv_injector :: kv_injector

definition simple_kv_with_config :: "nat \<Rightarrow> simple_kv" where
  "simple_kv_with_config max_history_size =
     \<lparr>skv_state = kv_state_new max_history_size, skv_injector = kv_injector_default\<rparr>"

definition simple_kv_new :: simple_kv where
  "simple_kv_new = simple_kv_with_config 1000"

definition fail_keys :: "nat \<Rightarrow> kv_injector \<Rightarrow> kv_injector" where
  "fail_keys count i = i\<lparr>fail_next_keys := count\<rparr>"

definition fail_gets :: "nat \<Rightarrow> kv_injector \<Rightarrow> kv_injector" where
  "fail_gets count i = i\<lparr>fail_next_gets := count\<rparr>"

definition fail_puts :: "nat \<Rightarrow> kv_injector \<Rightarrow> kv_injector" where
  "fail_puts count i = i\<lparr>fail_next_puts := count\<rparr>"

definition fail_deletes :: "nat \<Rightarrow> kv_injector \<Rightarrow> kv_injector" where
  "fail_deletes count i = i\<lparr>fail_next_deletes := count\<rparr>"

definition fail_watches :: "nat \<Rightarrow> kv_injector \<Rightarrow> kv_injector" where
  "fail_watches count i = i\<lparr>fail_next_watches := count\<rparr>"

definition close_watch_after :: "nat \<Rightarrow> kv_injector \<Rightarrow> kv_injector" where
  "close_watch_after items i = i\<lparr>close_watch_after_items := items\<rparr>"

definition close_all_watch_streams :: "kv_injector \<Rightarrow> kv_injector" where
  "close_all_watch_streams i = i\<lparr>close_all_watches := True\<rparr>"

definition reset_close_all_watches :: "kv_injector \<Rightarrow> kv_injector" where
  "reset_close_all_watches i = i\<lparr>close_all_watches := False\<rparr>"

definition kv_revision_of :: "simple_kv \<Rightarrow> nat" where
  "kv_revision_of s = kv_revision (skv_state s)"

definition kv_len :: "simple_kv \<Rightarrow> nat" where
  "kv_len s = length (kv_data (skv_state s))"

definition kv_is_empty :: "simple_kv \<Rightarrow> bool" where
  "kv_is_empty s \<longleftrightarrow> kv_data (skv_state s) = []"

definition kv_snapshot :: "simple_kv \<Rightarrow> (string, bytes) hashmap" where
  "kv_snapshot s = kv_data (skv_state s)"

definition history_last :: "kv_state \<Rightarrow> kv_history_entry option" where
  "history_last st = (if kv_history st = [] then None else Some (last (kv_history st)))"

definition kv_purge :: "i64 \<Rightarrow> simple_kv \<Rightarrow> simple_kv \<times> kv_history_entry option" where
  "kv_purge now s =
     (let st = record_history now [] [] Purge ((skv_state s)\<lparr>kv_data := []\<rparr>)
      in (s\<lparr>skv_state := st\<rparr>, history_last st))"

definition kv_keys :: "simple_kv \<Rightarrow> simple_kv \<times> (kv_error + string list)" where
  "kv_keys s =
     (let (fail, c) = decrement_counter (fail_next_keys (skv_injector s));
          s' = s\<lparr>skv_injector := (skv_injector s)\<lparr>fail_next_keys := c\<rparr>\<rparr>
      in if fail then (s', Inl (Keys_error ''injected failure''))
         else (s', Inr (hm_keys (kv_data (skv_state s')))))"

definition kv_get :: "string \<Rightarrow> simple_kv \<Rightarrow> simple_kv \<times> (kv_error + bytes option)" where
  "kv_get key s =
     (let (fail, c) = decrement_counter (fail_next_gets (skv_injector s));
          s' = s\<lparr>skv_injector := (skv_injector s)\<lparr>fail_next_gets := c\<rparr>\<rparr>
      in if fail then (s', Inl (Get_error ''injected failure''))
         else (s', Inr (hm_get (kv_data (skv_state s')) key)))"

definition kv_delete ::
    "i64 \<Rightarrow> string \<Rightarrow> simple_kv \<Rightarrow> simple_kv \<times> (kv_error + kv_history_entry option)" where
  "kv_delete now key s =
     (let (fail, c) = decrement_counter (fail_next_deletes (skv_injector s));
          s' = s\<lparr>skv_injector := (skv_injector s)\<lparr>fail_next_deletes := c\<rparr>\<rparr>
      in if fail then (s', Inl (Delete_error ''injected failure''))
         else
           let st = (skv_state s')\<lparr>kv_data := hm_remove key (kv_data (skv_state s'))\<rparr>;
               st' = record_history now key [] Delete st
           in (s'\<lparr>skv_state := st'\<rparr>, Inr (history_last st')))"

definition kv_put ::
    "i64 \<Rightarrow> string \<Rightarrow> bytes \<Rightarrow> simple_kv \<Rightarrow> simple_kv \<times> (kv_error + kv_history_entry option)" where
  "kv_put now key value s =
     (let (fail, c) = decrement_counter (fail_next_puts (skv_injector s));
          s' = s\<lparr>skv_injector := (skv_injector s)\<lparr>fail_next_puts := c\<rparr>\<rparr>
      in if fail then (s', Inl (Put_error ''injected failure''))
         else
           let st = (skv_state s')\<lparr>kv_data := hm_insert key value (kv_data (skv_state s'))\<rparr>;
               st' = record_history now key value Put st
           in (s'\<lparr>skv_state := st'\<rparr>, Inr (history_last st')))"

section \<open>The watch stream\<close>

text \<open>
  A broadcast receiver yields values, a notice that it lagged behind and lost some, or its end;
  the list holds what is ready, and an empty list is \<^verbatim>\<open>Poll::Pending\<close>.
\<close>

datatype 'a recv = Item 'a | Lagged | Closed

datatype 'a poll = Ready_None | Ready_Some 'a | Pending

record watch_stream =
  ws_history :: "kv_history_entry list"
  ws_history_index :: nat
  ws_stream :: "kv_history_entry recv list"
  ws_close_stream :: "unit recv list"
  ws_close_after :: nat
  ws_items_emitted :: nat
  ws_closed :: bool

definition kv_watch ::
    "nat option \<Rightarrow> simple_kv \<Rightarrow> simple_kv \<times> (kv_error + watch_stream)" where
  "kv_watch revision s =
     (let (fail, c) = decrement_counter (fail_next_watches (skv_injector s));
          s' = s\<lparr>skv_injector := (skv_injector s)\<lparr>fail_next_watches := c\<rparr>\<rparr>
      in if fail then (s', Inl (Watch_error ''injected failure''))
         else (s', Inr \<lparr>ws_history = (case revision of
                          Some r \<Rightarrow> history_from r (skv_state s') | None \<Rightarrow> []),
                        ws_history_index = 0, ws_stream = [], ws_close_stream = [],
                        ws_close_after = close_watch_after_items (skv_injector s'),
                        ws_items_emitted = 0, ws_closed = False\<rparr>))"

text \<open>The two inner loops: a lag notice is skipped, the channel is polled again.\<close>

fun poll_close :: "unit recv list \<Rightarrow> bool \<times> unit recv list" where
  "poll_close [] = (False, [])"
| "poll_close (Item _ # rs) = (True, rs)"
| "poll_close (Lagged # rs) = poll_close rs"
| "poll_close (Closed # rs) = (True, rs)"

fun poll_live ::
    "kv_history_entry recv list \<Rightarrow> kv_history_entry poll \<times> kv_history_entry recv list" where
  "poll_live [] = (Pending, [])"
| "poll_live (Item e # rs) = (Ready_Some e, rs)"
| "poll_live (Lagged # rs) = poll_live rs"
| "poll_live (Closed # rs) = (Ready_None, rs)"

definition poll_next :: "bool \<Rightarrow> watch_stream \<Rightarrow> watch_stream \<times> kv_entry poll" where
  "poll_next close_all w =
     (if ws_closed w then (w, Ready_None)
      else if close_all then (w\<lparr>ws_closed := True\<rparr>, Ready_None)
      else
        let (close, rs) = poll_close (ws_close_stream w);
            w = w\<lparr>ws_close_stream := rs\<rparr>
        in if close then (w\<lparr>ws_closed := True\<rparr>, Ready_None)
           else if 0 < ws_close_after w \<and> ws_close_after w \<le> ws_items_emitted w
           then (w\<lparr>ws_closed := True\<rparr>, Ready_None)
           else if ws_history_index w < length (ws_history w)
           then (w\<lparr>ws_history_index := ws_history_index w + 1,
                   ws_items_emitted := ws_items_emitted w + 1\<rparr>,
                 Ready_Some (kv_entry_of (ws_history w ! ws_history_index w)))
           else
             case poll_live (ws_stream w) of
               (Ready_Some e, rs) \<Rightarrow>
                 (w\<lparr>ws_stream := rs, ws_items_emitted := ws_items_emitted w + 1\<rparr>,
                  Ready_Some (kv_entry_of e))
             | (Ready_None, rs) \<Rightarrow> (w\<lparr>ws_stream := rs, ws_closed := True\<rparr>, Ready_None)
             | (Pending, rs) \<Rightarrow> (w\<lparr>ws_stream := rs\<rparr>, Pending))"

text \<open>The results of polling the stream a number of times.\<close>

fun polls :: "nat \<Rightarrow> watch_stream \<Rightarrow> kv_entry poll list" where
  "polls 0 w = []"
| "polls (Suc n) w = (case poll_next False w of (w', p) \<Rightarrow> p # polls n w')"

section \<open>The interface\<close>

text \<open>What a watcher makes of the entries it receives: its own copy of the store.\<close>

definition apply_entry :: "kv_entry \<Rightarrow> (string \<rightharpoonup> bytes) \<Rightarrow> (string \<rightharpoonup> bytes)" where
  "apply_entry e m =
     (case kve_operation e of
        Put \<Rightarrow> m(kve_key e \<mapsto> kve_value e)
      | Delete \<Rightarrow> m(kve_key e := None)
      | Purge \<Rightarrow> Map.empty)"

text \<open>Commands to a store and the entries a run of them broadcasts; a failed command emits none.\<close>

datatype kv_cmd = Cmd_put i64 string bytes | Cmd_delete i64 string | Cmd_purge i64

definition emitted :: "kv_error + kv_history_entry option \<Rightarrow> kv_entry list" where
  "emitted r = (case r of Inr (Some e) \<Rightarrow> [kv_entry_of e] | _ \<Rightarrow> [])"

fun kv_run ::
    "(i64 \<Rightarrow> string \<Rightarrow> bytes \<Rightarrow> 's \<Rightarrow> 's \<times> (kv_error + kv_history_entry option)) \<Rightarrow>
     (i64 \<Rightarrow> string \<Rightarrow> 's \<Rightarrow> 's \<times> (kv_error + kv_history_entry option)) \<Rightarrow>
     (i64 \<Rightarrow> 's \<Rightarrow> 's \<times> kv_history_entry option) \<Rightarrow> kv_cmd list \<Rightarrow> 's \<Rightarrow> 's \<times> kv_entry list" where
  "kv_run put del pur [] s = (s, [])"
| "kv_run put del pur (c # cs) s =
     (let (s1, log1) =
        (case c of
           Cmd_put now k v \<Rightarrow> (case put now k v s of (s', r) \<Rightarrow> (s', emitted r))
         | Cmd_delete now k \<Rightarrow> (case del now k s of (s', r) \<Rightarrow> (s', emitted r))
         | Cmd_purge now \<Rightarrow> (case pur now s of (s', r) \<Rightarrow> (s', emitted (Inr r))));
          (s2, log2) = kv_run put del pur cs s1
      in (s2, log1 @ log2))"

locale kv_store =
  fixes lookup :: "'s \<Rightarrow> (string \<rightharpoonup> bytes)"
    and wf :: "'s \<Rightarrow> bool"
    and keys :: "'s \<Rightarrow> 's \<times> (kv_error + string list)"
    and get :: "string \<Rightarrow> 's \<Rightarrow> 's \<times> (kv_error + bytes option)"
    and put :: "i64 \<Rightarrow> string \<Rightarrow> bytes \<Rightarrow> 's \<Rightarrow> 's \<times> (kv_error + kv_history_entry option)"
    and del :: "i64 \<Rightarrow> string \<Rightarrow> 's \<Rightarrow> 's \<times> (kv_error + kv_history_entry option)"
    and pur :: "i64 \<Rightarrow> 's \<Rightarrow> 's \<times> kv_history_entry option"
  assumes keys_law: "wf s \<Longrightarrow> keys s = (s', Inr ks) \<Longrightarrow> distinct ks \<and> set ks = dom (lookup s)"
    and keys_frame: "wf s \<Longrightarrow> keys s = (s', kr) \<Longrightarrow> wf s' \<and> lookup s' = lookup s"
    and get_law: "wf s \<Longrightarrow> get k s = (s', Inr ov) \<Longrightarrow> ov = lookup s k"
    and get_frame: "wf s \<Longrightarrow> get k s = (s', q) \<Longrightarrow> wf s' \<and> lookup s' = lookup s"
    and put_law: "wf s \<Longrightarrow> put now k v s = (s', r) \<Longrightarrow>
      wf s' \<and> lookup s' = fold apply_entry (emitted r) (lookup s) \<and>
      (\<forall>x. r = Inr x \<longrightarrow> emitted r = [\<lparr>kve_key = k, kve_value = v, kve_operation = Put, kve_created = now\<rparr>])"
    and del_law: "wf s \<Longrightarrow> del now k s = (s', r) \<Longrightarrow>
      wf s' \<and> lookup s' = fold apply_entry (emitted r) (lookup s) \<and>
      (\<forall>x. r = Inr x \<longrightarrow> emitted r = [\<lparr>kve_key = k, kve_value = [], kve_operation = Delete, kve_created = now\<rparr>])"
    and pur_law: "wf s \<Longrightarrow> pur now s = (s', x) \<Longrightarrow>
      wf s' \<and> lookup s' = Map.empty \<and>
      emitted (Inr x) = [\<lparr>kve_key = [], kve_value = [], kve_operation = Purge, kve_created = now\<rparr>]"
begin

lemma run_view:
  assumes "wf s" and "kv_run put del pur cs s = (s', log)"
  shows "wf s' \<and> lookup s' = fold apply_entry log (lookup s)"
  using assms
proof (induction cs arbitrary: s log)
  case (Cons c cs)
  obtain s1 log1 where step: "(case c of
      Cmd_put now k v \<Rightarrow> (case put now k v s of (s', r) \<Rightarrow> (s', emitted r))
    | Cmd_delete now k \<Rightarrow> (case del now k s of (s', r) \<Rightarrow> (s', emitted r))
    | Cmd_purge now \<Rightarrow> (case pur now s of (s', r) \<Rightarrow> (s', emitted (Inr r)))) = (s1, log1)"
    by fastforce
  have one: "wf s1 \<and> lookup s1 = fold apply_entry log1 (lookup s)"
  proof (cases c)
    case (Cmd_purge now)
    then obtain x where x: "pur now s = (s1, x)" and log1: "log1 = emitted (Inr x)"
      using step by (auto split: prod.splits)
    from pur_law [OF Cons.prems(1) x] show ?thesis by (simp add: log1 apply_entry_def)
  qed (use step Cons.prems(1) in \<open>auto dest: put_law del_law split: prod.splits\<close>)
  obtain log2 where "kv_run put del pur cs s1 = (s', log2)" and "log = log1 @ log2"
    using Cons.prems(2) step by (auto split: prod.splits)
  with Cons.IH [of s1 log2] one show ?case by simp
qed simp

lemma put_then_get:
  assumes "wf s" and "put now k v s = (s1, Inr x)" and "get k s1 = (s2, Inr r)"
  shows "r = Some v"
  using put_law [OF assms(1,2)] get_law [of s1 k s2 r] assms(3) by (auto simp: apply_entry_def)

end

section \<open>The in-memory store keeps its invariant\<close>

text \<open>
  The keys of the data are distinct, and the history holds the last revisions, numbered without
  a gap up to the current one, at most \<^verbatim>\<open>max_history_size\<close> of them when that is not zero.
\<close>

definition kv_inv :: "kv_state \<Rightarrow> bool" where
  "kv_inv st \<longleftrightarrow> hm_wf (kv_data st) \<and> length (kv_history st) \<le> kv_revision st \<and>
     map kvh_revision (kv_history st) =
       [kv_revision st + 1 - length (kv_history st) ..< kv_revision st + 1] \<and>
     length (kv_history st) =
       (if kv_max_history_size st = 0 then kv_revision st
        else min (kv_revision st) (kv_max_history_size st))"

definition simple_kv_inv :: "simple_kv \<Rightarrow> bool" where
  "simple_kv_inv s \<longleftrightarrow> kv_inv (skv_state s)"

definition simple_kv_lookup :: "simple_kv \<Rightarrow> (string \<rightharpoonup> bytes)" where
  "simple_kv_lookup s = hm_get (kv_data (skv_state s))"

lemma kv_inv_new [preserves]: "kv_inv (kv_state_new n)"
  by (simp add: kv_inv_def kv_state_new_def)

lemma kv_inv_record_history [preserves]:
  assumes "kv_inv st"
  shows "kv_inv (record_history now k v op st)"
proof -
  let ?m = "kv_max_history_size st" and ?h = "kv_history st" and ?r = "kv_revision st"
  have revs: "map kvh_revision ?h = [?r + 1 - length ?h ..< ?r + 1]" and le: "length ?h \<le> ?r"
    and len: "length ?h = (if ?m = 0 then ?r else min ?r ?m)"
    and wf: "hm_wf (kv_data st)"
    using assms by (auto simp: kv_inv_def)
  have snoc: "map kvh_revision ?h @ [?r + 1] = [?r + 1 - length ?h ..< ?r + 2]"
  proof -
    have "[?r + 1 - length ?h ..< ?r + 2] = [?r + 1 - length ?h ..< ?r + 1] @ [?r + 1]"
      using upt_Suc_append [of "?r + 1 - length ?h" "?r + 1"] by simp
    then show ?thesis using revs by simp
  qed
  show ?thesis
  proof (cases "0 < ?m \<and> ?m < length ?h + 1")
    case True
    with len have full: "length ?h = ?m" by (auto simp: min_def split: if_splits)
    have "map kvh_revision (drop 1 ?h) @ [?r + 1] = drop 1 (map kvh_revision ?h @ [?r + 1])"
      using True full by (simp add: drop_map)
    also have "\<dots> = drop 1 [?r + 1 - ?m ..< ?r + 2]" by (simp only: snoc full)
    also have "\<dots> = [?r + 2 - ?m ..< ?r + 2]"
      using full le by (simp only: drop_upt) (simp add: Suc_diff_le)
    finally have "map kvh_revision (drop 1 ?h) @ [?r + 1] = [?r + 2 - ?m ..< ?r + 2]" .
    with True full wf le show ?thesis
      by (simp add: kv_inv_def record_history_def Let_def del: upt_Suc)
  next
    case False
    with len snoc wf le show ?thesis
      by (auto simp: kv_inv_def record_history_def Let_def Suc_diff_le min_def split: if_splits)
  qed
qed

lemma kv_inv_data [preserves]: "kv_inv st \<Longrightarrow> hm_wf d \<Longrightarrow> kv_inv (st\<lparr>kv_data := d\<rparr>)"
  by (auto simp: kv_inv_def simp del: upt_Suc)

lemma kv_inv_data_wf: "kv_inv st \<Longrightarrow> hm_wf (kv_data st)"
  by (simp add: kv_inv_def)

lemma record_history_data [simp]: "kv_data (record_history now k v op st) = kv_data st"
  by (simp add: record_history_def Let_def)

lemma history_last_record:
  "history_last (record_history now k v op st) =
     Some \<lparr>kvh_revision = kv_revision st + 1, kvh_key = k, kvh_value = v, kvh_operation = op,
       kvh_created = now\<rparr>"
  by (auto simp: history_last_def record_history_def Let_def)

lemma decrement_counter_cases:
  "decrement_counter c = (True, c - 1) \<or> decrement_counter c = (False, c)"
  by (simp add: decrement_counter_def)

lemmas simple_kv_defs =
  simple_kv_inv_def simple_kv_lookup_def decrement_counter_def kv_keys_def kv_get_def kv_put_def
  kv_delete_def kv_purge_def

lemma emitted_record [simp]:
  "emitted (Inr (history_last (record_history now k v op st))) =
     [\<lparr>kve_key = k, kve_value = v, kve_operation = op, kve_created = now\<rparr>]"
  by (simp add: emitted_def history_last_record kv_entry_of_def split: kv_watch_op.splits)

lemma emitted_Inl [simp]: "emitted (Inl e) = []"
  by (simp add: emitted_def)

interpretation mem: kv_store simple_kv_lookup simple_kv_inv kv_keys kv_get kv_put kv_delete kv_purge
proof (unfold_locales, goal_cases)
  case (1 s s' ks)
  then show ?case
    by (auto simp: simple_kv_defs Let_def hm_wf_def dom_map_of_conv_image_fst
        dest!: kv_inv_data_wf split: if_splits) force+
next
  case (2 s s' kr)
  then show ?case by (auto simp: simple_kv_defs Let_def split: if_splits)
next
  case (3 s k s' ov)
  then show ?case by (auto simp: simple_kv_defs Let_def split: if_splits)
next
  case (4 s k s' q)
  then show ?case by (auto simp: simple_kv_defs Let_def split: if_splits)
next
  case (5 s now k v s' r)
  then show ?case
    by (auto simp: simple_kv_defs Let_def apply_entry_def fun_eq_iff
        intro!: preserves kv_inv_data_wf hm_wf_insert split: if_splits)
next
  case (6 s now k s' r)
  then show ?case
    by (auto simp: simple_kv_defs Let_def apply_entry_def fun_eq_iff
        intro!: preserves kv_inv_data_wf hm_wf_remove split: if_splits)
next
  case (7 s now s' x)
  then show ?case by (auto simp: simple_kv_defs Let_def intro!: preserves)
qed

section \<open>Properties\<close>



text \<open>
  Replay from a revision misses nothing the store still keeps: when the revision is not older
  than the retained history, \<open>history_from\<close> returns one entry per revision from it to the
  current one, in order.
\<close>

theorem history_from_complete:
  assumes "kv_inv st" and "kv_revision st < revision + length (kv_history st)"
  shows "map kvh_revision (history_from revision st) = [revision ..< kv_revision st + 1]"
proof -
  let ?l = "kv_revision st + 1 - length (kv_history st)"
  have revs: "map kvh_revision (kv_history st) = [?l ..< kv_revision st + 1]"
    using assms(1) by (simp add: kv_inv_def)
  have "map kvh_revision (history_from revision st) =
      filter (\<lambda>r. revision \<le> r) (map kvh_revision (kv_history st))"
    by (simp add: history_from_def filter_map comp_def)
  also have "\<dots> = filter (\<lambda>r. revision \<le> r) [?l ..< kv_revision st + 1]" by (simp only: revs)
  also have "\<dots> = [revision ..< kv_revision st + 1]"
  proof (rule sorted_distinct_set_unique)
    show "set (filter (\<lambda>r. revision \<le> r) [?l ..< kv_revision st + 1]) =
        set [revision ..< kv_revision st + 1]"
      using assms(2) by auto
  qed (simp_all add: sorted_wrt_filter del: upt_Suc)
  finally show ?thesis .
qed

theorem history_from_complete_witness:
  "kv_inv (record_history 5 ''k'' [1] Put (kv_state_new 10)) \<and>
   map kvh_revision (history_from 1 (record_history 5 ''k'' [1] Put (kv_state_new 10))) =
     [1 ..< kv_revision (record_history 5 ''k'' [1] Put (kv_state_new 10)) + 1]"
proof -
  let ?st = "record_history 5 ''k'' [1] Put (kv_state_new 10)"
  have inv: "kv_inv ?st" by (intro kv_inv_record_history kv_inv_new)
  have "kv_revision ?st < 1 + length (kv_history ?st)"
    by (simp add: record_history_def kv_state_new_def Let_def)
  from history_from_complete [OF inv this] inv show ?thesis by blast
qed

lemma polls_from:
  assumes "\<not> ws_closed w" and "ws_close_stream w = []" and "ws_stream w = map Item live"
    and "ws_history_index w \<le> length (ws_history w)"
    and "es = drop (ws_history_index w) (ws_history w) @ live"
    and "n \<le> length es"
    and "ws_close_after w = 0 \<or> ws_items_emitted w + n \<le> ws_close_after w"
  shows "polls n w = map (Ready_Some \<circ> kv_entry_of) (take n es)"
  using assms
proof (induction n arbitrary: w live es)
  case (Suc n)
  have open': "\<not> (0 < ws_close_after w \<and> ws_close_after w \<le> ws_items_emitted w)"
    using Suc.prems(7) by linarith
  show ?case
  proof (cases "ws_history_index w < length (ws_history w)")
    case True
    let ?w = "w\<lparr>ws_close_stream := [], ws_history_index := ws_history_index w + 1,
                ws_items_emitted := ws_items_emitted w + 1\<rparr>"
    let ?es = "drop (ws_history_index w + 1) (ws_history w) @ live"
    have next': "poll_next False w = (?w, Ready_Some (kv_entry_of (ws_history w ! ws_history_index w)))"
      using Suc.prems(1,2) open' True by (simp add: poll_next_def Let_def)
    have es: "es = ws_history w ! ws_history_index w # ?es"
      using True Suc.prems(5) by (simp add: Cons_nth_drop_Suc)
    have "polls n ?w = map (Ready_Some \<circ> kv_entry_of) (take n ?es)"
      by (rule Suc.IH [of _ live]) (use Suc.prems es True in auto)
    with next' es show ?thesis by simp
  next
    case False
    with Suc.prems obtain e live' where live: "live = e # live'" and es: "es = e # live'"
      by (cases live) auto
    let ?w = "w\<lparr>ws_close_stream := [], ws_stream := map Item live',
                ws_items_emitted := ws_items_emitted w + 1\<rparr>"
    have next': "poll_next False w = (?w, Ready_Some (kv_entry_of e))"
      using Suc.prems(1-3) open' False live by (simp add: poll_next_def Let_def)
    have "polls n ?w = map (Ready_Some \<circ> kv_entry_of) (take n live')"
      by (rule Suc.IH [of _ live']) (use Suc.prems es False in auto)
    with next' es show ?thesis by simp
  qed
qed simp



end
