(* ===== verification/Processor.thy ===== *)
theory Processor
  imports Timeline KVStore
begin

text \<open>
  The processors a vertex reads watermarks from and the \<open>ProcessorManager\<close> that tracks them
  (\<^verbatim>\<open>numaflow-core/src/watermark/processor/manager.rs\<close>): prepopulation from the offset-timeline
  store, the watcher that applies every store entry, the periodic refresh of the liveness status
  and the removal of a processor. The watcher, the refresher and the fetchers share the map under
  one lock, so an execution is an interleaving of these operations, the relation \<open>pm_step\<close>.
\<close>

section \<open>Processors\<close>

datatype vertex_type = Source | Sink | MapUDF | ReduceUDF

datatype status = InActive | Active | Deleted

record processor =
  proc_name :: string
  proc_status :: status
  proc_timelines :: "(u16, offset_timeline) hashmap"
  proc_last_seen_time :: i64

type_synonym processors = "(string, processor) hashmap"

definition processor_new :: "string \<Rightarrow> status \<Rightarrow> u16 list \<Rightarrow> i64 \<Rightarrow> processor" where
  "processor_new name st partitions last_seen_time =
     \<lparr>proc_name = name, proc_status = st,
      proc_timelines = fold (\<lambda>p m. hm_insert p (timeline_new 10) m) partitions [],
      proc_last_seen_time = last_seen_time\<rparr>"

definition set_status :: "status \<Rightarrow> processor \<Rightarrow> processor" where
  "set_status st p = p\<lparr>proc_status := st\<rparr>"

definition update_last_seen_time :: "i64 \<Rightarrow> processor \<Rightarrow> processor" where
  "update_last_seen_time t p = p\<lparr>proc_last_seen_time := t\<rparr>"

definition is_active :: "processor \<Rightarrow> bool" where
  "is_active p \<longleftrightarrow> proc_status p = Active"

definition is_deleted :: "processor \<Rightarrow> bool" where
  "is_deleted p \<longleftrightarrow> proc_status p = Deleted"

lemmas processor_defs [wm_defs] =
  set_status_def update_last_seen_time_def is_active_def is_deleted_def

section \<open>The manager's operations\<close>

text \<open>\<^verbatim>\<open>if let Some(timeline) = processor.timelines.get_mut(&partition) { timeline.put(wmb) }\<close>.\<close>

definition timeline_put :: "u16 \<Rightarrow> wmb \<Rightarrow> processor \<Rightarrow> processor option" where
  "timeline_put part w p =
     (case hm_get (proc_timelines p) part of
        None \<Rightarrow> Some p
      | Some t \<Rightarrow> map_option (\<lambda>t'. p\<lparr>proc_timelines := hm_insert part t' (proc_timelines p)\<rparr>)
                    (put w t))"

text \<open>The match on the vertex type, the same in the watcher and in the prepopulation.\<close>

definition put_wmb :: "vertex_type \<Rightarrow> u16 \<Rightarrow> wmb \<Rightarrow> processor \<Rightarrow> processor option" where
  "put_wmb vt replica w p =
     (case vt of
        ReduceUDF \<Rightarrow> if wmb_partition w \<noteq> replica then Some p else timeline_put replica w p
      | _ \<Rightarrow> timeline_put (wmb_partition w) w p)"

text \<open>
  Prepopulation reads every key of the store (none when listing them fails), skips keys whose
  value cannot be read and panics, \<open>None\<close>, on a value that is no watermark message.
\<close>

fun prepopulate_keys ::
    "(string \<Rightarrow> 's \<Rightarrow> 's \<times> (kv_error + bytes option)) \<Rightarrow> (bytes \<Rightarrow> string + proto_wmb) \<Rightarrow>
     u16 list \<Rightarrow> vertex_type \<Rightarrow> u16 \<Rightarrow> i64 \<Rightarrow> string list \<Rightarrow> 's \<Rightarrow> processors \<Rightarrow> processors option" where
  "prepopulate_keys get decode partitions vt replica now [] s ps = Some ps"
| "prepopulate_keys get decode partitions vt replica now (k # ks) s ps =
     (case get k s of
        (s', Inr (Some v)) \<Rightarrow>
          (case wmb_try_from decode v of
             Inl e \<Rightarrow> None
           | Inr w \<Rightarrow>
               let p = (case hm_get ps k of
                          Some p \<Rightarrow> p
                        | None \<Rightarrow> processor_new k Active partitions now)
               in Option.bind (put_wmb vt replica w p)
                    (\<lambda>p'. prepopulate_keys get decode partitions vt replica now ks s'
                            (hm_insert k p' ps)))
      | (s', _) \<Rightarrow> prepopulate_keys get decode partitions vt replica now ks s' ps)"

definition prepopulate_processors ::
    "('s \<Rightarrow> 's \<times> (kv_error + string list)) \<Rightarrow> (string \<Rightarrow> 's \<Rightarrow> 's \<times> (kv_error + bytes option)) \<Rightarrow>
     (bytes \<Rightarrow> string + proto_wmb) \<Rightarrow> u16 list \<Rightarrow> vertex_type \<Rightarrow> u16 \<Rightarrow> i64 \<Rightarrow> 's \<Rightarrow>
     processors option" where
  "prepopulate_processors keys get decode partitions vt replica now s =
     (case keys s of
        (s', Inr ks) \<Rightarrow> prepopulate_keys get decode partitions vt replica now ks s' []
      | (s', Inl e) \<Rightarrow> prepopulate_keys get decode partitions vt replica now [] s' [])"

text \<open>\<^verbatim>\<open>DEFAULT_PROCESSOR_REFRESH_RATE\<close>, in milliseconds.\<close>

definition refresh_rate_millis :: i64 where
  "refresh_rate_millis = 5000"

definition refresh_status :: "i64 \<Rightarrow> i64 \<Rightarrow> status" where
  "refresh_status current_time last_seen =
     (let diff = current_time - last_seen
      in if diff > 10 * refresh_rate_millis then Deleted
         else if diff > refresh_rate_millis then InActive
         else Active)"

text \<open>One tick of \<^verbatim>\<open>start_refreshing_processors\<close>.\<close>

definition refresh_processors :: "i64 \<Rightarrow> processors \<Rightarrow> processors" where
  "refresh_processors current_time ps =
     hm_map_values (\<lambda>p. set_status (refresh_status current_time (proc_last_seen_time p)) p) ps"

text \<open>The processor a put is for, created when it is new, with its last-seen time and status updated.\<close>

definition seen_processor :: "u16 list \<Rightarrow> kv_entry \<Rightarrow> processors \<Rightarrow> processor" where
  "seen_processor partitions kv ps =
     (let p = (case hm_get ps (kve_key kv) of
                 Some p \<Rightarrow> p
               | None \<Rightarrow> processor_new (kve_key kv) Active partitions (kve_created kv));
          p = (if kve_created kv > proc_last_seen_time p
               then update_last_seen_time (kve_created kv) p else p)
      in if \<not> is_active p \<and> \<not> is_deleted p then set_status Active p else p)"

text \<open>One iteration of \<^verbatim>\<open>start_ot_watcher\<close>; \<open>None\<close> is a panic of the task.\<close>

definition ot_watch ::
    "(bytes \<Rightarrow> string + proto_wmb) \<Rightarrow> u16 list \<Rightarrow> vertex_type \<Rightarrow> u16 \<Rightarrow> kv_entry \<Rightarrow> processors \<Rightarrow>
     processors option" where
  "ot_watch decode partitions vt replica kv ps =
     (case kve_operation kv of
        Put \<Rightarrow>
          (case wmb_try_from decode (kve_value kv) of
             Inl e \<Rightarrow> None
           | Inr w \<Rightarrow>
               map_option (\<lambda>p'. hm_insert (kve_key kv) p' ps)
                 (put_wmb vt replica w (seen_processor partitions kv ps)))
      | Delete \<Rightarrow>
          (case hm_get ps (kve_key kv) of
             Some p \<Rightarrow> Some (hm_insert (kve_key kv) (set_status Deleted p) ps)
           | None \<Rightarrow> Some ps)
      | Purge \<Rightarrow> Some (hm_map_values (set_status Deleted) ps))"

definition delete_processor :: "string \<Rightarrow> processors \<Rightarrow> processors" where
  "delete_processor name ps = hm_remove name ps"

section \<open>Executions\<close>

datatype pm_event = Watch kv_entry | Refresh i64 | Remove string

inductive pm_step ::
    "(bytes \<Rightarrow> string + proto_wmb) \<Rightarrow> u16 list \<Rightarrow> vertex_type \<Rightarrow> u16 \<Rightarrow>
     processors \<Rightarrow> pm_event \<Rightarrow> processors \<Rightarrow> bool"
  for decode partitions vt replica where
  watch: "ot_watch decode partitions vt replica kv ps = Some ps' \<Longrightarrow>
    pm_step decode partitions vt replica ps (Watch kv) ps'"
| refresh: "pm_step decode partitions vt replica ps (Refresh t) (refresh_processors t ps)"
| remove: "pm_step decode partitions vt replica ps (Remove n) (delete_processor n ps)"

inductive_cases pm_watchE: "pm_step decode partitions vt replica ps (Watch kv) ps'"
inductive_cases pm_refreshE: "pm_step decode partitions vt replica ps (Refresh t) ps'"
inductive_cases pm_removeE: "pm_step decode partitions vt replica ps (Remove n) ps'"

inductive pm_run ::
    "(bytes \<Rightarrow> string + proto_wmb) \<Rightarrow> u16 list \<Rightarrow> vertex_type \<Rightarrow> u16 \<Rightarrow>
     processors \<Rightarrow> pm_event list \<Rightarrow> processors \<Rightarrow> bool"
  for decode partitions vt replica where
  nil: "pm_run decode partitions vt replica ps [] ps"
| step: "pm_step decode partitions vt replica ps e ps1 \<Longrightarrow>
    pm_run decode partitions vt replica ps1 es ps2 \<Longrightarrow>
    pm_run decode partitions vt replica ps (e # es) ps2"

section \<open>Invariant\<close>

definition processor_inv :: "u16 list \<Rightarrow> string \<Rightarrow> processor \<Rightarrow> bool" where
  "processor_inv partitions name p \<longleftrightarrow> proc_name p = name \<and> hm_wf (proc_timelines p) \<and>
     dom (hm_get (proc_timelines p)) = set partitions \<and>
     (\<forall>q t. hm_get (proc_timelines p) q = Some t \<longrightarrow> timeline_inv t \<and> tl_capacity t = 10)"

definition pm_inv :: "u16 list \<Rightarrow> processors \<Rightarrow> bool" where
  "pm_inv partitions ps \<longleftrightarrow> hm_wf ps \<and>
     (\<forall>n p. hm_get ps n = Some p \<longrightarrow> processor_inv partitions n p)"

lemma hm_get_new_timelines:
  "hm_get (fold (\<lambda>p m. hm_insert p t m) qs m) q = (if q \<in> set qs then Some t else hm_get m q)"
  by (induction qs arbitrary: m) auto

lemma hm_wf_new_timelines: "hm_wf m \<Longrightarrow> hm_wf (fold (\<lambda>p m. hm_insert p t m) qs m)"
  by (induction qs arbitrary: m) auto

lemma processor_inv_new [preserves]:
  "processor_inv partitions n (processor_new n st partitions t)"
  by (auto simp: processor_inv_def processor_new_def hm_get_new_timelines hm_wf_new_timelines
      timeline_inv_new timeline_new_def split: if_splits)
    (auto simp: timeline_inv_new [of 10, unfolded timeline_new_def, simplified])

lemma processor_inv_set_status [simp, preserves]:
  "processor_inv qs n (set_status st p) \<longleftrightarrow> processor_inv qs n p"
  "processor_inv qs n (update_last_seen_time t p) \<longleftrightarrow> processor_inv qs n p"
  by (simp_all add: processor_inv_def wm_defs)

lemma timeline_put_total:
  assumes "processor_inv qs n p"
  shows "\<exists>p'. timeline_put q w p = Some p' \<and> processor_inv qs n p'"
proof (cases "hm_get (proc_timelines p) q")
  case None
  with assms show ?thesis by (simp add: timeline_put_def)
next
  case (Some t)
  with assms have t: "timeline_inv t" "tl_capacity t = 10" by (auto simp: processor_inv_def)
  from put_total [OF t(1)] obtain t' where t': "put w t = Some t'" by blast
  with t have "timeline_inv t'" "tl_capacity t' = 10"
    using timeline_inv_put put_capacity by auto
  moreover have "q \<in> set qs" using assms Some by (auto simp: processor_inv_def)
  ultimately show ?thesis
    using assms Some t' by (simp add: timeline_put_def processor_inv_def insert_absorb)
qed

lemma put_wmb_total:
  "processor_inv qs n p \<Longrightarrow> \<exists>p'. put_wmb vt replica w p = Some p' \<and> processor_inv qs n p'"
  using timeline_put_total [of qs n p] by (cases vt) (auto simp: put_wmb_def)

lemma pm_inv_Nil [preserves]: "pm_inv qs []"
  by (simp add: pm_inv_def)

lemma pm_inv_insert [preserves]:
  "pm_inv qs ps \<Longrightarrow> processor_inv qs n p \<Longrightarrow> pm_inv qs (hm_insert n p ps)"
  by (simp add: pm_inv_def)

lemma pm_inv_get: "pm_inv qs ps \<Longrightarrow> hm_get ps n = Some p \<Longrightarrow> processor_inv qs n p"
  by (simp add: pm_inv_def)

lemma pm_inv_map_values [preserves]:
  "pm_inv qs ps \<Longrightarrow> (\<And>n p. processor_inv qs n p \<Longrightarrow> processor_inv qs n (f p)) \<Longrightarrow>
   pm_inv qs (hm_map_values f ps)"
  by (auto simp: pm_inv_def)

lemma pm_inv_refresh [preserves]: "pm_inv qs ps \<Longrightarrow> pm_inv qs (refresh_processors t ps)"
  unfolding refresh_processors_def by (rule pm_inv_map_values) simp_all

lemma pm_inv_delete [preserves]: "pm_inv qs ps \<Longrightarrow> pm_inv qs (delete_processor n ps)"
  by (simp add: pm_inv_def delete_processor_def)


lemma processor_inv_seen:
  assumes "pm_inv qs ps"
  shows "processor_inv qs (kve_key kv) (seen_processor qs kv ps)"
  using pm_inv_get [OF assms, of "kve_key kv"] processor_inv_new
  by (auto simp: seen_processor_def Let_def split: option.splits)

lemma seen_processor_fields:
  "proc_last_seen_time (seen_processor qs kv ps) = (case hm_get ps (kve_key kv) of
     None \<Rightarrow> kve_created kv | Some p0 \<Rightarrow> max (proc_last_seen_time p0) (kve_created kv))"
  "proc_status (seen_processor qs kv ps) = (case hm_get ps (kve_key kv) of
     Some p0 \<Rightarrow> if proc_status p0 = Deleted then Deleted else Active | None \<Rightarrow> Active)"
  "proc_timelines (seen_processor qs kv ps) = proc_timelines (case hm_get ps (kve_key kv) of
     Some p \<Rightarrow> p | None \<Rightarrow> processor_new (kve_key kv) Active qs (kve_created kv))"
  using status.exhaust
  by (auto simp: seen_processor_def Let_def wm_defs processor_new_def split: option.splits)

text \<open>A watch entry panics only on a value that does not decode.\<close>

lemma ot_watch_total:
  assumes "pm_inv qs ps"
    and "kve_operation kv = Put \<Longrightarrow> \<exists>w. wmb_try_from decode (kve_value kv) = Inr w"
  shows "\<exists>ps'. ot_watch decode qs vt replica kv ps = Some ps' \<and> pm_inv qs ps'"
proof (cases "kve_operation kv")
  case Put
  then obtain w where w: "wmb_try_from decode (kve_value kv) = Inr w" using assms(2) by blast
  from put_wmb_total [OF processor_inv_seen [OF assms(1)]]
  obtain p' where "put_wmb vt replica w (seen_processor qs kv ps) = Some p'"
    "processor_inv qs (kve_key kv) p'" by blast
  with Put w assms(1) show ?thesis by (auto simp: ot_watch_def intro!: preserves)
next
  case Delete
  with assms(1) show ?thesis
    by (auto simp: ot_watch_def intro!: preserves dest: pm_inv_get split: option.splits)
next
  case Purge
  with assms(1) show ?thesis
    by (auto simp: ot_watch_def intro!: preserves)
qed

lemma ot_watch_decodes:
  "ot_watch decode qs vt replica kv ps = Some ps' \<Longrightarrow> kve_operation kv = Put \<Longrightarrow>
   \<exists>w. wmb_try_from decode (kve_value kv) = Inr w"
  by (auto simp: ot_watch_def split: sum.splits)

lemma pm_inv_step [preserves]:
  assumes "pm_inv qs ps" and "pm_step decode qs vt replica ps e ps'"
  shows "pm_inv qs ps'"
  using assms(2)
proof cases
  case (watch kv)
  with ot_watch_total [OF assms(1), of kv decode vt replica] ot_watch_decodes [OF watch(2)]
  show ?thesis by auto
qed (use assms(1) in \<open>auto intro: preserves\<close>)

lemma pm_inv_run:
  "pm_run decode qs vt replica ps es ps' \<Longrightarrow> pm_inv qs ps \<Longrightarrow> pm_inv qs ps'"
  by (induction rule: pm_run.induct) (auto intro: pm_inv_step)


section \<open>What the manager holds of each timeline\<close>

text \<open>
  The timeline of a processor and partition; a processor the manager has not seen counts as new.
  The messages a trace delivers to it are the decodable puts under its key for its partition,
  which a reduce vertex only takes for its own replica.
\<close>

definition timeline_of :: "string \<Rightarrow> u16 \<Rightarrow> processors \<Rightarrow> offset_timeline" where
  "timeline_of n q ps =
     (case Option.bind (hm_get ps n) (\<lambda>p. hm_get (proc_timelines p) q) of
        Some t \<Rightarrow> t | None \<Rightarrow> timeline_new 10)"

definition accepts :: "vertex_type \<Rightarrow> u16 \<Rightarrow> u16 \<Rightarrow> bool" where
  "accepts vt replica q \<longleftrightarrow> (vt = ReduceUDF \<longrightarrow> q = replica)"

definition delivered ::
    "(bytes \<Rightarrow> string + proto_wmb) \<Rightarrow> vertex_type \<Rightarrow> u16 \<Rightarrow> string \<Rightarrow> u16 \<Rightarrow> pm_event \<Rightarrow> wmb list" where
  "delivered decode vt replica n q e =
     (case e of
        Watch kv \<Rightarrow>
          if kve_operation kv = Put \<and> kve_key kv = n
          then (case wmb_try_from decode (kve_value kv) of
                  Inr w \<Rightarrow> if wmb_partition w = q \<and> accepts vt replica q then [w] else []
                | Inl _ \<Rightarrow> [])
          else []
      | _ \<Rightarrow> [])"

lemma timeline_put_get:
  assumes "timeline_put q w p = Some p'"
  shows "hm_get (proc_timelines p') r =
    (if r = q then Option.bind (hm_get (proc_timelines p) q) (put w) else hm_get (proc_timelines p) r)"
  using assms by (auto simp: timeline_put_def split: option.splits)

lemma put_wmb_get:
  assumes "put_wmb vt replica w p = Some p'"
  shows "hm_get (proc_timelines p') r =
    (if r = wmb_partition w \<and> accepts vt replica r
     then Option.bind (hm_get (proc_timelines p) r) (put w) else hm_get (proc_timelines p) r)"
  using assms timeline_put_get
  by (cases vt) (auto simp: put_wmb_def accepts_def split: if_splits)

lemma timeline_of_inv: "pm_inv qs ps \<Longrightarrow> timeline_inv (timeline_of n q ps)"
  using pm_inv_get [of qs ps n]
  by (auto simp: timeline_of_def processor_inv_def timeline_inv_new split: option.splits bind_splits)

lemma timeline_of_map_values:
  "(\<And>p. proc_timelines (f p) = proc_timelines p) \<Longrightarrow>
   timeline_of n q (hm_map_values f ps) = timeline_of n q ps"
  by (cases "hm_get ps n") (simp_all add: timeline_of_def)

lemma timeline_of_step:
  assumes "pm_inv qs ps" and "q \<in> set qs" and "e \<noteq> Remove n"
    and "pm_step decode qs vt replica ps e ps'"
  shows "put_all (delivered decode vt replica n q e) (timeline_of n q ps) = Some (timeline_of n q ps')"
  using assms(4)
proof cases
  case (watch kv)
  show ?thesis
  proof (cases "kve_operation kv")
    case Put
    let ?p = "seen_processor qs kv ps"
    from Put watch(2) obtain w p' where w: "wmb_try_from decode (kve_value kv) = Inr w"
      and p': "put_wmb vt replica w ?p = Some p'" and ps': "ps' = hm_insert (kve_key kv) p' ps"
      by (auto simp: ot_watch_def split: sum.splits)
    show ?thesis
    proof (cases "kve_key kv = n")
      case True
      have "hm_get (proc_timelines ?p) q = Some (timeline_of n q ps)"
        using assms(1,2) True pm_inv_get [OF assms(1), of n]
        by (auto simp: seen_processor_fields timeline_of_def processor_new_def hm_get_new_timelines processor_inv_def
            split: option.splits)
      moreover obtain t' where "put w (timeline_of n q ps) = Some t'"
        using put_total [OF timeline_of_inv [OF assms(1)]] by blast
      ultimately show ?thesis
        using True Put w put_wmb_get [OF p', of q]
        by (auto simp: watch delivered_def ps' timeline_of_def)
    next
      case False
      then show ?thesis by (simp add: watch delivered_def ps' timeline_of_def)
    qed
  next
    case Delete
    then show ?thesis using watch
      by (auto simp: ot_watch_def delivered_def timeline_of_def wm_defs
          split: option.splits if_splits bind_splits)
  next
    case Purge
    then have "ps' = hm_map_values (set_status Deleted) ps" using watch(2) by (simp add: ot_watch_def)
    then show ?thesis
      using Purge watch(1) by (simp add: delivered_def timeline_of_map_values wm_defs)
  qed
next
  case (refresh t)
  then show ?thesis
    by (simp add: delivered_def refresh_processors_def timeline_of_map_values wm_defs)
next
  case (remove m)
  with assms(3) show ?thesis by (simp add: delivered_def delete_processor_def timeline_of_def)
qed

lemma put_all_append: "put_all (ms @ ns) t = Option.bind (put_all ms t) (put_all ns)"
  by (induction ms arbitrary: t) (auto split: bind_splits)

lemma timeline_of_run:
  assumes "pm_run decode qs vt replica ps es ps'" and "pm_inv qs ps" and "q \<in> set qs"
    and "Remove n \<notin> set es"
  shows "put_all (concat (map (delivered decode vt replica n q) es)) (timeline_of n q ps) =
    Some (timeline_of n q ps')"
  using assms
proof (induction rule: pm_run.induct)
  case (step ps e ps1 es ps2)
  then have "put_all (delivered decode vt replica n q e) (timeline_of n q ps) =
      Some (timeline_of n q ps1)"
    by (intro timeline_of_step [of qs]) auto
  with step pm_inv_step show ?case by (auto simp: put_all_append)
qed simp

section \<open>Prepopulation\<close>

lemma pm_inv_prepopulate_keys:
  assumes "pm_inv qs ps" and "prepopulate_keys get decode qs vt replica now ks s ps = Some ps'"
  shows "pm_inv qs ps'"
  using assms
proof (induction ks arbitrary: s ps)
  case (Cons k ks)
  obtain s1 r where r: "get k s = (s1, r)" by fastforce
  show ?case
  proof (cases "\<exists>v. r = Inr (Some v)")
    case True
    then obtain v where v: "r = Inr (Some v)" by blast
    define p where "p = (case hm_get ps k of Some p \<Rightarrow> p | None \<Rightarrow> processor_new k Active qs now)"
    have p: "processor_inv qs k p"
      using pm_inv_get [OF Cons.prems(1), of k] processor_inv_new
      by (auto simp: p_def split: option.splits)
    from Cons.prems(2) r v obtain w p' where w: "put_wmb vt replica w p = Some p'"
      and rest: "prepopulate_keys get decode qs vt replica now ks s1 (hm_insert k p' ps) = Some ps'"
      by (auto simp: p_def [symmetric] Let_def bind_eq_Some_conv split: sum.splits)
    from put_wmb_total [OF p, of vt replica w] w have "processor_inv qs k p'" by simp
    with Cons.IH rest Cons.prems(1) show ?thesis by (blast intro: preserves)
  next
    case False
    with Cons.prems(2) r have "prepopulate_keys get decode qs vt replica now ks s1 ps = Some ps'"
      by (auto split: sum.splits option.splits)
    with Cons show ?thesis by blast
  qed
qed simp

lemma pm_inv_prepopulate:
  "prepopulate_processors keys get decode qs vt replica now s = Some ps \<Longrightarrow> pm_inv qs ps"
  by (auto simp: prepopulate_processors_def intro: pm_inv_prepopulate_keys pm_inv_Nil
      split: prod.splits sum.splits)

text \<open>Over any store that keeps its contract, prepopulation holds what the store holds.\<close>

context kv_store
begin

lemma prepopulate_keys_view:
  assumes "wf s" and "distinct ks" and "\<forall>k \<in> set ks. hm_get ps k = None"
    and "prepopulate_keys get decode qs vt replica now ks s ps = Some ps'"
    and "hm_get ps' n = Some p"
  shows "hm_get ps n = Some p \<or> (\<exists>v w. lookup s n = Some v \<and> wmb_try_from decode v = Inr w \<and>
    put_wmb vt replica w (processor_new n Active qs now) = Some p)"
  using assms(1-4)
proof (induction ks arbitrary: s ps)
  case Nil
  with assms(5) show ?case by simp
next
  case (Cons k ks)
  obtain s1 r where r: "get k s = (s1, r)" by fastforce
  note frame = get_frame [OF Cons.prems(1) r]
  show ?case
  proof (cases "\<exists>v. r = Inr (Some v)")
    case True
    then obtain v where v: "r = Inr (Some v)" by blast
    with r get_law [OF Cons.prems(1)] have here: "lookup s k = Some v" by simp
    from Cons.prems(3,4) r v obtain w p' where w: "wmb_try_from decode v = Inr w"
      "put_wmb vt replica w (processor_new k Active qs now) = Some p'"
      and rest: "prepopulate_keys get decode qs vt replica now ks s1 (hm_insert k p' ps) = Some ps'"
      by (auto simp: Let_def bind_eq_Some_conv split: sum.splits)
    from Cons.prems(2,3) have "distinct ks" "\<forall>x \<in> set ks. hm_get (hm_insert k p' ps) x = None" by auto
    from Cons.IH [OF _ this rest] frame w here show ?thesis by (auto split: if_splits)
  next
    case False
    with Cons.prems(4) r have "prepopulate_keys get decode qs vt replica now ks s1 ps = Some ps'"
      by (auto split: sum.splits option.splits)
    with Cons.IH [of s1 ps] Cons.prems(2,3) frame show ?thesis by simp
  qed
qed

lemma prepopulate_view:
  assumes "wf s" and "prepopulate_processors keys get decode qs vt replica now s = Some ps"
    and "hm_get ps n = Some p"
  shows "\<exists>v w. lookup s n = Some v \<and> wmb_try_from decode v = Inr w \<and>
    put_wmb vt replica w (processor_new n Active qs now) = Some p"
proof -
  obtain s1 r where r: "keys s = (s1, r)" by fastforce
  note frame = keys_frame [OF assms(1) r]
  show ?thesis
  proof (cases r)
    case (Inl e)
    with r assms(2,3) show ?thesis by (simp add: prepopulate_processors_def)
  next
    case (Inr ks)
    with r keys_law [OF assms(1)] have "distinct ks" by simp
    with prepopulate_keys_view [of s1 ks "[]" decode qs vt replica now ps n p] frame Inr r assms(2,3)
    show ?thesis by (simp add: prepopulate_processors_def)
  qed
qed

end

lemma put_wmb_keeps:
  "put_wmb vt replica w p = Some p' \<Longrightarrow>
   proc_status p' = proc_status p \<and> proc_last_seen_time p' = proc_last_seen_time p"
  by (auto simp: put_wmb_def timeline_put_def split: vertex_type.splits if_splits option.splits)

section \<open>A store with one processor\<close>

text \<open>Processor \<^verbatim>\<open>p0\<close> has published offset 3 and watermark 10 for partition 0, in the byte codec.\<close>

definition example_store :: simple_kv where
  "example_store = fst (kv_put 5 ''p0'' [0, 3, 10, 0] simple_kv_new)"

definition example_put :: kv_entry where
  "example_put = \<lparr>kve_key = ''p0'', kve_value = [0, 7, 20, 0], kve_operation = Put, kve_created = 9\<rparr>"

definition example_processors :: processors where
  "example_processors =
     (case prepopulate_processors kv_keys kv_get byte_decode [0] MapUDF 0 100 example_store of
        Some ps \<Rightarrow> ps | None \<Rightarrow> [])"

lemma example_store_inv: "simple_kv_inv example_store"
proof -
  have "simple_kv_inv simple_kv_new"
    by (simp add: simple_kv_inv_def simple_kv_new_def simple_kv_with_config_def kv_inv_new)
  moreover obtain s r where "kv_put 5 ''p0'' [0, 3, 10, 0] simple_kv_new = (s, r)" by fastforce
  ultimately show ?thesis using mem.put_law [of simple_kv_new] by (auto simp: example_store_def)
qed

lemma wmb_try_from_bytes:
  "wmb_try_from byte_decode [a, b, c, d] = Inr \<lparr>wmb_idle = (a = 1), wmb_offset = uint b,
     wmb_watermark = uint c, wmb_partition = ucast (ucast d :: 32 word), wmb_processor_count = None\<rparr>"
  by (simp add: wmb_try_from_def byte_decode_def)

lemma put_timeline_new:
  assumes "-1 < wmb_offset w" and "-1 \<le> wmb_watermark w"
  shows "put w (timeline_new 10) =
    Some \<lparr>tl_watermarks = w # replicate 9 wmb_default, tl_capacity = 10\<rparr>"
proof -
  have ten: "replicate 10 wmb_default = wmb_default # replicate 9 wmb_default"
    by (simp add: eval_nat_numeral)
  have "butlast (wmb_default # replicate 9 wmb_default) = replicate 9 wmb_default"
    by (simp add: eval_nat_numeral)
  moreover have "wmb_offset wmb_default = -1" "wmb_watermark wmb_default = -1"
    by (simp_all add: wmb_default_def)
  ultimately show ?thesis
    using assms by (auto simp: put_def timeline_new_def ten cmp_def)
qed

lemma example_prepopulate:
  "prepopulate_processors kv_keys kv_get byte_decode [0] MapUDF 0 100 example_store =
     Some [(''p0'', \<lparr>proc_name = ''p0'', proc_status = Active,
       proc_timelines = [(0, \<lparr>tl_watermarks =
         wmb_default\<lparr>wmb_offset := 3, wmb_watermark := 10\<rparr> # replicate 9 wmb_default,
         tl_capacity = 10\<rparr>)], proc_last_seen_time = 100\<rparr>)]"
  by (simp add: prepopulate_processors_def example_store_def kv_put_def kv_keys_def kv_get_def
      simple_kv_new_def simple_kv_with_config_def kv_injector_default_def decrement_counter_def
      record_history_def kv_state_new_def Let_def wmb_try_from_bytes processor_new_def put_wmb_def
      timeline_put_def put_timeline_new wmb_default_def)

lemma example_processors_eq:
  "prepopulate_processors kv_keys kv_get byte_decode [0] MapUDF 0 100 example_store =
     Some example_processors"
  by (simp add: example_processors_def example_prepopulate)

section \<open>Properties\<close>

text \<open>
  At start-up the manager holds a processor only for keys of the store whose value it could
  read; each is active, last seen now, and its timeline for a partition of the bucket has exactly
  the stored message put into an empty one, when that message is for the partition (and, on a
  reduce vertex, for this replica).
\<close>

theorem prepopulate_from_store:
  assumes "simple_kv_inv s"
    and "prepopulate_processors kv_keys kv_get decode qs vt replica now s = Some ps"
    and "hm_get ps n = Some p" and "q \<in> set qs"
  shows "\<exists>v w. simple_kv_lookup s n = Some v \<and> wmb_try_from decode v = Inr w \<and>
    proc_status p = Active \<and> proc_last_seen_time p = now \<and>
    hm_get (proc_timelines p) q =
      (if wmb_partition w = q \<and> accepts vt replica q then put w (timeline_new 10)
       else Some (timeline_new 10))"
proof -
  from mem.prepopulate_view [OF assms(1-3)] obtain v w where v: "simple_kv_lookup s n = Some v"
    "wmb_try_from decode v = Inr w" "put_wmb vt replica w (processor_new n Active qs now) = Some p"
    by blast
  with put_wmb_keeps [OF v(3)] put_wmb_get [OF v(3), of q] assms(4) show ?thesis
    by (auto simp: processor_new_def hm_get_new_timelines)
qed

theorem prepopulate_from_store_witness:
  "\<exists>v w. simple_kv_lookup example_store ''p0'' = Some v \<and> wmb_try_from byte_decode v = Inr w \<and>
    (\<exists>p. hm_get example_processors ''p0'' = Some p \<and>
      proc_status p = Active \<and> proc_last_seen_time p = 100 \<and>
      hm_get (proc_timelines p) 0 =
        (if wmb_partition w = 0 \<and> accepts MapUDF 0 0 then put w (timeline_new 10)
         else Some (timeline_new 10)))"
proof -
  obtain p where p: "hm_get example_processors ''p0'' = Some p"
    by (simp add: example_processors_def example_prepopulate)
  show ?thesis
    using prepopulate_from_store [OF example_store_inv example_processors_eq p, of 0] p by auto
qed

text \<open>
  C27. Whatever the interleaving of watch entries, refresh ticks and removals after start-up,
  every processor keeps one timeline of capacity 10 per partition of the bucket, each at its
  capacity and sorted, and the map has no duplicate names.
\<close>

theorem manager_invariant:
  assumes "prepopulate_processors keys get decode qs vt replica now s = Some ps"
    and "pm_run decode qs vt replica ps es ps'"
  shows "pm_inv qs ps'"
  by (rule pm_inv_run [OF assms(2) pm_inv_prepopulate [OF assms(1)]])

theorem manager_invariant_witness:
  "pm_run byte_decode [0] MapUDF 0 example_processors [Refresh 200000, Remove ''p0'']
     (delete_processor ''p0'' (refresh_processors 200000 example_processors)) \<and>
   pm_inv [0] (delete_processor ''p0'' (refresh_processors 200000 example_processors))"
proof -
  have run: "pm_run byte_decode [0] MapUDF 0 example_processors [Refresh 200000, Remove ''p0'']
     (delete_processor ''p0'' (refresh_processors 200000 example_processors))"
    by (rule pm_run.step [OF pm_step.refresh], rule pm_run.step [OF pm_step.remove], rule pm_run.nil)
  from run manager_invariant [OF example_processors_eq run] show ?thesis by blast
qed

text \<open>
  C9. Refinement: however the watcher, the refresher and removals of other processors
  interleave, the timeline of a processor and partition is its timeline at start-up with the
  messages delivered for them put in, in the order of delivery and nothing else.
\<close>

theorem manager_timelines:
  assumes "prepopulate_processors keys get decode qs vt replica now s = Some ps"
    and "pm_run decode qs vt replica ps es ps'" and "q \<in> set qs" and "Remove n \<notin> set es"
  shows "put_all (concat (map (delivered decode vt replica n q) es)) (timeline_of n q ps) =
    Some (timeline_of n q ps')"
  by (rule timeline_of_run [OF assms(2) pm_inv_prepopulate [OF assms(1)] assms(3,4)])

theorem manager_timelines_witness:
  "\<exists>ps'. pm_run byte_decode [0] MapUDF 0 example_processors [Refresh 200, Watch example_put] ps' \<and>
     put_all [wmb_default\<lparr>wmb_offset := 7, wmb_watermark := 20\<rparr>]
       (timeline_of ''p0'' 0 example_processors) = Some (timeline_of ''p0'' 0 ps')"
proof -
  have inv: "pm_inv [0] (refresh_processors 200 example_processors)"
    using pm_inv_prepopulate [OF example_processors_eq] by (rule pm_inv_refresh)
  from ot_watch_total [OF inv, of example_put byte_decode MapUDF 0] obtain ps' where
    "ot_watch byte_decode [0] MapUDF 0 example_put (refresh_processors 200 example_processors) = Some ps'"
    by (auto simp: example_put_def wmb_try_from_bytes)
  then have run: "pm_run byte_decode [0] MapUDF 0 example_processors [Refresh 200, Watch example_put] ps'"
    by (rule pm_run.step [OF pm_step.refresh pm_run.step [OF pm_step.watch pm_run.nil]])
  have "concat (map (delivered byte_decode MapUDF 0 ''p0'' 0) [Refresh 200, Watch example_put]) =
      [wmb_default\<lparr>wmb_offset := 7, wmb_watermark := 20\<rparr>]"
    by (simp add: delivered_def example_put_def wmb_try_from_bytes accepts_def wmb_default_def)
  with run manager_timelines [OF example_processors_eq run, of 0 "''p0''"] show ?thesis by auto
qed

text \<open>
  The watcher does not crash on a message that decodes, and it treats a put as a sign of
  life: the processor then exists, is last seen at the later of its last time and the entry's
  creation, and is active unless it was marked deleted, which a put does not undo.
\<close>

theorem ot_watch_put_liveness:
  assumes "pm_inv qs ps" and "kve_operation kv = Put"
    and "wmb_try_from decode (kve_value kv) = Inr w"
  shows "\<exists>ps' p. ot_watch decode qs vt replica kv ps = Some ps' \<and>
    hm_get ps' (kve_key kv) = Some p \<and>
    proc_last_seen_time p = (case hm_get ps (kve_key kv) of
        None \<Rightarrow> kve_created kv | Some p0 \<Rightarrow> max (proc_last_seen_time p0) (kve_created kv)) \<and>
    proc_status p = (case hm_get ps (kve_key kv) of
        Some p0 \<Rightarrow> if proc_status p0 = Deleted then Deleted else Active | None \<Rightarrow> Active)"
proof -
  from ot_watch_total [OF assms(1), of kv decode vt replica] assms(2,3)
  obtain ps' where ps': "ot_watch decode qs vt replica kv ps = Some ps'" by blast
  with assms(2,3) obtain p' where "put_wmb vt replica w (seen_processor qs kv ps) = Some p'"
    "ps' = hm_insert (kve_key kv) p' ps"
    by (auto simp: ot_watch_def)
  with put_wmb_keeps [OF this(1)] ps' show ?thesis
    by (simp add: seen_processor_fields)
qed

theorem ot_watch_put_liveness_witness:
  "\<exists>ps' p. ot_watch byte_decode [0] MapUDF 0 example_put [] = Some ps' \<and>
     hm_get ps' ''p0'' = Some p \<and> proc_last_seen_time p = 9 \<and> proc_status p = Active"
proof -
  have "\<exists>w. wmb_try_from byte_decode (kve_value example_put) = Inr w"
    by (simp add: example_put_def wmb_try_from_bytes)
  then obtain w where w: "wmb_try_from byte_decode (kve_value example_put) = Inr w" by blast
  have op: "kve_operation example_put = Put" by (simp add: example_put_def)
  from ot_watch_put_liveness [OF pm_inv_Nil op w, of "[0]" MapUDF 0] show ?thesis
    by (simp add: example_put_def)
qed

text \<open>
  A refresh tick sets every processor's status from its last-seen time alone: deleted when it
  is more than ten refresh intervals old, inactive when more than one, active otherwise, whatever
  the status was (a processor marked deleted by the watcher included), and touches nothing else.
\<close>

theorem refresh_classifies:
  assumes "hm_get ps n = Some p"
  shows "\<exists>p'. hm_get (refresh_processors t ps) n = Some p' \<and>
    (proc_status p' = Deleted \<longleftrightarrow> t - proc_last_seen_time p > 50000) \<and>
    (proc_status p' = InActive \<longleftrightarrow> 5000 < t - proc_last_seen_time p \<and> t - proc_last_seen_time p \<le> 50000) \<and>
    (proc_status p' = Active \<longleftrightarrow> t - proc_last_seen_time p \<le> 5000) \<and>
    proc_timelines p' = proc_timelines p \<and> proc_last_seen_time p' = proc_last_seen_time p"
  using assms
  by (auto simp: refresh_processors_def refresh_status_def refresh_rate_millis_def wm_defs Let_def)

theorem refresh_classifies_witness:
  "\<exists>p p'. hm_get example_processors ''p0'' = Some p \<and> proc_last_seen_time p = 100 \<and>
     hm_get (refresh_processors 200000 example_processors) ''p0'' = Some p' \<and>
     proc_status p' = Deleted"
proof -
  obtain p where p: "hm_get example_processors ''p0'' = Some p" "proc_last_seen_time p = 100"
    by (simp add: example_processors_def example_prepopulate)
  from refresh_classifies [OF p(1), of 200000] p show ?thesis by auto
qed

end
