(* ===== verification/WmPublisher.thy ===== *)
theory WmPublisher
  imports Timeline KVStore
begin

text \<open>
  The watermark publisher of the outgoing edges
  (\<^verbatim>\<open>numaflow-core/src/watermark/isb/wm_publisher.rs\<close>): it keeps the best offset and watermark per
  downstream vertex and partition and writes them to the vertex's offset-timeline store when the
  configured delay has passed. An \<^verbatim>\<open>Instant\<close> is a number of nanoseconds of the monotone clock,
  whose difference saturates at zero; the store's \<open>put\<close> and the protobuf encoder are parameters.
\<close>

section \<open>Configuration\<close>

record stream =
  stream_name :: string
  stream_vertex :: string
  stream_partition :: u16

record bucket_config =
  bc_vertex :: string
  bc_partitions :: "u16 list"
  bc_ot_bucket :: string
  bc_delay :: "duration option"

section \<open>The last published state\<close>

record last_published =
  lp_offset :: i64
  lp_watermark :: i64
  lp_last_published_time :: nat
  lp_delay :: "duration option"

definition last_published_default :: "nat \<Rightarrow> last_published" where
  "last_published_default now =
     \<lparr>lp_offset = -1, lp_watermark = -1, lp_last_published_time = now, lp_delay = None\<rparr>"

definition delay_crossed :: "nat \<Rightarrow> last_published \<Rightarrow> bool" where
  "delay_crossed now st =
     (case lp_delay st of
        Some delay \<Rightarrow> now - lp_last_published_time st \<ge> delay
      | None \<Rightarrow> True)"

definition lp_update :: "i64 \<Rightarrow> i64 \<Rightarrow> last_published \<Rightarrow> last_published \<times> i64 \<times> i64 \<times> bool" where
  "lp_update offset watermark st =
     (if offset > lp_offset st then
        let regressed = (watermark \<noteq> -1 \<and> lp_watermark st > watermark);
            st = st\<lparr>lp_offset := offset, lp_watermark := max (lp_watermark st) watermark\<rparr>
        in (st, lp_offset st, lp_watermark st, regressed)
      else
        let st = st\<lparr>lp_watermark := max (lp_watermark st) watermark\<rparr>
        in (st, lp_offset st, lp_watermark st, False))"

definition mark_published :: "nat \<Rightarrow> last_published \<Rightarrow> last_published" where
  "mark_published now st = st\<lparr>lp_last_published_time := now\<rparr>"

section \<open>The publisher\<close>

record 's isb_publisher =
  pub_processor_name :: string
  pub_last_published_wm :: "(string, (u16, last_published) hashmap) hashmap"
  pub_ot_stores :: "(string, 's) hashmap"
  pub_is_source :: bool

definition bucket_state :: "nat \<Rightarrow> bucket_config \<Rightarrow> (u16, last_published) hashmap" where
  "bucket_state now config =
     fold (\<lambda>p m. hm_insert p ((last_published_default now)\<lparr>lp_delay := bc_delay config\<rparr>) m)
       (bc_partitions config) []"

definition isb_publisher_new ::
    "nat \<Rightarrow> string \<Rightarrow> (string, 's) hashmap \<Rightarrow> bucket_config list \<Rightarrow> bool \<Rightarrow> 's isb_publisher" where
  "isb_publisher_new now name ot_stores configs is_source =
     \<lparr>pub_processor_name = name,
      pub_last_published_wm =
        fold (\<lambda>config m. hm_insert (bc_vertex config) (bucket_state now config) m) configs [],
      pub_ot_stores = ot_stores, pub_is_source = is_source\<rparr>"

text \<open>
  The outcome is the publisher, the message handed to the store (none when the delay has not
  passed) and whether a regression was logged; \<open>None\<close> is a panic: an unknown vertex or partition,
  or a message the encoder refuses. A failed write to the store is ignored.
\<close>

definition publish_watermark_with_processor_count ::
    "(i64 \<Rightarrow> string \<Rightarrow> bytes \<Rightarrow> 's \<Rightarrow> 's \<times> (kv_error + kv_history_entry option)) \<Rightarrow>
     (proto_wmb \<Rightarrow> string + bytes) \<Rightarrow> nat \<Rightarrow> i64 \<Rightarrow> stream \<Rightarrow> i64 \<Rightarrow> i64 \<Rightarrow> bool \<Rightarrow> u32 option \<Rightarrow>
     's isb_publisher \<Rightarrow> ('s isb_publisher \<times> wmb option \<times> bool) option" where
  "publish_watermark_with_processor_count kv encode now created stream offset watermark idle
       processor_count pub =
     (case hm_get (pub_last_published_wm pub) (stream_vertex stream) of
        None \<Rightarrow> None
      | Some parts \<Rightarrow>
     (case hm_get parts (stream_partition stream) of
        None \<Rightarrow> None
      | Some last_state \<Rightarrow>
          let (st, publish_offset, publish_watermark, regressed) = lp_update offset watermark last_state;
              save = (\<lambda>st pub. pub\<lparr>pub_last_published_wm :=
                 hm_insert (stream_vertex stream) (hm_insert (stream_partition stream) st parts)
                   (pub_last_published_wm pub)\<rparr>);
              warned = (regressed \<and> \<not> pub_is_source pub)
          in if \<not> delay_crossed now st then Some (save st pub, None, warned)
             else
               (case hm_get (pub_ot_stores pub) (stream_vertex stream) of
                  None \<Rightarrow> None
                | Some ot_store \<Rightarrow>
                    let w = \<lparr>wmb_idle = idle, wmb_offset = publish_offset,
                       wmb_watermark = publish_watermark, wmb_partition = stream_partition stream,
                       wmb_processor_count = processor_count\<rparr>
                    in (case wmb_to_bytes encode w of
                          Inl e \<Rightarrow> None
                        | Inr bs \<Rightarrow>
                            let (ot_store', r) = kv created (pub_processor_name pub) bs ot_store
                            in Some (save (mark_published now st)
                                 (pub\<lparr>pub_ot_stores :=
                                    hm_insert (stream_vertex stream) ot_store' (pub_ot_stores pub)\<rparr>),
                               Some w, warned)))))"

definition publish_watermark ::
    "(i64 \<Rightarrow> string \<Rightarrow> bytes \<Rightarrow> 's \<Rightarrow> 's \<times> (kv_error + kv_history_entry option)) \<Rightarrow>
     (proto_wmb \<Rightarrow> string + bytes) \<Rightarrow> nat \<Rightarrow> i64 \<Rightarrow> stream \<Rightarrow> i64 \<Rightarrow> i64 \<Rightarrow> bool \<Rightarrow>
     's isb_publisher \<Rightarrow> ('s isb_publisher \<times> wmb option \<times> bool) option" where
  "publish_watermark kv encode now created stream offset watermark idle pub =
     publish_watermark_with_processor_count kv encode now created stream offset watermark idle None pub"

section \<open>Runs\<close>

record publish_call =
  pc_now :: nat
  pc_created :: i64
  pc_stream :: stream
  pc_offset :: i64
  pc_watermark :: i64
  pc_idle :: bool
  pc_processor_count :: "u32 option"

type_synonym publish_log = "(nat \<times> string \<times> wmb) list"

abbreviation call_log :: "publish_call \<Rightarrow> wmb option \<Rightarrow> publish_log" where
  "call_log c w \<equiv> (case w of None \<Rightarrow> [] | Some w \<Rightarrow> [(pc_now c, stream_vertex (pc_stream c), w)])"

fun publish_run ::
    "(i64 \<Rightarrow> string \<Rightarrow> bytes \<Rightarrow> 's \<Rightarrow> 's \<times> (kv_error + kv_history_entry option)) \<Rightarrow>
     (proto_wmb \<Rightarrow> string + bytes) \<Rightarrow> publish_call list \<Rightarrow> 's isb_publisher \<Rightarrow>
     ('s isb_publisher \<times> publish_log) option" where
  "publish_run kv encode [] pub = Some (pub, [])"
| "publish_run kv encode (c # cs) pub =
     (case publish_watermark_with_processor_count kv encode (pc_now c) (pc_created c) (pc_stream c)
             (pc_offset c) (pc_watermark c) (pc_idle c) (pc_processor_count c) pub of
        None \<Rightarrow> None
      | Some (pub', w, _) \<Rightarrow>
          map_option (\<lambda>(pub'', log).
              (pub'', call_log c w @ log))
            (publish_run kv encode cs pub'))"

text \<open>The state kept for a vertex and partition, and what a log holds for them.\<close>

definition state_of :: "'s isb_publisher \<Rightarrow> string \<Rightarrow> u16 \<Rightarrow> last_published option" where
  "state_of pub v q = Option.bind (hm_get (pub_last_published_wm pub) v) (\<lambda>m. hm_get m q)"

definition log_for :: "string \<Rightarrow> u16 \<Rightarrow> publish_log \<Rightarrow> (nat \<times> wmb) list" where
  "log_for v q log = [(t, w). (t, u, w) \<leftarrow> log, u = v \<and> wmb_partition w = q]"

section \<open>One publish\<close>

lemma lp_update_fields:
  assumes "lp_update offset watermark st = (st', bo, bw, regressed)"
  shows "lp_offset st' = max (lp_offset st) offset" "lp_watermark st' = max (lp_watermark st) watermark"
    "bo = lp_offset st'" "bw = lp_watermark st'" "lp_delay st' = lp_delay st"
    "lp_last_published_time st' = lp_last_published_time st"
  using assms by (auto simp: lp_update_def Let_def split: if_splits)

lemma publish_cases:
  assumes "publish_watermark_with_processor_count kv encode now created s offset watermark idle
      pcnt pub = Some (pub', w, r)"
  obtains st st' bo bw rg where "state_of pub (stream_vertex s) (stream_partition s) = Some st"
    and "lp_update offset watermark st = (st', bo, bw, rg)"
    and "w = (if delay_crossed now st' then Some \<lparr>wmb_idle = idle, wmb_offset = bo,
      wmb_watermark = bw, wmb_partition = stream_partition s, wmb_processor_count = pcnt\<rparr> else None)"
    and "\<And>v q. state_of pub' v q = (if v = stream_vertex s \<and> q = stream_partition s
      then Some (if delay_crossed now st' then mark_published now st' else st') else state_of pub v q)"
proof -
  from assms obtain parts st where
    parts: "hm_get (pub_last_published_wm pub) (stream_vertex s) = Some parts"
    and st: "hm_get parts (stream_partition s) = Some st"
    by (auto simp: publish_watermark_with_processor_count_def split: option.splits)
  obtain st' bo bw rg where upd: "lp_update offset watermark st = (st', bo, bw, rg)"
    by (cases "lp_update offset watermark st")
  have saved: "state_of (p\<lparr>pub_last_published_wm := hm_insert (stream_vertex s)
      (hm_insert (stream_partition s) x parts) (pub_last_published_wm pub)\<rparr>) v q =
    (if v = stream_vertex s \<and> q = stream_partition s then Some x else state_of pub v q)"
    for p :: "'a isb_publisher" and x v q
    using parts by (simp add: state_of_def)
  show thesis
  proof (rule that [OF _ upd])
    show "state_of pub (stream_vertex s) (stream_partition s) = Some st"
      by (simp add: state_of_def parts st)
  qed (use assms parts st upd saved in
      \<open>auto simp: publish_watermark_with_processor_count_def Let_def
         split: option.splits prod.splits if_splits sum.splits\<close>)
qed

section \<open>Runs keep the best values\<close>

lemma log_for_append: "log_for v q (l @ m) = log_for v q l @ log_for v q m"
  by (simp add: log_for_def)

lemma publish_run_Cons:
  assumes "publish_run kv encode (c # cs) pub = Some (pub', log)"
  obtains pub1 w r log1 where "publish_watermark_with_processor_count kv encode (pc_now c)
      (pc_created c) (pc_stream c) (pc_offset c) (pc_watermark c) (pc_idle c)
      (pc_processor_count c) pub = Some (pub1, w, r)"
    and "publish_run kv encode cs pub1 = Some (pub', log1)"
    and "log = call_log c w @ log1"
  using assms by (auto split: option.splits)

text \<open>
  Along a run, the state of a vertex and partition holds the best offset and watermark seen, and
  each message written carries the best values up to the call that wrote it.
\<close>

definition is_call_for :: "string \<Rightarrow> u16 \<Rightarrow> publish_call \<Rightarrow> bool" where
  "is_call_for v q c \<longleftrightarrow> stream_vertex (pc_stream c) = v \<and> stream_partition (pc_stream c) = q"

definition best_from :: "(publish_call \<Rightarrow> i64) \<Rightarrow> string \<Rightarrow> u16 \<Rightarrow> publish_call list \<Rightarrow> i64 \<Rightarrow> i64" where
  "best_from f v q cs m = fold (\<lambda>c m. if is_call_for v q c then max m (f c) else m) cs m"

lemma best_from_simps [simp]:
  "best_from f v q [] m = m"
  "best_from f v q (c # cs) m = best_from f v q cs (if is_call_for v q c then max m (f c) else m)"
  by (simp_all add: best_from_def)

lemma best_from_ge: "m \<le> best_from f v q cs m"
proof (induction cs arbitrary: m)
  case (Cons c cs)
  have "m \<le> (if is_call_for v q c then max m (f c) else m)" by simp
  also have "\<dots> \<le> best_from f v q (c # cs) m" using Cons.IH by simp
  finally show ?case .
qed simp

lemma best_from_append: "best_from f v q (cs @ ds) m = best_from f v q ds (best_from f v q cs m)"
  by (simp add: best_from_def)

lemma Max_insert_max:
  "finite S \<Longrightarrow> Max (insert (max a b) S) = Max (insert a (insert (b::'a::linorder) S))"
  by (cases "S = {}") (simp_all add: max.assoc)

lemma best_from_Max:
  "best_from f v q cs m = Max (insert m (f ` {c \<in> set cs. is_call_for v q c}))"
proof (induction cs arbitrary: m)
  case (Cons c cs)
  let ?S = "f ` {c \<in> set cs. is_call_for v q c}"
  have fin: "finite ?S" by simp
  show ?case
  proof (cases "is_call_for v q c")
    case True
    then have eq: "{x. (x = c \<or> x \<in> set cs) \<and> is_call_for v q x} =
      insert c {x \<in> set cs. is_call_for v q x}" by auto
    have "Max (insert (max m (f c)) ?S) = Max (insert m (insert (f c) ?S))"
      using fin by (rule Max_insert_max)
    with True Cons.IH eq show ?thesis by simp
  next
    case False
    then have "{x. (x = c \<or> x \<in> set cs) \<and> is_call_for v q x} = {x \<in> set cs. is_call_for v q x}"
      by auto
    with False Cons.IH show ?thesis by simp
  qed
qed simp

text \<open>One call, seen from a vertex and partition.\<close>

lemma publish_step:
  assumes "publish_watermark_with_processor_count kv encode (pc_now c) (pc_created c) (pc_stream c)
      (pc_offset c) (pc_watermark c) (pc_idle c) (pc_processor_count c) pub = Some (pub', w, r)"
    and "state_of pub v q = Some st"
  obtains st' where "state_of pub' v q = Some st'" "lp_delay st' = lp_delay st"
    "lp_offset st' = best_from pc_offset v q [c] (lp_offset st)"
    "lp_watermark st' = best_from pc_watermark v q [c] (lp_watermark st)"
    "log_for v q (call_log c w) =
      (if is_call_for v q c \<and> delay_crossed (pc_now c) st
       then [(pc_now c, \<lparr>wmb_idle = pc_idle c, wmb_offset = lp_offset st',
         wmb_watermark = lp_watermark st', wmb_partition = q,
         wmb_processor_count = pc_processor_count c\<rparr>)] else [])"
    "lp_last_published_time st' = (if is_call_for v q c \<and> delay_crossed (pc_now c) st
       then pc_now c else lp_last_published_time st)"
proof (rule publish_cases [OF assms(1)])
  fix st0 st1 bo bw rg
  assume st0: "state_of pub (stream_vertex (pc_stream c)) (stream_partition (pc_stream c)) = Some st0"
  and upd: "lp_update (pc_offset c) (pc_watermark c) st0 = (st1, bo, bw, rg)"
  and w: "w = (if delay_crossed (pc_now c) st1 then Some \<lparr>wmb_idle = pc_idle c, wmb_offset = bo,
    wmb_watermark = bw, wmb_partition = stream_partition (pc_stream c),
    wmb_processor_count = pc_processor_count c\<rparr> else None)"
  and st': "\<And>v q. state_of pub' v q =
    (if v = stream_vertex (pc_stream c) \<and> q = stream_partition (pc_stream c)
     then Some (if delay_crossed (pc_now c) st1 then mark_published (pc_now c) st1 else st1)
     else state_of pub v q)"
  note f = lp_update_fields [OF upd]
  have dc: "delay_crossed (pc_now c) st1 = delay_crossed (pc_now c) st0"
    by (simp add: delay_crossed_def f split: option.split)
  show thesis
  proof (cases "is_call_for v q c")
    case True
    with st0 assms(2) have "st0 = st" by (simp add: is_call_for_def)
    with True st' w f dc show thesis
      by (intro that [of "if delay_crossed (pc_now c) st1 then mark_published (pc_now c) st1 else st1"])
        (auto simp: is_call_for_def mark_published_def log_for_def)
  next
    case False
    with st' assms(2) w show thesis
      by (intro that [of st]) (auto simp: is_call_for_def log_for_def)
  qed
qed

lemma state_of_step:
  "publish_watermark_with_processor_count kv encode now created s offset watermark idle pcnt pub =
     Some (pub', w, r) \<Longrightarrow> state_of pub' v q = None \<longleftrightarrow> state_of pub v q = None"
  by (erule publish_cases) simp

lemma log_for_unknown:
  assumes "publish_run kv encode cs pub = Some (pub', log)" and "state_of pub v q = None"
  shows "log_for v q log = []"
  using assms
proof (induction cs arbitrary: pub log)
  case Nil
  then show ?case by (simp add: log_for_def)
next
  case (Cons c cs)
  from Cons.prems(1) obtain pub1 w r log1 where
    step: "publish_watermark_with_processor_count kv encode (pc_now c) (pc_created c) (pc_stream c)
      (pc_offset c) (pc_watermark c) (pc_idle c) (pc_processor_count c) pub = Some (pub1, w, r)"
    and run: "publish_run kv encode cs pub1 = Some (pub', log1)"
    and log: "log = call_log c w @ log1"
    by (rule publish_run_Cons)
  have "log_for v q (call_log c w) = []"
    using step Cons.prems(2) by (elim publish_cases) (auto simp: log_for_def split: option.splits)
  with Cons.IH [OF run] state_of_step [OF step] Cons.prems(2) log show ?case
    by (simp add: log_for_append)
qed

lemma publish_run_best:
  assumes "publish_run kv encode cs pub = Some (pub', log)" and "state_of pub v q = Some st"
    and "(t, w) \<in> set (log_for v q log)"
  shows "\<exists>pre c post. cs = pre @ c # post \<and> is_call_for v q c \<and> pc_now c = t \<and>
    wmb_offset w = best_from pc_offset v q (pre @ [c]) (lp_offset st) \<and>
    wmb_watermark w = best_from pc_watermark v q (pre @ [c]) (lp_watermark st)"
  using assms
proof (induction cs arbitrary: pub log st)
  case Nil
  then show ?case by (simp add: log_for_def)
next
  case (Cons c cs)
  show ?case
  proof (rule publish_run_Cons [OF Cons.prems(1)])
    fix pub1 w' r log1
    assume step: "publish_watermark_with_processor_count kv encode (pc_now c) (pc_created c)
        (pc_stream c) (pc_offset c) (pc_watermark c) (pc_idle c) (pc_processor_count c) pub =
        Some (pub1, w', r)"
      and run: "publish_run kv encode cs pub1 = Some (pub', log1)"
      and log: "log = call_log c w' @ log1"
    from publish_step [OF step Cons.prems(2)] obtain st1 where st1: "state_of pub1 v q = Some st1"
      "lp_offset st1 = best_from pc_offset v q [c] (lp_offset st)"
      "lp_watermark st1 = best_from pc_watermark v q [c] (lp_watermark st)"
      and here: "log_for v q (call_log c w') =
        (if is_call_for v q c \<and> delay_crossed (pc_now c) st
         then [(pc_now c, \<lparr>wmb_idle = pc_idle c, wmb_offset = lp_offset st1,
           wmb_watermark = lp_watermark st1, wmb_partition = q,
           wmb_processor_count = pc_processor_count c\<rparr>)] else [])" by metis
    from Cons.prems(3) log consider
      "(t, w) \<in> set (log_for v q (call_log c w'))"
      | "(t, w) \<in> set (log_for v q log1)" by (auto simp: log_for_append)
    then show ?case
    proof cases
      case 1
      with here st1 show ?thesis
        by (intro exI [of _ "[]"] exI [of _ c] exI [of _ cs]) (auto split: if_splits)
    next
      case 2
      from Cons.IH [OF run st1(1) 2] obtain pre d post where "cs = pre @ d # post"
        "is_call_for v q d" "pc_now d = t"
        "wmb_offset w = best_from pc_offset v q (pre @ [d]) (lp_offset st1)"
        "wmb_watermark w = best_from pc_watermark v q (pre @ [d]) (lp_watermark st1)" by blast
      with st1 show ?thesis
        by (intro exI [of _ "c # pre"] exI [of _ d] exI [of _ post]) simp
    qed
  qed
qed

text \<open>The messages of one vertex and partition ascend, and are at least the delay apart.\<close>

lemma publish_run_mono:
  assumes "publish_run kv encode cs pub = Some (pub', log)" and "state_of pub v q = Some st"
  shows "sorted_wrt wmb_le (map snd (log_for v q log)) \<and>
    (\<forall>(t, w) \<in> set (log_for v q log). lp_offset st \<le> wmb_offset w \<and> lp_watermark st \<le> wmb_watermark w)"
  using assms
proof (induction cs arbitrary: pub log st)
  case Nil
  then show ?case by (simp add: log_for_def)
next
  case (Cons c cs)
  show ?case
  proof (rule publish_run_Cons [OF Cons.prems(1)])
    fix pub1 w' r log1
    assume step: "publish_watermark_with_processor_count kv encode (pc_now c) (pc_created c)
        (pc_stream c) (pc_offset c) (pc_watermark c) (pc_idle c) (pc_processor_count c) pub =
        Some (pub1, w', r)"
      and run: "publish_run kv encode cs pub1 = Some (pub', log1)" and log: "log = call_log c w' @ log1"
    show ?case
    proof (rule publish_step [OF step Cons.prems(2)])
      fix st1
      assume st1: "state_of pub1 v q = Some st1"
        "lp_offset st1 = best_from pc_offset v q [c] (lp_offset st)"
        "lp_watermark st1 = best_from pc_watermark v q [c] (lp_watermark st)"
        and here: "log_for v q (call_log c w') = (if is_call_for v q c \<and> delay_crossed (pc_now c) st
         then [(pc_now c, \<lparr>wmb_idle = pc_idle c, wmb_offset = lp_offset st1,
           wmb_watermark = lp_watermark st1, wmb_partition = q,
           wmb_processor_count = pc_processor_count c\<rparr>)] else [])"
      have "lp_offset st \<le> lp_offset st1" "lp_watermark st \<le> lp_watermark st1"
        using best_from_ge [of "lp_offset st" pc_offset v q "[c]"]
          best_from_ge [of "lp_watermark st" pc_watermark v q "[c]"] st1 by simp_all
      with Cons.IH [OF run st1(1)] show ?case
        unfolding log log_for_append here by (fastforce simp: wmb_le_def)
    qed
  qed
qed

lemma publish_run_spaced:
  assumes "publish_run kv encode cs pub = Some (pub', log)" and "state_of pub v q = Some st"
    and "lp_delay st = Some d" and "sorted (lp_last_published_time st # map pc_now cs)"
  shows "sorted_wrt (\<lambda>(t, _) (t', _). t + d \<le> t') (log_for v q log) \<and>
    (\<forall>(t, w) \<in> set (log_for v q log). lp_last_published_time st + d \<le> t)"
  using assms
proof (induction cs arbitrary: pub log st)
  case Nil
  then show ?case by (simp add: log_for_def)
next
  case (Cons c cs)
  show ?case
  proof (rule publish_run_Cons [OF Cons.prems(1)])
    fix pub1 w' r log1
    assume step: "publish_watermark_with_processor_count kv encode (pc_now c) (pc_created c)
        (pc_stream c) (pc_offset c) (pc_watermark c) (pc_idle c) (pc_processor_count c) pub =
        Some (pub1, w', r)"
      and run: "publish_run kv encode cs pub1 = Some (pub', log1)" and log: "log = call_log c w' @ log1"
    show ?case
    proof (rule publish_step [OF step Cons.prems(2)])
      fix st1
      assume st1: "state_of pub1 v q = Some st1" "lp_delay st1 = lp_delay st"
        "lp_last_published_time st1 = (if is_call_for v q c \<and> delay_crossed (pc_now c) st
           then pc_now c else lp_last_published_time st)"
        and here: "log_for v q (call_log c w') = (if is_call_for v q c \<and> delay_crossed (pc_now c) st
         then [(pc_now c, \<lparr>wmb_idle = pc_idle c, wmb_offset = lp_offset st1,
           wmb_watermark = lp_watermark st1, wmb_partition = q,
           wmb_processor_count = pc_processor_count c\<rparr>)] else [])"
      have "sorted (lp_last_published_time st1 # map pc_now cs)" using Cons.prems(4) st1(3) by auto
      with Cons.IH [OF run st1(1)] st1(2) Cons.prems(3) have
        IH: "sorted_wrt (\<lambda>(t, _) (t', _). t + d \<le> t') (log_for v q log1)"
          "\<forall>(t, w) \<in> set (log_for v q log1). lp_last_published_time st1 + d \<le> t" by simp_all
      have "delay_crossed (pc_now c) st \<Longrightarrow> lp_last_published_time st + d \<le> pc_now c"
        using Cons.prems(3,4) by (auto simp: delay_crossed_def)
      moreover have "lp_last_published_time st \<le> lp_last_published_time st1"
        using st1(3) Cons.prems(4) by simp
      ultimately show ?case
        unfolding log log_for_append here using IH st1(3) by (fastforce split: if_splits)
    qed
  qed
qed

section \<open>A new publisher\<close>

lemma hm_get_fold_insert:
  "hm_get (fold (\<lambda>x m. hm_insert (k x) (f x) m) xs m) y = Some z \<Longrightarrow>
   hm_get m y = Some z \<or> (\<exists>x \<in> set xs. k x = y \<and> f x = z)"
proof (induction xs arbitrary: m)
  case (Cons x xs)
  then show ?case by (auto split: if_splits dest!: Cons.IH)
qed simp

lemma state_of_new:
  assumes "state_of (isb_publisher_new now name stores configs src) v q = Some st"
  shows "\<exists>c \<in> set configs. bc_vertex c = v \<and> q \<in> set (bc_partitions c) \<and>
    st = \<lparr>lp_offset = -1, lp_watermark = -1, lp_last_published_time = now, lp_delay = bc_delay c\<rparr>"
proof -
  from assms obtain m where
    m: "hm_get (fold (\<lambda>c m. hm_insert (bc_vertex c) (bucket_state now c) m) configs []) v = Some m"
    and st: "hm_get m q = Some st"
    by (auto simp: state_of_def isb_publisher_new_def bind_eq_Some_conv)
  from hm_get_fold_insert [OF m] obtain c where c: "c \<in> set configs" "bc_vertex c = v"
    "m = bucket_state now c" by auto
  with st hm_get_fold_insert [of "\<lambda>p. p" "\<lambda>_. (last_published_default now)\<lparr>lp_delay := bc_delay c\<rparr>"
      "bc_partitions c" "[]" q st] show ?thesis
    by (auto simp: bucket_state_def last_published_default_def)
qed

definition example_bucket :: bucket_config where
  "example_bucket = \<lparr>bc_vertex = ''out'', bc_partitions = [0, 1], bc_ot_bucket = ''OT'',
     bc_delay = Some 100\<rparr>"

definition example_calls :: "publish_call list" where
  "example_calls = map (\<lambda>(t, q, off, wm). \<lparr>pc_now = t, pc_created = 0,
     pc_stream = \<lparr>stream_name = ''s'', stream_vertex = ''out'', stream_partition = q\<rparr>,
     pc_offset = off, pc_watermark = wm, pc_idle = False, pc_processor_count = None\<rparr>)
     [(150, 0, 5, 50), (200, 0, 9, 40), (260, 0, 7, 45), (400, 1, 1, 60)]"

definition example_publisher :: "simple_kv isb_publisher" where
  "example_publisher =
     isb_publisher_new 0 ''p0'' [(''out'', simple_kv_new)] [example_bucket] False"

definition example_log :: publish_log where
  "example_log = [
     (150, ''out'', wmb_default\<lparr>wmb_offset := 5, wmb_watermark := 50\<rparr>),
     (260, ''out'', wmb_default\<lparr>wmb_offset := 9, wmb_watermark := 50\<rparr>),
     (400, ''out'', wmb_default\<lparr>wmb_offset := 1, wmb_watermark := 60, wmb_partition := 1\<rparr>)]"

lemma example_run:
  "\<exists>pub. publish_run kv_put byte_encode example_calls example_publisher = Some (pub, example_log)"
  by (simp add: example_calls_def example_publisher_def example_log_def example_bucket_def
      isb_publisher_new_def bucket_state_def last_published_default_def lp_update_def
      publish_watermark_with_processor_count_def delay_crossed_def mark_published_def
      wmb_to_bytes_def byte_encode_def kv_put_def Let_def split_beta decrement_counter_def wmb_default_def)

section \<open>Properties\<close>

text \<open>
  C34. Every message the publisher writes for a vertex and partition carries the greatest offset and
  the greatest watermark it has been given for them up to that moment, however out of order they
  came and whatever went to the other partitions in between.
\<close>

theorem publisher_writes_best:
  assumes "publish_run kv encode cs (isb_publisher_new now name stores configs src) = Some (pub, log)"
    and "(t, w) \<in> set (log_for v q log)"
  shows "\<exists>pre c post. cs = pre @ c # post \<and> is_call_for v q c \<and> pc_now c = t \<and>
    wmb_offset w = Max (insert (-1) (pc_offset ` {d \<in> set (pre @ [c]). is_call_for v q d})) \<and>
    wmb_watermark w = Max (insert (-1) (pc_watermark ` {d \<in> set (pre @ [c]). is_call_for v q d}))"
proof -
  obtain st where st: "state_of (isb_publisher_new now name stores configs src) v q = Some st"
    using log_for_unknown [OF assms(1)] assms(2)
    by (cases "state_of (isb_publisher_new now name stores configs src) v q") auto
  from state_of_new [OF st] have init: "lp_offset st = -1" "lp_watermark st = -1" by auto
  from publish_run_best [OF assms(1) st assms(2)] init best_from_Max show ?thesis by simp
qed

theorem publisher_writes_best_witness:
  "\<exists>pre c post. example_calls = pre @ c # post \<and> is_call_for ''out'' 0 c \<and> pc_now c = 260 \<and>
     9 = Max (insert (-1) (pc_offset ` {d \<in> set (pre @ [c]). is_call_for ''out'' 0 d})) \<and>
     50 = Max (insert (-1) (pc_watermark ` {d \<in> set (pre @ [c]). is_call_for ''out'' 0 d}))"
proof -
  let ?w = "wmb_default\<lparr>wmb_offset := 9, wmb_watermark := 50\<rparr>"
  from example_run obtain pub where
    run: "publish_run kv_put byte_encode example_calls example_publisher = Some (pub, example_log)" ..
  have "(260, ?w) \<in> set (log_for ''out'' 0 example_log)"
    by (simp add: log_for_def example_log_def wmb_default_def)
  from publisher_writes_best [OF run [unfolded example_publisher_def] this] show ?thesis by simp
qed

text \<open>
  C19. The messages written for a vertex and partition ascend in offset and in watermark, so a
  consumer never sees a watermark go back.
\<close>

theorem publisher_monotone:
  assumes "publish_run kv encode cs (isb_publisher_new now name stores configs src) = Some (pub, log)"
  shows "sorted_wrt wmb_le (map snd (log_for v q log))"
  using publish_run_mono [OF assms] log_for_unknown [OF assms, of v q]
  by (cases "state_of (isb_publisher_new now name stores configs src) v q") auto

theorem publisher_monotone_witness:
  "map snd (log_for ''out'' 0 example_log) =
     [wmb_default\<lparr>wmb_offset := 5, wmb_watermark := 50\<rparr>, wmb_default\<lparr>wmb_offset := 9, wmb_watermark := 50\<rparr>] \<and>
   sorted_wrt wmb_le (map snd (log_for ''out'' 0 example_log))"
proof -
  from example_run obtain pub where
    run: "publish_run kv_put byte_encode example_calls example_publisher = Some (pub, example_log)" ..
  have "map snd (log_for ''out'' 0 example_log) =
     [wmb_default\<lparr>wmb_offset := 5, wmb_watermark := 50\<rparr>, wmb_default\<lparr>wmb_offset := 9, wmb_watermark := 50\<rparr>]"
    by (simp add: log_for_def example_log_def wmb_default_def)
  moreover have "sorted_wrt wmb_le (map snd (log_for ''out'' 0 example_log))"
    by (rule publisher_monotone [OF run [unfolded example_publisher_def]])
  ultimately show ?thesis by (rule conjI)
qed

text \<open>
  C35. No two messages for a vertex and partition are written closer to each other than the delay
  configured for the vertex, and the first not before that delay after the start.
\<close>

theorem publisher_spaced:
  assumes "publish_run kv encode cs (isb_publisher_new now name stores configs src) = Some (pub, log)"
    and "sorted (now # map pc_now cs)"
    and "\<forall>c \<in> set configs. bc_vertex c = v \<longrightarrow> bc_delay c = Some d"
  shows "sorted_wrt (\<lambda>t t'. t + d \<le> t') (now # map fst (log_for v q log))"
proof (cases "state_of (isb_publisher_new now name stores configs src) v q")
  case None
  with log_for_unknown [OF assms(1)] show ?thesis by simp
next
  case (Some st)
  from state_of_new [OF Some] assms(3) have "lp_delay st = Some d" "lp_last_published_time st = now"
    by auto
  with publish_run_spaced [OF assms(1) Some] assms(2) show ?thesis
    by (auto simp: sorted_wrt_map case_prod_unfold)
qed

theorem publisher_spaced_witness:
  "sorted_wrt (\<lambda>t t'. t + 100 \<le> t') (0 # map fst (log_for ''out'' 0 example_log))"
proof -
  from example_run obtain pub where
    run: "publish_run kv_put byte_encode example_calls example_publisher = Some (pub, example_log)" ..
  show ?thesis
    by (rule publisher_spaced [OF run [unfolded example_publisher_def]])
      (simp_all add: example_calls_def example_bucket_def)
qed

end
