(* ===== verification/WmFetcher.thy ===== *)
theory WmFetcher
  imports Processor WmPublisher
begin

text \<open>
  The watermark fetchers: \<open>ISBWatermarkFetcher\<close> of the incoming edges
  (\<^verbatim>\<open>numaflow-core/src/watermark/isb/wm_fetcher.rs\<close>) and \<open>SourceWatermarkFetcher\<close>
  (\<^verbatim>\<open>watermark/source/source_wm_fetcher.rs\<close>). A fetcher's state is the processor map of every edge,
  which it prunes, and the last processed watermark per edge and partition; the periodic log
  summary is left out. \<open>None\<close> is a panic: an edge or partition without a last processed watermark.
\<close>

section \<open>The ISB fetcher\<close>

record isb_fetcher =
  fet_processor_managers :: "(string, processors) hashmap"
  fet_last_processed_wm :: "(string, (u16, i64) hashmap) hashmap"

definition isb_fetcher_new :: "(string, processors) hashmap \<Rightarrow> bucket_config list \<Rightarrow> isb_fetcher" where
  "isb_fetcher_new managers configs =
     \<lparr>fet_processor_managers = managers,
      fet_last_processed_wm =
        fold (\<lambda>c m. hm_insert (bc_vertex c) (fold (\<lambda>p pm. hm_insert p (-1) pm) (bc_partitions c) []) m)
          configs []\<rparr>"

text \<open>The greatest head offset of a processor's timelines, \<^verbatim>\<open>-1\<close> without any.\<close>

definition max_head_offset :: "processor \<Rightarrow> i64" where
  "max_head_offset p =
     (case iter_max (map get_head_offset (hm_values (proc_timelines p))) of Some m \<Rightarrow> m | None \<Rightarrow> -1)"

text \<open>The pass over the processors of one edge: the smallest event time and the names to delete.\<close>

definition scan_processor ::
    "i64 \<Rightarrow> u16 \<Rightarrow> string \<times> processor \<Rightarrow> i64 \<times> string list \<Rightarrow> i64 \<times> string list" where
  "scan_processor offset q np acc =
     (case (np, acc) of ((name, p), (epoch, dels)) \<Rightarrow>
        let epoch' = (case hm_get (proc_timelines p) q of
                        Some t \<Rightarrow> if get_event_time t offset < epoch then get_event_time t offset else epoch
                      | None \<Rightarrow> epoch);
            dels' = (if is_deleted p \<and> offset > max_head_offset p then dels @ [name] else dels)
        in (epoch', dels'))"

definition scan_edge :: "i64 \<Rightarrow> u16 \<Rightarrow> processors \<Rightarrow> i64 \<times> string list" where
  "scan_edge offset q ps = fold (scan_processor offset q) ps (i64_MAX, [])"

text \<open>\<^verbatim>\<open>*last_processed_wm.get_mut(edge).get_mut(&partition_idx) = epoch\<close>.\<close>

definition set_last_processed :: "string \<Rightarrow> u16 \<Rightarrow> i64 \<Rightarrow> isb_fetcher \<Rightarrow> isb_fetcher option" where
  "set_last_processed edge q epoch f =
     (case hm_get (fet_last_processed_wm f) edge of
        None \<Rightarrow> None
      | Some m \<Rightarrow>
          (case hm_get m q of
             None \<Rightarrow> None
           | Some _ \<Rightarrow> Some (f\<lparr>fet_last_processed_wm :=
               hm_insert edge (hm_insert q epoch m) (fet_last_processed_wm f)\<rparr>)))"

definition fetch_edge :: "i64 \<Rightarrow> u16 \<Rightarrow> string \<times> processors \<Rightarrow> isb_fetcher \<Rightarrow> isb_fetcher option" where
  "fetch_edge offset q ep f =
     (case ep of (edge, ps) \<Rightarrow>
        let (epoch, dels) = scan_edge offset q ps;
            f' = f\<lparr>fet_processor_managers :=
               hm_insert edge (fold delete_processor dels ps) (fet_processor_managers f)\<rparr>
        in if epoch \<noteq> i64_MAX then set_last_processed edge q epoch f' else Some f')"

definition get_watermark :: "isb_fetcher \<Rightarrow> datetime" where
  "get_watermark f =
     (let min_wm = fold (\<lambda>m acc. fold (\<lambda>w acc. if acc > w then w else acc) (hm_values m) acc)
                     (hm_values (fet_last_processed_wm f)) i64_MAX
      in if min_wm = i64_MAX then from_timestamp_millis (-1) else from_timestamp_millis min_wm)"

fun fetch_edges ::
    "i64 \<Rightarrow> u16 \<Rightarrow> (string \<times> processors) list \<Rightarrow> isb_fetcher \<Rightarrow> isb_fetcher option" where
  "fetch_edges offset q [] f = Some f"
| "fetch_edges offset q (ep # eps) f = Option.bind (fetch_edge offset q ep f) (fetch_edges offset q eps)"

definition fetch_watermark :: "i64 \<Rightarrow> u16 \<Rightarrow> isb_fetcher \<Rightarrow> (isb_fetcher \<times> datetime) option" where
  "fetch_watermark offset q f =
     map_option (\<lambda>f'. (f', get_watermark f')) (fetch_edges offset q (fet_processor_managers f) f)"

definition compute_processor_watermark :: "processors \<Rightarrow> u16 \<Rightarrow> i64 option" where
  "compute_processor_watermark ps q =
     (let epoch = fold (\<lambda>p epoch.
            case hm_get (proc_timelines p) q of
              Some t \<Rightarrow> if get_head_watermark t \<noteq> -1 then min epoch (get_head_watermark t) else epoch
            | None \<Rightarrow> epoch) (filter is_active (hm_values ps)) i64_MAX
      in if epoch < i64_MAX then Some epoch else None)"

definition fetch_head_watermark :: "string option \<Rightarrow> u16 \<Rightarrow> isb_fetcher \<Rightarrow> datetime" where
  "fetch_head_watermark from_vertex q f =
     (let epoch = (case from_vertex of
            Some v \<Rightarrow> Option.bind (hm_get (fet_processor_managers f) v)
                        (\<lambda>ps. compute_processor_watermark ps q)
          | None \<Rightarrow> iter_min (List.map_filter (\<lambda>ps. compute_processor_watermark ps q)
                                (hm_values (fet_processor_managers f))))
      in from_timestamp_millis (case epoch of Some e \<Rightarrow> e | None \<Rightarrow> -1))"

text \<open>
  The head idle message. The inner loop returns \<open>None\<close> at a processor that is not idle; the edges
  before it have already updated the last processed watermarks.
\<close>

definition min_wmb :: "wmb option \<Rightarrow> wmb \<Rightarrow> wmb" where
  "min_wmb cur w =
     (case cur of None \<Rightarrow> w | Some c \<Rightarrow> if wmb_watermark w < wmb_watermark c then w else c)"

fun edge_idle_wmb :: "u16 \<Rightarrow> processor list \<Rightarrow> wmb option \<Rightarrow> wmb option option" where
  "edge_idle_wmb q [] acc = Some acc"
| "edge_idle_wmb q (p # ps) acc =
     (case Option.bind (hm_get (proc_timelines p) q) get_head_wmb of
        Some head \<Rightarrow> if wmb_idle head then edge_idle_wmb q ps (Some (min_wmb acc head)) else None
      | None \<Rightarrow> None)"

fun head_idle_edges ::
    "u16 \<Rightarrow> (string \<times> processors) list \<Rightarrow> wmb option \<Rightarrow> isb_fetcher \<Rightarrow>
     (isb_fetcher \<times> wmb option) option" where
  "head_idle_edges q [] acc f = Some (f, acc)"
| "head_idle_edges q ((edge, ps) # eps) acc f =
     (case edge_idle_wmb q (filter is_active (hm_values ps)) None of
        None \<Rightarrow> Some (f, None)
      | Some None \<Rightarrow> head_idle_edges q eps acc f
      | Some (Some w) \<Rightarrow>
          Option.bind (set_last_processed edge q (wmb_watermark w) f)
            (head_idle_edges q eps (Some (min_wmb acc w))))"

definition fetch_head_idle_wmb :: "u16 \<Rightarrow> isb_fetcher \<Rightarrow> (isb_fetcher \<times> wmb option) option" where
  "fetch_head_idle_wmb q f = head_idle_edges q (fet_processor_managers f) None f"

section \<open>The source fetcher\<close>

record source_scan =
  ss_min_wm :: i64
  ss_active_processor_count :: u32
  ss_max_expected_count :: "u32 option"

definition scan_source :: "processor \<Rightarrow> source_scan \<Rightarrow> source_scan" where
  "scan_source p s =
     (if \<not> is_active p then s
      else
        let s = s\<lparr>ss_active_processor_count := ss_active_processor_count s + 1\<rparr>
        in case hm_get (proc_timelines p) 0 of
             None \<Rightarrow> s
           | Some t \<Rightarrow>
               let s = (if get_head_watermark t < ss_min_wm s
                        then s\<lparr>ss_min_wm := get_head_watermark t\<rparr> else s)
               in case Option.bind (get_head_wmb t) wmb_processor_count of
                    None \<Rightarrow> s
                  | Some count \<Rightarrow> s\<lparr>ss_max_expected_count :=
                      Some (case ss_max_expected_count s of None \<Rightarrow> count | Some c \<Rightarrow> max c count)\<rparr>)"

definition fetch_source_watermark :: "processors \<Rightarrow> datetime" where
  "fetch_source_watermark ps =
     (let s = fold scan_source (hm_values ps) \<lparr>ss_min_wm = i64_MAX, ss_active_processor_count = 0,
                ss_max_expected_count = None\<rparr>
      in if (case ss_max_expected_count s of
               Some expected \<Rightarrow> ss_active_processor_count s < expected | None \<Rightarrow> False)
         then from_timestamp_millis (-1)
         else from_timestamp_millis (if ss_min_wm s = i64_MAX then -1 else ss_min_wm s))"

definition fetch_source_head_watermark :: "u16 \<Rightarrow> processors \<Rightarrow> datetime" where
  "fetch_source_head_watermark q ps =
     (let min_wm = fold (\<lambda>p min_wm.
            if \<not> is_active p then min_wm
            else case hm_get (proc_timelines p) q of
                   Some t \<Rightarrow> if get_head_watermark t \<noteq> -1 \<and> get_head_watermark t < min_wm
                             then get_head_watermark t else min_wm
                 | None \<Rightarrow> min_wm) (hm_values ps) i64_MAX
      in from_timestamp_millis (if min_wm = i64_MAX then -1 else min_wm))"

section \<open>The pass over one edge\<close>

definition event_times :: "i64 \<Rightarrow> u16 \<Rightarrow> processors \<Rightarrow> i64 list" where
  "event_times offset q ps =
     List.map_filter (\<lambda>p. map_option (\<lambda>t. get_event_time t offset) (hm_get (proc_timelines p) q))
       (hm_values ps)"

definition edge_epoch :: "i64 \<Rightarrow> u16 \<Rightarrow> processors \<Rightarrow> i64" where
  "edge_epoch offset q ps = fold min (event_times offset q ps) i64_MAX"

text \<open>A processor may be forgotten once it is deleted and all it published is behind the offset.\<close>

definition prunable :: "i64 \<Rightarrow> processor \<Rightarrow> bool" where
  "prunable offset p \<longleftrightarrow> is_deleted p \<and> (\<forall>t \<in> set (hm_values (proc_timelines p)). get_head_offset t < offset)
     \<and> (proc_timelines p = [] \<longrightarrow> -1 < offset)"

definition prune :: "i64 \<Rightarrow> processors \<Rightarrow> processors" where
  "prune offset ps = hm_retain (\<lambda>_ p. \<not> prunable offset p) ps"

lemma fold_max_less: "fold max xs (a::'a::linorder) < b \<longleftrightarrow> a < b \<and> (\<forall>x \<in> set xs. x < b)"
  by (induction xs arbitrary: a) auto

lemma max_head_offset_less:
  "max_head_offset p < offset \<longleftrightarrow>
     (\<forall>t \<in> set (hm_values (proc_timelines p)). get_head_offset t < offset) \<and>
     (proc_timelines p = [] \<longrightarrow> -1 < offset)"
  by (cases "proc_timelines p") (auto simp: max_head_offset_def iter_max_def fold_max_less)

lemma scan_edge_fold:
  "fold (scan_processor offset q) ps (e, ds) =
     (fold min (event_times offset q ps) e, ds @ map fst (filter (\<lambda>(n, p). prunable offset p) ps))"
proof (induction ps arbitrary: e ds)
  case (Cons np ps)
  have eq: "(if a < b then a else b) = min a b" for a b :: int by (simp add: min_def)
  have pr: "prunable offset (snd np) \<longleftrightarrow> is_deleted (snd np) \<and> max_head_offset (snd np) < offset"
    unfolding prunable_def max_head_offset_less by simp
  show ?case
    by (cases np; cases "hm_get (proc_timelines (snd np)) q")
      (use Cons.IH pr in \<open>auto simp: scan_processor_def event_times_def map_filter_simps eq Let_def\<close>)
qed (simp add: event_times_def map_filter_simps)

lemma scan_edge_eq:
  "scan_edge offset q ps =
     (edge_epoch offset q ps, map fst (filter (\<lambda>(n, p). prunable offset p) ps))"
  unfolding scan_edge_def edge_epoch_def scan_edge_fold by simp

lemma fold_delete:
  "fold delete_processor ns ps = filter (\<lambda>(n, p). n \<notin> set ns) ps"
proof (induction ns arbitrary: ps)
  case (Cons n ns)
  have "delete_processor n ps = filter (\<lambda>(k, p). k \<noteq> n) ps"
    by (auto simp: delete_processor_def AList.delete_eq intro!: filter_cong)
  with Cons show ?case by (auto simp: intro!: filter_cong)
qed simp

lemma prune_eq:
  assumes "hm_wf ps"
  shows "fold delete_processor (map fst (filter (\<lambda>(n, p). prunable offset p) ps)) ps = prune offset ps"
  unfolding fold_delete prune_def hm_retain_def
proof (rule filter_cong [OF refl], clarify)
  fix n p assume np: "(n, p) \<in> set ps"
  have same: "r = p" if "(n, r) \<in> set ps" for r
    using that np assms by (simp add: hm_get_iff [symmetric])
  show "(n \<notin> set (map fst (filter (\<lambda>(n, p). prunable offset p) ps))) = (\<not> prunable offset p)"
  proof
    assume "n \<notin> set (map fst (filter (\<lambda>(n, p). prunable offset p) ps))"
    then show "\<not> prunable offset p" using np image_eqI [of n fst "(n, p)"] by auto
  next
    assume "\<not> prunable offset p"
    with same show "n \<notin> set (map fst (filter (\<lambda>(n, p). prunable offset p) ps))" by auto
  qed
qed

lemma event_times_iff:
  "x \<in> set (event_times offset q ps) \<longleftrightarrow>
     (\<exists>n p t. (n, p) \<in> set ps \<and> hm_get (proc_timelines p) q = Some t \<and> x = get_event_time t offset)"
  by (force simp: event_times_def List.map_filter_def)

lemma edge_epoch_le:
  "(n, p) \<in> set ps \<Longrightarrow> hm_get (proc_timelines p) q = Some t \<Longrightarrow>
   edge_epoch offset q ps \<le> get_event_time t offset"
  unfolding edge_epoch_def by (rule fold_min_le_elem) (auto simp: event_times_iff)

lemma edge_epoch_cases:
  "edge_epoch offset q ps = i64_MAX \<or> edge_epoch offset q ps \<in> set (event_times offset q ps)"
  using fold_min_in [of "event_times offset q ps" i64_MAX] by (simp add: edge_epoch_def)

section \<open>Invariant of the ISB fetcher\<close>

text \<open>
  Every edge has the partitions \<open>parts edge\<close> of its bucket: its processors have a timeline for
  each of them, and the last processed watermark of each is recorded, at least \<open>-1\<close>.
\<close>

definition wm_at :: "isb_fetcher \<Rightarrow> string \<Rightarrow> u16 \<Rightarrow> i64 option" where
  "wm_at f edge q = Option.bind (hm_get (fet_last_processed_wm f) edge) (\<lambda>m. hm_get m q)"

definition fet_inv :: "(string \<Rightarrow> u16 list) \<Rightarrow> isb_fetcher \<Rightarrow> bool" where
  "fet_inv parts f \<longleftrightarrow> hm_wf (fet_processor_managers f) \<and> hm_wf (fet_last_processed_wm f) \<and>
     (\<forall>edge ps. hm_get (fet_processor_managers f) edge = Some ps \<longrightarrow> pm_inv (parts edge) ps \<and>
        hm_get (fet_last_processed_wm f) edge \<noteq> None) \<and>
     (\<forall>edge m. hm_get (fet_last_processed_wm f) edge = Some m \<longrightarrow> hm_wf m \<and>
        dom (hm_get m) = set (parts edge) \<and> (\<forall>q x. hm_get m q = Some x \<longrightarrow> -1 \<le> x))"

lemma set_last_processed_total:
  assumes "fet_inv parts f" and "hm_get (fet_processor_managers f) edge = Some ps"
    and "q \<in> set (parts edge)" and "-1 \<le> x"
  obtains f' where "set_last_processed edge q x f = Some f'" "fet_inv parts f'"
    "fet_processor_managers f' = fet_processor_managers f"
    "\<And>e p. wm_at f' e p = (if e = edge \<and> p = q then Some x else wm_at f e p)"
proof -
  from assms(1,2) obtain m where m: "hm_get (fet_last_processed_wm f) edge = Some m"
    unfolding fet_inv_def by blast
  with assms(1,3) have "q \<in> dom (hm_get m)" by (auto simp: fet_inv_def)
  then obtain y where y: "hm_get m q = Some y" by blast
  let ?f = "f\<lparr>fet_last_processed_wm := hm_insert edge (hm_insert q x m) (fet_last_processed_wm f)\<rparr>"
  show thesis
  proof (rule that [of ?f])
    show "set_last_processed edge q x f = Some ?f" by (simp add: set_last_processed_def m y)
    show "fet_inv parts ?f"
      using assms m by (auto simp: fet_inv_def insert_absorb split: if_splits)
  qed (auto simp: wm_at_def m)
qed

lemma pm_inv_prune: "pm_inv qs ps \<Longrightarrow> pm_inv qs (prune offset ps)"
  by (auto simp: pm_inv_def prune_def hm_get_retain split: option.splits if_splits)

lemma edge_epoch_bounds:
  assumes "pm_inv qs ps" and "edge_epoch offset q ps \<noteq> i64_MAX"
  shows "-1 \<le> edge_epoch offset q ps" and "q \<in> set qs"
proof -
  from edge_epoch_cases [of offset q ps] assms(2) obtain n p t where t: "(n, p) \<in> set ps"
    "hm_get (proc_timelines p) q = Some t" "edge_epoch offset q ps = get_event_time t offset"
    by (auto simp: event_times_iff)
  have wf: "hm_wf ps" using assms(1) by (simp add: pm_inv_def)
  with t(1) pm_inv_get [OF assms(1), of n p] have inv: "processor_inv qs n p"
    by (simp add: hm_get_iff)
  with t(2) have "timeline_inv t" by (auto simp: processor_inv_def)
  with t(3) get_event_time_ge show "-1 \<le> edge_epoch offset q ps" by simp
  from inv t(2) show "q \<in> set qs" by (auto simp: processor_inv_def)
qed

lemma fetch_edge_total:
  assumes "fet_inv parts f" and "hm_get (fet_processor_managers f) edge = Some ps"
  obtains f' where "fetch_edge offset q (edge, ps) f = Some f'" "fet_inv parts f'"
    "\<And>e. hm_get (fet_processor_managers f') e =
      (if e = edge then Some (prune offset ps) else hm_get (fet_processor_managers f) e)"
    "\<And>e p. wm_at f' e p = (if e = edge \<and> p = q \<and> edge_epoch offset q ps \<noteq> i64_MAX
       then Some (edge_epoch offset q ps) else wm_at f e p)"
proof -
  have pm: "pm_inv (parts edge) ps" using assms by (auto simp: fet_inv_def)
  then have wf: "hm_wf ps" by (simp add: pm_inv_def)
  let ?f = "f\<lparr>fet_processor_managers :=
    hm_insert edge (prune offset ps) (fet_processor_managers f)\<rparr>"
  have inv: "fet_inv parts ?f"
    using assms pm_inv_prune [OF pm] by (auto simp: fet_inv_def)
  have body: "fetch_edge offset q (edge, ps) f = (if edge_epoch offset q ps \<noteq> i64_MAX
      then set_last_processed edge q (edge_epoch offset q ps) ?f else Some ?f)"
    by (simp add: fetch_edge_def scan_edge_eq prune_eq [OF wf])
  show thesis
  proof (cases "edge_epoch offset q ps = i64_MAX")
    case True
    with body inv show thesis by (intro that [of ?f]) (simp_all add: wm_at_def)
  next
    case False
    note b = edge_epoch_bounds [OF pm False]
    have mgr: "hm_get (fet_processor_managers ?f) edge = Some (prune offset ps)" by simp
    show thesis
    proof (rule set_last_processed_total [OF inv mgr b(2,1)])
      fix f' assume "set_last_processed edge q (edge_epoch offset q ps) ?f = Some f'"
        "fet_inv parts f'" "fet_processor_managers f' = fet_processor_managers ?f"
        "\<And>e p. wm_at f' e p = (if e = edge \<and> p = q then Some (edge_epoch offset q ps) else wm_at ?f e p)"
      with body False show thesis by (intro that [of f']) (simp_all add: wm_at_def)
    qed
  qed
qed

lemma fetch_edges_total:
  assumes "fet_inv parts f" and "distinct (map fst eps)"
    and "\<forall>(e, ps) \<in> set eps. hm_get (fet_processor_managers f) e = Some ps"
  shows "\<exists>f'. fetch_edges offset q eps f = Some f' \<and> fet_inv parts f' \<and>
    (\<forall>e. hm_get (fet_processor_managers f') e = (case map_of eps e of
       Some ps \<Rightarrow> Some (prune offset ps) | None \<Rightarrow> hm_get (fet_processor_managers f) e)) \<and>
    (\<forall>e p. wm_at f' e p = (case map_of eps e of
       Some ps \<Rightarrow> if p = q \<and> edge_epoch offset q ps \<noteq> i64_MAX
                 then Some (edge_epoch offset q ps) else wm_at f e p
     | None \<Rightarrow> wm_at f e p))"
  using assms
proof (induction eps arbitrary: f)
  case (Cons ep eps)
  obtain edge ps where ep: "ep = (edge, ps)" by fastforce
  with Cons.prems(3) have get: "hm_get (fet_processor_managers f) edge = Some ps" by simp
  show ?case
  proof (rule fetch_edge_total [OF Cons.prems(1) get, of offset q])
    fix f1 assume f1: "fetch_edge offset q (edge, ps) f = Some f1" "fet_inv parts f1"
      "\<And>e. hm_get (fet_processor_managers f1) e =
        (if e = edge then Some (prune offset ps) else hm_get (fet_processor_managers f) e)"
      "\<And>e p. wm_at f1 e p = (if e = edge \<and> p = q \<and> edge_epoch offset q ps \<noteq> i64_MAX
         then Some (edge_epoch offset q ps) else wm_at f e p)"
    have fresh: "edge \<notin> fst ` set eps" and dist: "distinct (map fst eps)"
      using Cons.prems(2) ep by simp_all
    then have none: "map_of eps edge = None" by (simp add: map_of_eq_None_iff)
    have "\<forall>(e, ps) \<in> set eps. hm_get (fet_processor_managers f1) e = Some ps"
      using Cons.prems(3) fresh by (force simp: f1(3))
    from Cons.IH [OF f1(2) dist this] obtain f2 where
      "fetch_edges offset q eps f1 = Some f2" "fet_inv parts f2"
      "\<forall>e. hm_get (fet_processor_managers f2) e = (case map_of eps e of
         Some ps \<Rightarrow> Some (prune offset ps) | None \<Rightarrow> hm_get (fet_processor_managers f1) e)"
      "\<forall>e p. wm_at f2 e p = (case map_of eps e of
         Some ps \<Rightarrow> if p = q \<and> edge_epoch offset q ps \<noteq> i64_MAX
                   then Some (edge_epoch offset q ps) else wm_at f1 e p
       | None \<Rightarrow> wm_at f1 e p)" by blast
    with f1 none show ?case
      by (intro exI [of _ f2]) (auto simp: ep split: option.splits)
  qed
qed simp

text \<open>The result of a fetch, edge by edge.\<close>

lemma fetch_watermark_total:
  assumes "fet_inv parts f"
  obtains f' where "fetch_watermark offset q f = Some (f', get_watermark f')" "fet_inv parts f'"
    "\<And>e. hm_get (fet_processor_managers f') e =
      map_option (prune offset) (hm_get (fet_processor_managers f) e)"
    "\<And>e p. wm_at f' e p = (case hm_get (fet_processor_managers f) e of
       Some ps \<Rightarrow> if p = q \<and> edge_epoch offset q ps \<noteq> i64_MAX
                 then Some (edge_epoch offset q ps) else wm_at f e p
     | None \<Rightarrow> wm_at f e p)"
proof -
  have wf: "hm_wf (fet_processor_managers f)" using assms by (simp add: fet_inv_def)
  then have "\<forall>(e, ps) \<in> set (fet_processor_managers f). hm_get (fet_processor_managers f) e = Some ps"
    by (auto simp: hm_get_iff)
  from fetch_edges_total [OF assms wf [unfolded hm_wf_def] this, of offset q] obtain f' where
    f': "fetch_edges offset q (fet_processor_managers f) f = Some f'" "fet_inv parts f'"
      "\<forall>e. hm_get (fet_processor_managers f') e = (case hm_get (fet_processor_managers f) e of
         Some ps \<Rightarrow> Some (prune offset ps) | None \<Rightarrow> hm_get (fet_processor_managers f) e)"
      "\<forall>e p. wm_at f' e p = (case hm_get (fet_processor_managers f) e of
         Some ps \<Rightarrow> if p = q \<and> edge_epoch offset q ps \<noteq> i64_MAX
                   then Some (edge_epoch offset q ps) else wm_at f e p
       | None \<Rightarrow> wm_at f e p)" by blast
  show thesis
  proof (rule that [OF _ f'(2)])
    show "fetch_watermark offset q f = Some (f', get_watermark f')"
      by (simp add: fetch_watermark_def f'(1))
    show "hm_get (fet_processor_managers f') e =
        map_option (prune offset) (hm_get (fet_processor_managers f) e)" for e
      using f'(3) by (cases "hm_get (fet_processor_managers f) e") auto
  qed (use f'(4) in blast)
qed

section \<open>The smallest last processed watermark\<close>

definition all_wms :: "isb_fetcher \<Rightarrow> i64 list" where
  "all_wms f = concat (map hm_values (hm_values (fet_last_processed_wm f)))"

lemma get_watermark_eq:
  "get_watermark f = (let m = fold min (all_wms f) i64_MAX
     in from_timestamp_millis (if m = i64_MAX then -1 else m))"
proof -
  have inner: "fold (\<lambda>w acc. if acc > w then w else acc) ws = fold min ws" for ws :: "int list"
    by (intro ext fold_cong) (auto simp: min_def)
  have "fold (\<lambda>m acc. fold (\<lambda>w acc. if acc > w then w else acc) (hm_values m) acc) ms a =
      fold min (concat (map hm_values ms)) a" for ms :: "(u16, int) hashmap list" and a
    by (induction ms arbitrary: a) (simp_all add: inner)
  then show ?thesis by (simp add: get_watermark_def all_wms_def Let_def)
qed

lemma all_wms_iff:
  assumes "fet_inv parts f"
  shows "x \<in> set (all_wms f) \<longleftrightarrow> (\<exists>e p. wm_at f e p = Some x)"
proof
  assume "x \<in> set (all_wms f)"
  then obtain e m p where em: "(e, m) \<in> set (fet_last_processed_wm f)" and pm: "(p, x) \<in> set m"
    by (auto simp: all_wms_def)
  from em assms have "hm_get (fet_last_processed_wm f) e = Some m" by (simp add: fet_inv_def hm_get_iff)
  moreover from this assms have "hm_wf m" by (auto simp: fet_inv_def)
  ultimately have "wm_at f e p = Some x" using pm by (simp add: wm_at_def hm_get_iff)
  then show "\<exists>e p. wm_at f e p = Some x" by blast
next
  assume "\<exists>e p. wm_at f e p = Some x"
  then show "x \<in> set (all_wms f)"
    by (force simp: wm_at_def all_wms_def bind_eq_Some_conv dest!: hm_get_in_set)
qed

lemma get_watermark_le:
  assumes "fet_inv parts f" and "wm_at f e p = Some x"
  shows "get_watermark f \<le> from_timestamp_millis x"
proof -
  from assms have "-1 \<le> x" by (auto simp: fet_inv_def wm_at_def bind_eq_Some_conv)
  moreover have "fold min (all_wms f) i64_MAX \<le> x"
    using assms all_wms_iff [OF assms(1), of x] by (intro fold_min_le_elem) blast
  ultimately show ?thesis by (simp add: get_watermark_eq Let_def)
qed

lemma get_watermark_attained:
  assumes "fet_inv parts f" and "wm_at f e p = Some x" and "x < i64_MAX"
  shows "\<exists>e p y. wm_at f e p = Some y \<and> get_watermark f = from_timestamp_millis y"
proof -
  let ?m = "fold min (all_wms f) i64_MAX"
  have "?m \<le> x"
    using assms all_wms_iff [OF assms(1), of x] by (intro fold_min_le_elem) blast
  with assms(3) have "?m \<noteq> i64_MAX" by simp
  with fold_min_in [of "all_wms f" i64_MAX] have "?m \<in> set (all_wms f)" by simp
  with all_wms_iff [OF assms(1)] \<open>?m \<noteq> i64_MAX\<close> show ?thesis by (auto simp: get_watermark_eq Let_def)
qed

lemma get_watermark_le_MAX: "get_watermark f \<le> from_timestamp_millis i64_MAX"
  using fold_min_le [of "all_wms f" i64_MAX]
  by (auto simp: get_watermark_eq Let_def i64_MAX_def)

section \<open>The head idle message\<close>

definition idle_head :: "u16 \<Rightarrow> processor \<Rightarrow> wmb option" where
  "idle_head q p = (case Option.bind (hm_get (proc_timelines p) q) get_head_wmb of
     Some h \<Rightarrow> if wmb_idle h then Some h else None | None \<Rightarrow> None)"

definition active_processors :: "processors \<Rightarrow> processor list" where
  "active_processors ps = filter is_active (hm_values ps)"

text \<open>An accumulator is a smallest message of a set.\<close>

definition least_wmb :: "wmb option \<Rightarrow> wmb set \<Rightarrow> bool" where
  "least_wmb acc H = (case acc of
     None \<Rightarrow> H = {} | Some w \<Rightarrow> w \<in> H \<and> (\<forall>h \<in> H. wmb_watermark w \<le> wmb_watermark h))"

lemma least_wmb_min:
  "least_wmb acc H \<Longrightarrow> least_wmb (Some w) K \<Longrightarrow> least_wmb (Some (min_wmb acc w)) (H \<union> K)"
  by (fastforce simp: least_wmb_def min_wmb_def split: option.splits)

lemma edge_idle_wmb_cases:
  assumes "least_wmb acc H"
  shows "(edge_idle_wmb q ps acc = None \<and> (\<exists>p \<in> set ps. idle_head q p = None)) \<or>
    (\<exists>r. edge_idle_wmb q ps acc = Some r \<and> (\<forall>p \<in> set ps. idle_head q p \<noteq> None) \<and>
      least_wmb r (H \<union> (the \<circ> idle_head q) ` set ps))"
  using assms
proof (induction ps arbitrary: acc H)
  case (Cons p ps)
  show ?case
  proof (cases "idle_head q p")
    case None
    then have "edge_idle_wmb q (p # ps) acc = None"
      by (auto simp: idle_head_def split: option.splits if_splits)
    with None show ?thesis by simp
  next
    case (Some h)
    then have eq: "edge_idle_wmb q (p # ps) acc = edge_idle_wmb q ps (Some (min_wmb acc h))"
      by (auto simp: idle_head_def split: option.splits if_splits)
    have "least_wmb (Some (min_wmb acc h)) (H \<union> {h})"
      by (rule least_wmb_min [OF Cons.prems]) (simp add: least_wmb_def)
    from Cons.IH [OF this] Some eq show ?thesis by auto
  qed
qed simp

lemma idle_head_ge:
  assumes "pm_inv qs ps" and "p \<in> set (active_processors ps)" and "idle_head q p = Some h"
  shows "-1 \<le> wmb_watermark h" and "q \<in> set qs"
proof -
  from assms(2) obtain n where "(n, p) \<in> set ps" by (auto simp: active_processors_def)
  with assms(1) have inv: "processor_inv qs n p" by (auto simp: pm_inv_def hm_get_iff)
  from assms(3) obtain t where t: "hm_get (proc_timelines p) q = Some t" "get_head_wmb t = Some h"
    by (auto simp: idle_head_def bind_eq_Some_conv split: option.splits if_splits)
  with inv have "timeline_inv t" by (auto simp: processor_inv_def)
  with t(2) show "-1 \<le> wmb_watermark h"
    by (auto simp: get_head_wmb_def timeline_inv_def split: list.splits)
  from inv t(1) show "q \<in> set qs" by (auto simp: processor_inv_def)
qed

definition edge_actives :: "(string \<times> processors) list \<Rightarrow> processor set" where
  "edge_actives eps = (\<Union>(e, ps) \<in> set eps. set (active_processors ps))"

lemma head_idle_edges_Cons:
  "head_idle_edges q ((edge, ps) # eps) acc f =
     (case edge_idle_wmb q (active_processors ps) None of
        None \<Rightarrow> Some (f, None)
      | Some None \<Rightarrow> head_idle_edges q eps acc f
      | Some (Some w) \<Rightarrow>
          Option.bind (set_last_processed edge q (wmb_watermark w) f)
            (head_idle_edges q eps (Some (min_wmb acc w))))"
  by (simp add: active_processors_def)

lemma head_idle_edges_spec:
  assumes "fet_inv parts f" and "least_wmb acc H"
    and "\<forall>(e, ps) \<in> set eps. hm_get (fet_processor_managers f) e = Some ps"
  shows "\<exists>f' r. head_idle_edges q eps acc f = Some (f', r) \<and> fet_inv parts f' \<and>
    fet_processor_managers f' = fet_processor_managers f \<and>
    (if \<forall>p \<in> edge_actives eps. idle_head q p \<noteq> None
     then least_wmb r (H \<union> (the \<circ> idle_head q) ` edge_actives eps) else r = None)"
  using assms
proof (induction eps arbitrary: acc f H)
  case Nil
  then show ?case by (auto simp: edge_actives_def)
next
  case (Cons ep eps)
  obtain edge ps where ep: "ep = (edge, ps)" by fastforce
  with Cons.prems(3) have get: "hm_get (fet_processor_managers f) edge = Some ps"
    and rest: "\<forall>(e, ps) \<in> set eps. hm_get (fet_processor_managers f) e = Some ps" by simp_all
  have pm: "pm_inv (parts edge) ps" using get Cons.prems(1) by (auto simp: fet_inv_def)
  let ?A = "set (active_processors ps)"
  have acts: "edge_actives (ep # eps) = ?A \<union> edge_actives eps" by (simp add: edge_actives_def ep)
  have "least_wmb None {}" by (simp add: least_wmb_def)
  from edge_idle_wmb_cases [OF this, of q "active_processors ps"] consider
      (busy) "edge_idle_wmb q (active_processors ps) None = None" "\<exists>p \<in> ?A. idle_head q p = None"
    | (idle) r where "edge_idle_wmb q (active_processors ps) None = Some r"
        "\<forall>p \<in> ?A. idle_head q p \<noteq> None" "least_wmb r ((the \<circ> idle_head q) ` ?A)" by auto
  then show ?case
  proof cases
    case busy
    then have "head_idle_edges q (ep # eps) acc f = Some (f, None)"
      by (simp add: ep head_idle_edges_Cons del: head_idle_edges.simps)
    moreover have no: "\<not> (\<forall>p \<in> edge_actives (ep # eps). idle_head q p \<noteq> None)"
      using busy(2) acts by blast
    ultimately show ?thesis unfolding if_not_P [OF no] using Cons.prems(1) by simp
  next
    case idle
    show ?thesis
    proof (cases r)
      case None
      with idle(3) have "?A = {}" by (simp add: least_wmb_def)
      then have eq: "edge_actives (ep # eps) = edge_actives eps" using acts by simp
      have "head_idle_edges q (ep # eps) acc f = head_idle_edges q eps acc f"
        using idle(1) None by (simp add: ep head_idle_edges_Cons del: head_idle_edges.simps)
      with Cons.IH [OF Cons.prems(1,2) rest] show ?thesis by (simp only: eq)
    next
      case (Some w)
      with idle(3) obtain p where "p \<in> ?A" "the (idle_head q p) = w" by (auto simp: least_wmb_def)
      with idle(2) have p: "p \<in> ?A" "idle_head q p = Some w" by auto
      note b = idle_head_ge [OF pm p]
      show ?thesis
      proof (rule set_last_processed_total [OF Cons.prems(1) get b(2,1)])
        fix f1 assume f1: "set_last_processed edge q (wmb_watermark w) f = Some f1" "fet_inv parts f1"
          "fet_processor_managers f1 = fet_processor_managers f"
        have "least_wmb (Some (min_wmb acc w)) (H \<union> (the \<circ> idle_head q) ` ?A)"
          using least_wmb_min [OF Cons.prems(2)] idle(3) Some by simp
        note IH = Cons.IH [OF f1(2) this, unfolded f1(3), OF rest]
        have "head_idle_edges q (ep # eps) acc f = head_idle_edges q eps (Some (min_wmb acc w)) f1"
          using idle(1) Some f1(1) by (simp add: ep head_idle_edges_Cons del: head_idle_edges.simps)
        moreover have "(\<forall>p \<in> edge_actives (ep # eps). idle_head q p \<noteq> None) \<longleftrightarrow>
            (\<forall>p \<in> edge_actives eps. idle_head q p \<noteq> None)" using acts idle(2) by blast
        moreover have "H \<union> (the \<circ> idle_head q) ` edge_actives (ep # eps) =
            H \<union> (the \<circ> idle_head q) ` ?A \<union> (the \<circ> idle_head q) ` edge_actives eps"
          by (simp only: acts image_Un Un_assoc)
        ultimately show ?thesis using IH by (simp only:)
      qed
    qed
  qed
qed

section \<open>The source fetcher's scan\<close>

definition active_heads :: "u16 \<Rightarrow> processors \<Rightarrow> offset_timeline list" where
  "active_heads q ps = List.map_filter (\<lambda>p. hm_get (proc_timelines p) q) (active_processors ps)"

definition expected_counts :: "processors \<Rightarrow> u32 list" where
  "expected_counts ps =
     List.map_filter (\<lambda>t. Option.bind (get_head_wmb t) wmb_processor_count) (active_heads 0 ps)"

definition max_option :: "u32 list \<Rightarrow> u32 option \<Rightarrow> u32 option" where
  "max_option cs m = fold (\<lambda>c m. Some (case m of None \<Rightarrow> c | Some d \<Rightarrow> max d c)) cs m"

lemma scan_source_fold:
  "fold scan_source ps s =
    \<lparr>ss_min_wm = fold min (map get_head_watermark
        (List.map_filter (\<lambda>p. hm_get (proc_timelines p) 0) (filter is_active ps))) (ss_min_wm s),
     ss_active_processor_count = ss_active_processor_count s + of_nat (length (filter is_active ps)),
     ss_max_expected_count = max_option
        (List.map_filter (\<lambda>t. Option.bind (get_head_wmb t) wmb_processor_count)
          (List.map_filter (\<lambda>p. hm_get (proc_timelines p) 0) (filter is_active ps)))
        (ss_max_expected_count s)\<rparr>"
proof (induction ps arbitrary: s)
  case (Cons p ps)
  have "scan_source p s = (if is_active p
     then \<lparr>ss_min_wm = (case hm_get (proc_timelines p) 0 of
               Some t \<Rightarrow> min (get_head_watermark t) (ss_min_wm s) | None \<Rightarrow> ss_min_wm s),
           ss_active_processor_count = ss_active_processor_count s + 1,
           ss_max_expected_count = (case Option.bind (hm_get (proc_timelines p) 0)
                 (\<lambda>t. Option.bind (get_head_wmb t) wmb_processor_count) of
               Some c \<Rightarrow> max_option [c] (ss_max_expected_count s)
             | None \<Rightarrow> ss_max_expected_count s)\<rparr>
     else s)"
    by (cases s) (auto simp: scan_source_def Let_def min_def max_option_def split: option.splits)
  then show ?case
    by (auto simp: Cons.IH map_filter_simps max_option_def split: option.splits)
qed (simp add: map_filter_simps max_option_def)

lemma max_option_less:
  "(case max_option cs m of Some e \<Rightarrow> n < e | None \<Rightarrow> False) \<longleftrightarrow>
     (\<exists>c \<in> set cs. n < c) \<or> (case m of Some e \<Rightarrow> n < e | None \<Rightarrow> False)"
  by (induction cs arbitrary: m) (auto simp: max_option_def less_max_iff_disj split: option.splits)

lemma fetch_source_watermark_eq:
  "fetch_source_watermark ps = from_timestamp_millis
     (if \<exists>c \<in> set (expected_counts ps). of_nat (length (active_processors ps)) < c then -1
      else let m = fold min (map get_head_watermark (active_heads 0 ps)) i64_MAX
           in if m = i64_MAX then -1 else m)"
proof -
  let ?s = "fold scan_source (hm_values ps) \<lparr>ss_min_wm = i64_MAX, ss_active_processor_count = 0,
    ss_max_expected_count = None\<rparr>"
  have "ss_min_wm ?s = fold min (map get_head_watermark (active_heads 0 ps)) i64_MAX"
    "ss_active_processor_count ?s = of_nat (length (active_processors ps))"
    "ss_max_expected_count ?s = max_option (expected_counts ps) None"
    unfolding scan_source_fold
    by (simp_all add: expected_counts_def active_heads_def active_processors_def)
  then show ?thesis unfolding fetch_source_watermark_def Let_def by (simp only: max_option_less) simp
qed

text \<open>A fetcher on one edge with the processor of the example store.\<close>

definition example_fetcher :: isb_fetcher where
  "example_fetcher = isb_fetcher_new [(''in'', example_processors)]
     [\<lparr>bc_vertex = ''in'', bc_partitions = [0], bc_ot_bucket = ''OT'', bc_delay = None\<rparr>]"

lemma example_fetcher_inv: "fet_inv (\<lambda>_. [0]) example_fetcher"
  using pm_inv_prepopulate [OF example_processors_eq]
  by (auto simp: fet_inv_def example_fetcher_def isb_fetcher_new_def hm_wf_def split: if_splits)

section \<open>Properties\<close>



text \<open>
  C31. A fetch replaces, for every edge, the last processed watermark of the requested partition by
  the smallest event time among the edge's processors (and keeps it when the edge has none),
  leaves the other partitions, and returns the smallest of them all.
\<close>

theorem fetch_watermark_exact:
  assumes "fet_inv parts f" and "fetch_watermark offset q f = Some (f', wm)"
  shows "(\<forall>e p. wm_at f' e p = (case hm_get (fet_processor_managers f) e of
      Some ps \<Rightarrow> if p = q \<and> edge_epoch offset q ps \<noteq> i64_MAX
                then Some (edge_epoch offset q ps) else wm_at f e p
    | None \<Rightarrow> wm_at f e p)) \<and>
    (\<forall>e p y. wm_at f' e p = Some y \<longrightarrow> wm \<le> from_timestamp_millis y) \<and>
    ((\<exists>e p y. wm_at f' e p = Some y \<and> y < i64_MAX) \<longrightarrow>
     (\<exists>e p y. wm_at f' e p = Some y \<and> wm = from_timestamp_millis y))"
proof (rule fetch_watermark_total [OF assms(1), of offset q])
  fix f1 assume f1: "fetch_watermark offset q f = Some (f1, get_watermark f1)" "fet_inv parts f1"
    "\<And>e p. wm_at f1 e p = (case hm_get (fet_processor_managers f) e of
       Some ps \<Rightarrow> if p = q \<and> edge_epoch offset q ps \<noteq> i64_MAX
                 then Some (edge_epoch offset q ps) else wm_at f e p
     | None \<Rightarrow> wm_at f e p)"
  from f1(1) assms(2) have eq: "f1 = f'" "wm = get_watermark f'" by auto
  show ?thesis unfolding eq(2)
    by (intro conjI allI impI)
      (use f1(3) eq get_watermark_le [OF f1(2)] get_watermark_attained [OF f1(2)] in blast)+
qed

theorem fetch_watermark_exact_witness:
  "\<exists>f' wm. fetch_watermark 4 0 example_fetcher = Some (f', wm) \<and> wm_at f' ''in'' 0 = Some 10 \<and>
     wm \<le> from_timestamp_millis 10"
proof -
  from fetch_watermark_total [OF example_fetcher_inv, of 4 0] obtain f' where
    f': "fetch_watermark 4 0 example_fetcher = Some (f', get_watermark f')" by metis
  have "edge_epoch 4 0 example_processors = 10"
    by (simp add: edge_epoch_def event_times_def map_filter_simps example_processors_def
        example_prepopulate get_event_time_def wmb_default_def i64_MAX_def)
  moreover have "hm_get (fet_processor_managers example_fetcher) ''in'' = Some example_processors"
    by (simp add: example_fetcher_def isb_fetcher_new_def)
  ultimately have "wm_at f' ''in'' 0 = Some 10"
    using fetch_watermark_exact [OF example_fetcher_inv f'] by (simp add: i64_MAX_def)
  with fetch_watermark_exact [OF example_fetcher_inv f'] f' show ?thesis by blast
qed

text \<open>
  A fetch forgets a processor exactly when it is marked deleted and the offset is beyond
  everything it published on every partition; every other processor is kept unchanged.
\<close>

theorem fetch_watermark_prunes:
  assumes "fet_inv parts f" and "fetch_watermark offset q f = Some (f', wm)"
    and "hm_get (fet_processor_managers f) e = Some ps" and "hm_get ps n = Some p"
  shows "\<exists>ps'. hm_get (fet_processor_managers f') e = Some ps' \<and>
    hm_get ps' n = (if is_deleted p \<and> max_head_offset p < offset then None else Some p)"
proof (rule fetch_watermark_total [OF assms(1), of offset q])
  fix f1 assume f1: "fetch_watermark offset q f = Some (f1, get_watermark f1)"
    "\<And>e. hm_get (fet_processor_managers f1) e =
      map_option (prune offset) (hm_get (fet_processor_managers f) e)"
  have "hm_wf ps" using assms(1,3) by (auto simp: fet_inv_def pm_inv_def)
  moreover have "prunable offset p \<longleftrightarrow> is_deleted p \<and> max_head_offset p < offset"
    unfolding prunable_def max_head_offset_less by simp
  ultimately show ?thesis
    using f1 assms(2-4) by (simp add: prune_def hm_get_retain)
qed

theorem fetch_watermark_prunes_witness:
  "\<exists>f' wm p. fetch_watermark 4 0 example_fetcher = Some (f', wm) \<and>
     hm_get example_processors ''p0'' = Some p \<and>
     (\<exists>ps'. hm_get (fet_processor_managers f') ''in'' = Some ps' \<and> hm_get ps' ''p0'' = Some p)"
proof -
  from fetch_watermark_total [OF example_fetcher_inv, of 4 0] obtain f' where
    f': "fetch_watermark 4 0 example_fetcher = Some (f', get_watermark f')" by metis
  have mgr: "hm_get (fet_processor_managers example_fetcher) ''in'' = Some example_processors"
    by (simp add: example_fetcher_def isb_fetcher_new_def)
  obtain p where p: "hm_get example_processors ''p0'' = Some p" "\<not> is_deleted p"
    by (simp add: example_processors_def example_prepopulate is_deleted_def)
  from fetch_watermark_prunes [OF example_fetcher_inv f' mgr p(1)] p f' show ?thesis by auto
qed

text \<open>
  C32. The head idle message exists exactly when some processor is active and every active
  processor of every edge is idle at its head for the partition; it is then the head of one of
  them with the smallest watermark.
\<close>

theorem head_idle_all_idle:
  assumes "fet_inv parts f"
  shows "\<exists>f' r. fetch_head_idle_wmb q f = Some (f', r) \<and> fet_inv parts f' \<and>
    (r \<noteq> None \<longleftrightarrow> edge_actives (fet_processor_managers f) \<noteq> {} \<and>
      (\<forall>p \<in> edge_actives (fet_processor_managers f). idle_head q p \<noteq> None)) \<and>
    (\<forall>w. r = Some w \<longrightarrow> (\<exists>p \<in> edge_actives (fet_processor_managers f). idle_head q p = Some w) \<and>
      (\<forall>p \<in> edge_actives (fet_processor_managers f). \<forall>h. idle_head q p = Some h \<longrightarrow>
         wmb_watermark w \<le> wmb_watermark h))"
proof -
  let ?A = "edge_actives (fet_processor_managers f)"
  have "\<forall>(e, ps) \<in> set (fet_processor_managers f). hm_get (fet_processor_managers f) e = Some ps"
    using assms by (auto simp: fet_inv_def hm_get_iff)
  moreover have "least_wmb None {}" by (simp add: least_wmb_def)
  ultimately obtain f' r where f': "fetch_head_idle_wmb q f = Some (f', r)" "fet_inv parts f'"
    and r: "if \<forall>p \<in> ?A. idle_head q p \<noteq> None then least_wmb r ((the \<circ> idle_head q) ` ?A) else r = None"
    using head_idle_edges_spec [OF assms, of None "{}" "fet_processor_managers f" q,
        unfolded Un_empty_left] unfolding fetch_head_idle_wmb_def by blast
  have 1: "r \<noteq> None \<longleftrightarrow> ?A \<noteq> {} \<and> (\<forall>p \<in> ?A. idle_head q p \<noteq> None)"
    using r by (cases r) (auto simp: least_wmb_def split: if_splits)
  have 2: "(\<exists>p \<in> ?A. idle_head q p = Some w) \<and>
      (\<forall>p \<in> ?A. \<forall>h. idle_head q p = Some h \<longrightarrow> wmb_watermark w \<le> wmb_watermark h)" if "r = Some w" for w
    using r that by (fastforce simp: least_wmb_def split: if_splits)
  from f' 1 2 show ?thesis by blast
qed

theorem head_idle_all_idle_witness:
  "\<exists>f' r. fetch_head_idle_wmb 0 example_fetcher = Some (f', r) \<and> r = None"
proof -
  have "\<exists>p \<in> edge_actives (fet_processor_managers example_fetcher). idle_head 0 p = None"
    by (simp add: edge_actives_def active_processors_def example_fetcher_def isb_fetcher_new_def
        example_processors_def example_prepopulate is_active_def idle_head_def get_head_wmb_def wmb_default_def)
  then have no: "\<not> (\<forall>p \<in> edge_actives (fet_processor_managers example_fetcher). idle_head 0 p \<noteq> None)"
    by blast
  from head_idle_all_idle [OF example_fetcher_inv, of 0] obtain f' r where
    f': "fetch_head_idle_wmb 0 example_fetcher = Some (f', r)"
    and iff: "r \<noteq> None \<longleftrightarrow> edge_actives (fet_processor_managers example_fetcher) \<noteq> {} \<and>
      (\<forall>p \<in> edge_actives (fet_processor_managers example_fetcher). idle_head 0 p \<noteq> None)" by blast
  have "r = None" using iff no by satx
  with f' show ?thesis by blast
qed

text \<open>
  C33. The source watermark waits for all processors: it is \<open>-1\<close> while a head message announces more
  processors than are active; otherwise it is at most every active processor's head watermark,
  and equal to one of them when there is one below the maximal time.
\<close>

theorem source_watermark_waits:
  assumes "length (active_processors ps) < 2 ^ 32"
    and "\<forall>t \<in> set (active_heads 0 ps). -1 \<le> get_head_watermark t"
  shows "(if \<exists>c \<in> set (expected_counts ps). length (active_processors ps) < unat c
     then fetch_source_watermark ps = from_timestamp_millis (-1)
     else (\<forall>t \<in> set (active_heads 0 ps).
             fetch_source_watermark ps \<le> from_timestamp_millis (get_head_watermark t)) \<and>
          ((\<exists>t \<in> set (active_heads 0 ps). get_head_watermark t < i64_MAX) \<longrightarrow>
           (\<exists>t \<in> set (active_heads 0 ps).
              fetch_source_watermark ps = from_timestamp_millis (get_head_watermark t))))"
proof -
  let ?ts = "active_heads 0 ps"
  let ?m = "fold min (map get_head_watermark ?ts) i64_MAX"
  have "unat (of_nat (length (active_processors ps)) :: u32) = length (active_processors ps)"
    using assms(1) by (simp add: unat_of_nat take_bit_nat_eq_self)
  then have less: "(of_nat (length (active_processors ps)) :: u32) < c \<longleftrightarrow>
      length (active_processors ps) < unat c" for c by (simp add: word_less_nat_alt)
  have le: "?m \<le> get_head_watermark t" if "t \<in> set ?ts" for t
    using that by (intro fold_min_le_elem) simp
  have mem: "?m = i64_MAX \<or> (\<exists>t \<in> set ?ts. ?m = get_head_watermark t)"
    using fold_min_in [of "map get_head_watermark ?ts" i64_MAX] by auto
  have "?m < i64_MAX" if "t \<in> set ?ts" "get_head_watermark t < i64_MAX" for t
    using le [OF that(1)] that(2) by simp
  with le mem assms(2) show ?thesis
    unfolding fetch_source_watermark_eq less Let_def by fastforce
qed

theorem source_watermark_waits_witness:
  "fetch_source_watermark example_processors \<le> from_timestamp_millis 10"
proof -
  obtain t where heads: "active_heads 0 example_processors = [t]" "get_head_watermark t = 10"
    "get_head_wmb t = Some (wmb_default\<lparr>wmb_offset := 3, wmb_watermark := 10\<rparr>)"
    by (simp add: active_heads_def active_processors_def is_active_def map_filter_simps
        example_processors_def example_prepopulate get_head_watermark_def get_head_wmb_def)
  then have "expected_counts example_processors = []"
    by (simp add: expected_counts_def map_filter_simps wmb_default_def)
  moreover have "length (active_processors example_processors) = 1"
    by (simp add: active_processors_def is_active_def example_processors_def example_prepopulate)
  ultimately show ?thesis
    using source_watermark_waits [of example_processors] heads by simp
qed

end
