(* ===== verification/Message.thy ===== *)
theory Message
  imports Prelude "HOL-Library.Char_ord" "HOL-Library.List_Lexorder"
begin

text \<open>
  Messages (\<^verbatim>\<open>numaflow-core/src/message.rs\<close>, \<^verbatim>\<open>metadata.rs\<close>): offsets and their order, the
  conversion to and from the inter-step-buffer protobuf, and the acknowledgement handle whose
  reference count decides between ACK and NAK. A \<^verbatim>\<open>Bytes\<close> holding text is a \<open>string\<close>. The library
  functions whose code is elsewhere are parameters: \<open>lossy\<close> is \<^verbatim>\<open>String::from_utf8_lossy\<close> and
  \<open>from_timestamp\<close> is \<^verbatim>\<open>chrono\<close>'s constructor of a time from seconds and nanoseconds.
\<close>

section \<open>Offsets\<close>

record int_offset =
  io_offset :: i64
  io_partition_idx :: u16

record string_offset =
  so_offset :: string
  so_partition_idx :: u16

datatype offset = Int_offset int_offset | String_offset string_offset

definition partition_idx :: "offset \<Rightarrow> u16" where
  "partition_idx x =
     (case x of Int_offset i \<Rightarrow> io_partition_idx i | String_offset s \<Rightarrow> so_partition_idx s)"

definition offset_cmp :: "offset \<Rightarrow> offset \<Rightarrow> ordering" where
  "offset_cmp x y =
     (case (x, y) of
        (Int_offset a, Int_offset b) \<Rightarrow> cmp (io_offset a) (io_offset b)
      | (String_offset a, String_offset b) \<Rightarrow> cmp (so_offset a) (so_offset b)
      | _ \<Rightarrow> Equal)"

section \<open>Messages\<close>

datatype message_type = Data | WMB_message

record message_id =
  mid_vertex_name :: string
  mid_offset :: string
  mid_index :: i64

definition message_id_default :: message_id where
  "message_id_default = \<lparr>mid_vertex_name = [], mid_offset = [], mid_index = 0\<rparr>"

record nack_options =
  nack_delay :: "nat option"
  nack_max_deliveries :: "u32 option"
  nack_reason :: "string option"
  nack_map :: "(string, string) hashmap"

type_synonym key_value_group = "(string, bytes) hashmap"

record metadata =
  md_previous_vertex :: string
  md_sys_metadata :: "(string, key_value_group) hashmap"
  md_user_metadata :: "(string, key_value_group) hashmap"

definition metadata_default :: metadata where
  "metadata_default = \<lparr>md_previous_vertex = [], md_sys_metadata = [], md_user_metadata = []\<rparr>"

record message =
  msg_typ :: message_type
  msg_keys :: "string list"
  msg_tags :: "string list option"
  msg_value :: bytes
  msg_offset :: offset
  msg_event_time :: datetime
  msg_watermark :: "datetime option"
  msg_id :: message_id
  msg_headers :: "(string, string) hashmap"
  msg_metadata :: "metadata option"
  msg_is_late :: bool
  msg_nack_options :: "nack_options option"

definition message_default :: "datetime \<Rightarrow> message" where
  "message_default now =
     \<lparr>msg_typ = Data, msg_keys = [], msg_tags = None, msg_value = [],
      msg_offset = Int_offset \<lparr>io_offset = 0, io_partition_idx = 0\<rparr>, msg_event_time = now,
      msg_watermark = None, msg_id = message_id_default, msg_headers = [], msg_metadata = None,
      msg_is_late = False, msg_nack_options = None\<rparr>"

definition has_tag :: "string \<Rightarrow> message \<Rightarrow> bool" where
  "has_tag tag m = (case msg_tags m of None \<Rightarrow> False | Some tags \<Rightarrow> tag \<in> set tags)"

definition dropped :: "message \<Rightarrow> bool" where
  "dropped m = has_tag ''U+005C__DROP__'' m"

definition nacked :: "message \<Rightarrow> bool" where
  "nacked m = has_tag ''U+005C__NACK__'' m"

definition failed :: "message \<Rightarrow> bool" where
  "failed m = has_tag ''U+005C__FAIL__'' m"

definition strip_tracing_udf :: "message \<Rightarrow> message" where
  "strip_tracing_udf m = m\<lparr>msg_metadata := map_option (\<lambda>md.
     md\<lparr>md_sys_metadata := hm_remove ''tracing_udf'' (md_sys_metadata md)\<rparr>) (msg_metadata m)\<rparr>"

text \<open>The bytes of a text.\<close>

definition bytes_of :: "string \<Rightarrow> bytes" where
  "bytes_of cs = map (\<lambda>c. of_nat (of_char c)) cs"

definition md_set_sink_retry_count :: "nat \<Rightarrow> metadata \<Rightarrow> metadata" where
  "md_set_sink_retry_count count md =
     (let grp = (case hm_get (md_sys_metadata md) ''sink'' of Some g \<Rightarrow> g | None \<Rightarrow> [])
      in md\<lparr>md_sys_metadata :=
           hm_insert ''sink'' (hm_insert ''retry_count'' (bytes_of (show_nat count)) grp) (md_sys_metadata md)\<rparr>)"

definition set_sink_retry_count :: "nat \<Rightarrow> message \<Rightarrow> message" where
  "set_sink_retry_count count m =
     (let md = (case msg_metadata m of Some md \<Rightarrow> md | None \<Rightarrow> metadata_default)
      in m\<lparr>msg_metadata := Some (md_set_sink_retry_count count md)\<rparr>)"

section \<open>The inter-step-buffer protobuf\<close>

record timestamp =
  ts_seconds :: i64
  ts_nanos :: i64

record proto_message_info =
  pmi_event_time :: "timestamp option"
  pmi_is_late :: bool

record proto_header =
  ph_message_info :: "proto_message_info option"
  ph_kind :: i64
  ph_id :: "message_id option"
  ph_keys :: "string list"
  ph_headers :: "(string, string) hashmap"
  ph_metadata :: "metadata option"

record proto_message =
  pm_header :: "proto_header option"
  pm_body :: "bytes option"

record gc_event =
  gc_start_time :: "timestamp option"
  gc_end_time :: "timestamp option"
  gc_keys :: "string list"

datatype error = Error_Proto string | Error_Source string | Error_DuplicateInflight offset

definition prost_timestamp_from_utc :: "datetime \<Rightarrow> timestamp" where
  "prost_timestamp_from_utc t = \<lparr>ts_seconds = t div 1000000000, ts_nanos = t mod 1000000000\<rparr>"

text \<open>The cast of the \<^verbatim>\<open>i32\<close> nanoseconds to \<^verbatim>\<open>u32\<close> is reduction modulo \<open>2 ^ 32\<close>.\<close>

definition utc_from_timestamp :: "(i64 \<Rightarrow> nat \<Rightarrow> datetime option) \<Rightarrow> timestamp \<Rightarrow> datetime" where
  "utc_from_timestamp from_timestamp t =
     (case from_timestamp (ts_seconds t) (nat (ts_nanos t mod 2 ^ 32)) of Some d \<Rightarrow> d | None \<Rightarrow> -1)"

definition message_type_to_i32 :: "message_type \<Rightarrow> i64" where
  "message_type_to_i32 k = (case k of Data \<Rightarrow> 0 | WMB_message \<Rightarrow> 1)"

definition message_type_from_i32 :: "i64 \<Rightarrow> message_type" where
  "message_type_from_i32 k = (if k = 0 then Data else WMB_message)"

definition message_id_to_proto :: "(string \<Rightarrow> string) \<Rightarrow> message_id \<Rightarrow> message_id" where
  "message_id_to_proto lossy i = \<lparr>mid_vertex_name = lossy (mid_vertex_name i),
     mid_offset = lossy (mid_offset i), mid_index = mid_index i\<rparr>"

text \<open>The message of \<^verbatim>\<open>TryFrom<Message> for BytesMut\<close>, before the library encodes it.\<close>

definition message_to_isb_proto :: "(string \<Rightarrow> string) \<Rightarrow> string \<Rightarrow> message \<Rightarrow> proto_message" where
  "message_to_isb_proto lossy vertex_name m =
     \<lparr>pm_header = Some
        \<lparr>ph_message_info = Some \<lparr>pmi_event_time = Some (prost_timestamp_from_utc (msg_event_time m)),
           pmi_is_late = msg_is_late m\<rparr>,
         ph_kind = message_type_to_i32 (msg_typ m),
         ph_id = Some (message_id_to_proto lossy (msg_id m)),
         ph_keys = msg_keys m, ph_headers = msg_headers m,
         ph_metadata = map_option (\<lambda>md. md\<lparr>md_previous_vertex := vertex_name\<rparr>) (msg_metadata m)\<rparr>,
      pm_body = Some (msg_value m)\<rparr>"

definition message_from_isb_proto ::
    "(i64 \<Rightarrow> nat \<Rightarrow> datetime option) \<Rightarrow> proto_message \<Rightarrow> offset \<Rightarrow> error + message" where
  "message_from_isb_proto from_timestamp proto offset =
     (case pm_header proto of
        None \<Rightarrow> Inl (Error_Proto ''Missing header'')
      | Some header \<Rightarrow>
     (case pm_body proto of
        None \<Rightarrow> Inl (Error_Proto ''Missing body'')
      | Some payload \<Rightarrow>
     (case ph_message_info header of
        None \<Rightarrow> Inl (Error_Proto ''Missing message_info'')
      | Some message_info \<Rightarrow>
     (case pmi_event_time message_info of
        None \<Rightarrow> Inl (Error_Proto ''Missing event_time'')
      | Some event_time \<Rightarrow>
          Inr \<lparr>msg_typ = message_type_from_i32 (ph_kind header), msg_keys = ph_keys header,
            msg_tags = None, msg_value = payload, msg_offset = offset,
            msg_event_time = utc_from_timestamp from_timestamp event_time, msg_watermark = None,
            msg_id = (case ph_id header of Some i \<Rightarrow> i | None \<Rightarrow> message_id_default),
            msg_headers = ph_headers header, msg_metadata = ph_metadata header,
            msg_is_late = pmi_is_late message_info, msg_nack_options = None\<rparr>))))"

section \<open>Acknowledgement\<close>

datatype read_ack = Ack | Nak "nack_options option"

text \<open>
  The shared \<open>AckHandle\<close>; \<open>ah_live\<close> is the number of \<open>MessageHandle\<close>s that hold it, the strong count
  of its \<^verbatim>\<open>Arc\<close>, and \<open>ah_sent\<close> is what went into the one-shot channel. A \<^verbatim>\<open>OnceLock\<close> keeps the
  first value it is given. The tracing span has no influence on the acknowledgement.
\<close>

record ack_handle =
  ah_sender :: bool
  ah_ref_count :: "64 word"
  ah_failure_reason :: "string option"
  ah_nack_options :: "nack_options option"
  ah_live :: nat
  ah_sent :: "read_ack list"

definition ack_handle_new :: ack_handle where
  "ack_handle_new = \<lparr>ah_sender = True, ah_ref_count = 1, ah_failure_reason = None,
     ah_nack_options = None, ah_live = 1, ah_sent = []\<rparr>"

definition message_handle_from :: ack_handle where
  "message_handle_from = \<lparr>ah_sender = False, ah_ref_count = 0, ah_failure_reason = None,
     ah_nack_options = None, ah_live = 1, ah_sent = []\<rparr>"

definition once_set :: "'a \<Rightarrow> 'a option \<Rightarrow> 'a option" where
  "once_set x cell = (case cell of None \<Rightarrow> Some x | Some y \<Rightarrow> Some y)"

definition ack_handle_drop :: "ack_handle \<Rightarrow> ack_handle" where
  "ack_handle_drop h =
     (if ah_sender h
      then h\<lparr>ah_sender := False, ah_sent := ah_sent h @
             [if ah_ref_count h \<noteq> 0 then Nak (ah_nack_options h) else Ack]\<rparr>
      else h)"

text \<open>Giving up one \<open>MessageHandle\<close>: the last one drops the \<open>AckHandle\<close>.\<close>

definition release :: "ack_handle \<Rightarrow> ack_handle" where
  "release h =
     (let h = h\<lparr>ah_live := ah_live h - 1\<rparr> in if ah_live h = 0 then ack_handle_drop h else h)"

definition handle_clone :: "ack_handle \<Rightarrow> ack_handle" where
  "handle_clone h = h\<lparr>ah_ref_count := ah_ref_count h + 1, ah_live := ah_live h + 1\<rparr>"

definition with_message :: "ack_handle \<Rightarrow> ack_handle" where
  "with_message h = h\<lparr>ah_ref_count := ah_ref_count h + 1, ah_live := ah_live h + 1\<rparr>"

definition mark_success :: "ack_handle \<Rightarrow> ack_handle" where
  "mark_success h = release (h\<lparr>ah_ref_count := ah_ref_count h - 1\<rparr>)"

definition mark_failed :: "string \<Rightarrow> nack_options option \<Rightarrow> ack_handle \<Rightarrow> ack_handle" where
  "mark_failed reason opt h =
     (let h = h\<lparr>ah_failure_reason := once_set reason (ah_failure_reason h)\<rparr>;
          h = (case opt of
                 None \<Rightarrow> h
               | Some x \<Rightarrow> h\<lparr>ah_nack_options := once_set x (ah_nack_options h)\<rparr>)
      in release h)"

text \<open>
  The life of a handle: its copies are cloned, fanned out, marked and dropped in any order, by
  whichever task holds them; an event needs a copy that is still held.
\<close>

datatype ack_event = Clone | Fan_out | Succeed | Fail string "nack_options option" | Abandon

inductive ack_step :: "ack_handle \<Rightarrow> ack_event \<Rightarrow> ack_handle \<Rightarrow> bool" where
  "0 < ah_live h \<Longrightarrow> ack_step h Clone (handle_clone h)"
| "0 < ah_live h \<Longrightarrow> ack_step h Fan_out (with_message h)"
| "0 < ah_live h \<Longrightarrow> ack_step h Succeed (mark_success h)"
| "0 < ah_live h \<Longrightarrow> ack_step h (Fail r opt) (mark_failed r opt h)"
| "0 < ah_live h \<Longrightarrow> ack_step h Abandon (release h)"

inductive ack_run :: "ack_handle \<Rightarrow> ack_event list \<Rightarrow> ack_handle \<Rightarrow> bool" for h where
  nil: "ack_run h [] h"
| snoc: "ack_run h es h1 \<Longrightarrow> ack_step h1 e h2 \<Longrightarrow> ack_run h (es @ [e]) h2"

definition adds_copy :: "ack_event \<Rightarrow> bool" where
  "adds_copy e = (case e of Clone \<Rightarrow> True | Fan_out \<Rightarrow> True | _ \<Rightarrow> False)"

definition loses_copy :: "ack_event \<Rightarrow> bool" where
  "loses_copy e = (case e of Fail _ _ \<Rightarrow> True | Abandon \<Rightarrow> True | _ \<Rightarrow> False)"

definition fail_options :: "ack_event list \<Rightarrow> nack_options list" where
  "fail_options es = concat (map (\<lambda>e. case e of Fail _ (Some x) \<Rightarrow> [x] | _ \<Rightarrow> []) es)"

definition first_of :: "'a list \<Rightarrow> 'a option" where
  "first_of xs = (case xs of [] \<Rightarrow> None | x # _ \<Rightarrow> Some x)"

lemma first_of_snoc: "first_of (xs @ [x]) = once_set x (first_of xs)"
  by (cases xs) (simp_all add: first_of_def once_set_def)

lemma fail_options_snoc:
  "fail_options (es @ [e]) = fail_options es @ (case e of Fail _ (Some x) \<Rightarrow> [x] | _ \<Rightarrow> [])"
  by (simp add: fail_options_def)

section \<open>Invariant of the handle\<close>

text \<open>
  The copies still held and those given up without success make up the reference count, and the
  channel is used exactly when the last copy goes.
\<close>

definition ack_inv :: "ack_event list \<Rightarrow> ack_handle \<Rightarrow> bool" where
  "ack_inv es h \<longleftrightarrow>
     (let lost = length (filter loses_copy es)
      in ah_live h + lost \<le> 1 + length (filter adds_copy es) \<and>
         ah_ref_count h = of_nat (ah_live h + lost) \<and>
         ah_nack_options h = first_of (fail_options es) \<and>
         (ah_sender h \<longleftrightarrow> 0 < ah_live h) \<and>
         ah_sent h = (if 0 < ah_live h then []
                      else [if (of_nat lost :: 64 word) \<noteq> 0 then Nak (ah_nack_options h) else Ack]))"

lemma ack_inv_step:
  assumes "ack_inv es h" and "ack_step h e h'"
  shows "ack_inv (es @ [e]) h'"
  using assms(2)
proof cases
  case 1
  with assms(1) show ?thesis
    by (simp add: ack_inv_def Let_def handle_clone_def fail_options_snoc loses_copy_def adds_copy_def)
next
  case 2
  with assms(1) show ?thesis
    by (simp add: ack_inv_def Let_def with_message_def fail_options_snoc loses_copy_def adds_copy_def)
next
  case 3
  with assms(1) show ?thesis
    by (cases "ah_live h")
      (auto simp: ack_inv_def Let_def mark_success_def release_def ack_handle_drop_def
        fail_options_snoc loses_copy_def adds_copy_def)
next
  case (4 r opt)
  with assms(1) show ?thesis
    by (cases "ah_live h"; cases opt)
      (auto simp: ack_inv_def Let_def mark_failed_def release_def ack_handle_drop_def
        fail_options_snoc first_of_snoc loses_copy_def adds_copy_def)
next
  case 5
  with assms(1) show ?thesis
    by (cases "ah_live h")
      (auto simp: ack_inv_def Let_def release_def ack_handle_drop_def
        fail_options_snoc loses_copy_def adds_copy_def)
qed

lemma ack_inv_run: "ack_run ack_handle_new es h \<Longrightarrow> ack_inv es h"
proof (induction rule: ack_run.induct)
  case nil
  show ?case by (simp add: ack_inv_def ack_handle_new_def fail_options_def first_of_def)
next
  case snoc
  then show ?case by (blast intro: ack_inv_step)
qed

section \<open>Properties\<close>

text \<open>
  C15. Nothing is sent upstream while a copy of a message is still held, and exactly one
  acknowledgement when the last copy goes, whatever the order of clones, fan-outs and outcomes: an
  ACK when every copy was marked as a success, otherwise a NAK with the first options given.
\<close>

theorem ack_iff_all_success:
  assumes "ack_run ack_handle_new es h" and "length es < 2 ^ 64"
  shows "ah_sent h = (if 0 < ah_live h then []
    else if \<exists>e \<in> set es. loses_copy e then [Nak (first_of (fail_options es))] else [Ack])"
proof -
  have inv: "ack_inv es h" by (rule ack_inv_run [OF assms(1)])
  let ?lost = "length (filter loses_copy es)"
  have "?lost < 2 ^ 64" by (rule le_less_trans [OF length_filter_le assms(2)])
  then have "unat (of_nat ?lost :: 64 word) = ?lost"
    by (simp add: unat_of_nat take_bit_nat_eq_self)
  then have "(of_nat ?lost :: 64 word) \<noteq> 0 \<longleftrightarrow> ?lost \<noteq> 0" by (metis unat_0 unat_eq_zero)
  moreover have "?lost \<noteq> 0 \<longleftrightarrow> (\<exists>e \<in> set es. loses_copy e)" by (simp add: filter_empty_conv)
  ultimately show ?thesis using inv by (simp add: ack_inv_def Let_def)
qed

theorem ack_iff_all_success_witness:
  "\<exists>h. ack_run ack_handle_new [Clone, Succeed, Fail ''boom'' None] h \<and> ah_live h = 0 \<and>
     ah_sent h = [Nak None]"
proof -
  let ?h1 = "handle_clone ack_handle_new" let ?h2 = "mark_success ?h1"
  let ?h3 = "mark_failed ''boom'' None ?h2"
  have 1: "ack_run ack_handle_new [Clone] ?h1"
    using ack_run.snoc [OF ack_run.nil ack_step.intros(1)] by (simp add: ack_handle_new_def)
  have live: "ah_live ?h1 = 2" "ah_live ?h2 = 1" "ah_live ?h3 = 0"
    by (simp_all add: ack_handle_new_def handle_clone_def mark_success_def mark_failed_def
        release_def ack_handle_drop_def)
  have 2: "ack_run ack_handle_new ([Clone] @ [Succeed]) ?h2"
    by (rule ack_run.snoc [OF 1 ack_step.intros(3)]) (simp add: live)
  have 3: "ack_run ack_handle_new (([Clone] @ [Succeed]) @ [Fail ''boom'' None]) ?h3"
    by (rule ack_run.snoc [OF 2 ack_step.intros(4)]) (simp add: live)
  from ack_iff_all_success [OF 3] live(3) have "ah_sent ?h3 = [Nak None]"
    by (simp add: loses_copy_def fail_options_def first_of_def)
  with 3 live(3) show ?thesis by (intro exI [of _ ?h3]) simp
qed

text \<open>
  The times \<^verbatim>\<open>chrono\<close> represents, and what the code relies on of its constructor: it gives back the
  time of a second and a nanosecond in that range.
\<close>

definition representable :: "datetime \<Rightarrow> bool" where
  "representable t \<longleftrightarrow> -8334601228800 \<le> t div 1000000000 \<and> t div 1000000000 \<le> 8210266876799"

definition decodes_timestamps :: "(i64 \<Rightarrow> nat \<Rightarrow> datetime option) \<Rightarrow> bool" where
  "decodes_timestamps from_timestamp \<longleftrightarrow>
     (\<forall>s n. n < 1000000000 \<longrightarrow> -8334601228800 \<le> s \<longrightarrow> s \<le> 8210266876799 \<longrightarrow>
        from_timestamp s n = Some (s * 1000000000 + int n))"

lemma decodes_timestamps_example: "decodes_timestamps (\<lambda>s n. Some (s * 1000000000 + int n))"
  by (simp add: decodes_timestamps_def)

lemma timestamp_roundtrip:
  assumes "decodes_timestamps from_timestamp" and "representable t"
  shows "utc_from_timestamp from_timestamp (prost_timestamp_from_utc t) = t"
proof -
  have nanos: "0 \<le> t mod 1000000000" "t mod 1000000000 < 1000000000" by simp_all
  then have "from_timestamp (t div 1000000000) (nat (t mod 1000000000)) =
      Some (t div 1000000000 * 1000000000 + t mod 1000000000)"
    using assms by (simp add: decodes_timestamps_def representable_def)
  moreover have "t mod 1000000000 mod 4294967296 = t mod 1000000000"
    using nanos by (intro mod_pos_pos_trivial) linarith+
  ultimately show ?thesis by (simp add: utc_from_timestamp_def prost_timestamp_from_utc_def)
qed

text \<open>
  A message survives the inter-step buffer: what the next vertex decodes is the message that
  was written, with the broker's offset, the writing vertex as previous vertex, and without the
  tags, watermark and nack options, which are not persisted.
\<close>

theorem message_roundtrip:
  assumes "decodes_timestamps from_timestamp" and "representable (msg_event_time m)"
    and "lossy (mid_vertex_name (msg_id m)) = mid_vertex_name (msg_id m)"
    and "lossy (mid_offset (msg_id m)) = mid_offset (msg_id m)"
  shows "message_from_isb_proto from_timestamp (message_to_isb_proto lossy vertex_name m) off =
    Inr (m\<lparr>msg_tags := None, msg_offset := off, msg_watermark := None,
      msg_metadata := map_option (\<lambda>md. md\<lparr>md_previous_vertex := vertex_name\<rparr>) (msg_metadata m),
      msg_nack_options := None\<rparr>)"
proof -
  have "message_type_from_i32 (message_type_to_i32 (msg_typ m)) = msg_typ m"
    by (cases "msg_typ m") (simp_all add: message_type_from_i32_def message_type_to_i32_def)
  with timestamp_roundtrip [OF assms(1,2)] assms(3,4) show ?thesis
    by (simp add: message_from_isb_proto_def message_to_isb_proto_def message_id_to_proto_def)
qed

theorem message_roundtrip_witness:
  "message_from_isb_proto (\<lambda>x n. Some (x * 1000000000 + int n))
     (message_to_isb_proto (\<lambda>x. x) ''map'' ((message_default 1500000000)\<lparr>msg_tags := Some [''a'']\<rparr>))
     (Int_offset \<lparr>io_offset = 7, io_partition_idx = 0\<rparr>) =
   Inr ((message_default 1500000000)\<lparr>msg_offset := Int_offset \<lparr>io_offset = 7, io_partition_idx = 0\<rparr>\<rparr>)"
  by (subst message_roundtrip [OF decodes_timestamps_example])
    (simp_all add: message_default_def representable_def)

end
