(* ===== verification/OrderedMap.thy ===== *)
theory OrderedMap
  imports Prelude
begin

text \<open>
  The standard library's \<^verbatim>\<open>BTreeMap\<close> over a key type with its own \<^verbatim>\<open>Ord\<close>: a list of entries in
  ascending order of the comparison. The operations search the list as the tree does, with the
  comparison only; what they promise needs the comparison to be a total order on the keys in use,
  which is the contract \<open>comparator\<close>.
\<close>

section \<open>Operations\<close>

type_synonym ('k, 'v) btree_map = "('k \<times> 'v) list"

fun bm_get :: "('k \<Rightarrow> 'k \<Rightarrow> ordering) \<Rightarrow> 'k \<Rightarrow> ('k, 'v) btree_map \<Rightarrow> 'v option" where
  "bm_get c k [] = None"
| "bm_get c k ((k', v) # m) =
     (case c k k' of Less \<Rightarrow> None | Equal \<Rightarrow> Some v | Greater \<Rightarrow> bm_get c k m)"

text \<open>Inserting under a key that is present replaces the value and keeps the old key.\<close>

fun bm_insert :: "('k \<Rightarrow> 'k \<Rightarrow> ordering) \<Rightarrow> 'k \<Rightarrow> 'v \<Rightarrow> ('k, 'v) btree_map \<Rightarrow> ('k, 'v) btree_map" where
  "bm_insert c k v [] = [(k, v)]"
| "bm_insert c k v ((k', v') # m) =
     (case c k k' of
        Less \<Rightarrow> (k, v) # (k', v') # m
      | Equal \<Rightarrow> (k', v) # m
      | Greater \<Rightarrow> (k', v') # bm_insert c k v m)"

fun bm_remove :: "('k \<Rightarrow> 'k \<Rightarrow> ordering) \<Rightarrow> 'k \<Rightarrow> ('k, 'v) btree_map \<Rightarrow> ('k, 'v) btree_map" where
  "bm_remove c k [] = []"
| "bm_remove c k ((k', v) # m) =
     (case c k k' of Less \<Rightarrow> (k', v) # m | Equal \<Rightarrow> m | Greater \<Rightarrow> (k', v) # bm_remove c k m)"

definition bm_contains :: "('k \<Rightarrow> 'k \<Rightarrow> ordering) \<Rightarrow> 'k \<Rightarrow> ('k, 'v) btree_map \<Rightarrow> bool" where
  "bm_contains c k m \<longleftrightarrow> bm_get c k m \<noteq> None"

definition bm_first :: "('k, 'v) btree_map \<Rightarrow> ('k \<times> 'v) option" where
  "bm_first m = (case m of [] \<Rightarrow> None | e # _ \<Rightarrow> Some e)"

text \<open>A map in order, with keys from a given set.\<close>

definition bm_wf :: "('k \<Rightarrow> 'k \<Rightarrow> ordering) \<Rightarrow> 'k set \<Rightarrow> ('k, 'v) btree_map \<Rightarrow> bool" where
  "bm_wf c K m \<longleftrightarrow> fst ` set m \<subseteq> K \<and> sorted_wrt (\<lambda>a b. c (fst a) (fst b) = Less) m"

section \<open>The contract\<close>

locale comparator =
  fixes c :: "'k \<Rightarrow> 'k \<Rightarrow> ordering" and K :: "'k set"
  assumes refl_law: "x \<in> K \<Longrightarrow> y \<in> K \<Longrightarrow> c x y = Equal \<longleftrightarrow> x = y"
    and flip_law: "x \<in> K \<Longrightarrow> y \<in> K \<Longrightarrow> c x y = Greater \<longleftrightarrow> c y x = Less"
    and trans_law: "x \<in> K \<Longrightarrow> y \<in> K \<Longrightarrow> z \<in> K \<Longrightarrow> c x y = Less \<Longrightarrow> c y z = Less \<Longrightarrow> c x z = Less"
begin

lemma wf_Nil [simp]: "bm_wf c K []"
  by (simp add: bm_wf_def)

lemma wf_Cons [simp]:
  "bm_wf c K (e # m) \<longleftrightarrow> fst e \<in> K \<and> bm_wf c K m \<and> (\<forall>b \<in> set m. c (fst e) (fst b) = Less)"
  by (auto simp: bm_wf_def)

lemma get_iff:
  assumes "k \<in> K" and "bm_wf c K m"
  shows "bm_get c k m = Some v \<longleftrightarrow> (k, v) \<in> set m"
  using assms(2)
proof (induction m)
  case (Cons e m)
  obtain k' v' where e: "e = (k', v')" by fastforce
  have k': "k' \<in> K" and m: "bm_wf c K m" and less: "\<forall>b \<in> set m. c k' (fst b) = Less"
    and keys: "fst ` set m \<subseteq> K" using Cons.prems e by (auto simp: bm_wf_def)
  show ?case
  proof (cases "c k k'")
    case Less
    then have "k \<noteq> k'" using refl_law [of k k'] assms(1) k' by auto
    moreover have "(k, w) \<notin> set m" for w
      using Less less trans_law [of k k' k] refl_law [of k k] assms(1) k' by force
    ultimately show ?thesis using Less e by auto
  next
    case Equal
    then have eq: "k = k'" using refl_law assms(1) k' by simp
    have "(k, w) \<notin> set m" for w
      using less eq refl_law [of k k] assms(1) by force
    with Equal eq e show ?thesis by auto
  next
    case Greater
    then have "k \<noteq> k'" using refl_law [of k k'] assms(1) k' by auto
    with Greater e Cons.IH m show ?thesis by auto
  qed
qed simp

lemma get_None_iff:
  "k \<in> K \<Longrightarrow> bm_wf c K m \<Longrightarrow> bm_get c k m = None \<longleftrightarrow> k \<notin> fst ` set m"
  using get_iff [of k m] by (cases "bm_get c k m") (force simp: image_iff)+

lemma keys_insert:
  assumes "k \<in> K" and "bm_wf c K m"
  shows "fst ` set (bm_insert c k v m) = insert k (fst ` set m)"
  using assms(2)
proof (induction m)
  case (Cons e m)
  then show ?case
    using refl_law [of k "fst e"] assms(1) by (cases e) (auto split: ordering.splits)
qed simp

lemma wf_insert:
  assumes "k \<in> K" and "bm_wf c K m"
  shows "bm_wf c K (bm_insert c k v m)"
  using assms(2)
proof (induction m)
  case Nil
  then show ?case using assms(1) by simp
next
  case (Cons e m)
  obtain k' v' where e: "e = (k', v')" by fastforce
  have k': "k' \<in> K" and m: "bm_wf c K m" and less: "\<forall>b \<in> set m. c k' (fst b) = Less"
    and keys: "\<forall>b \<in> set m. fst b \<in> K" using Cons.prems e by (auto simp: bm_wf_def)
  show ?case
  proof (cases "c k k'")
    case Less
    then have "\<forall>b \<in> set m. c k (fst b) = Less"
      using less keys trans_law [of k k'] assms(1) k' by blast
    with Less m e less k' assms(1) show ?thesis by simp
  next
    case Equal
    with m e less k' show ?thesis by simp
  next
    case Greater
    then have "c k' k = Less" using flip_law assms(1) k' by simp
    moreover have "fst b = k \<or> fst b \<in> fst ` set m" if "b \<in> set (bm_insert c k v m)" for b
      using keys_insert [OF assms(1) m, of v] that by blast
    ultimately have "\<forall>b \<in> set (bm_insert c k v m). c k' (fst b) = Less" using less by fastforce
    with Greater Cons.IH [OF m] e k' show ?thesis by simp
  qed
qed

lemma get_insert:
  assumes "k \<in> K" and "x \<in> K" and "bm_wf c K m"
  shows "bm_get c x (bm_insert c k v m) = (if x = k then Some v else bm_get c x m)"
  using assms(3)
proof (induction m)
  case Nil
  then show ?case using refl_law [of x k] assms(1,2) by (cases "c x k") auto
next
  case (Cons e m)
  obtain k' v' where e: "e = (k', v')" by fastforce
  have k': "k' \<in> K" and m: "bm_wf c K m" using Cons.prems e by auto
  note laws = refl_law [OF assms(2) assms(1)] refl_law [OF assms(2) k'] refl_law [OF assms(1) k']
    flip_law [OF assms(1) k'] flip_law [OF assms(2) assms(1)] trans_law [OF k' assms(1,2)]
    trans_law [OF assms(2) assms(1) k'] flip_law [OF assms(2) k']
  show ?case
    by (cases "c k k'"; cases "c x k'"; cases "c x k")
      (use e Cons.IH [OF m] laws in auto)
qed

lemma set_remove:
  assumes "k \<in> K" and "bm_wf c K m"
  shows "set (bm_remove c k m) = {e \<in> set m. fst e \<noteq> k}"
  using assms(2)
proof (induction m)
  case (Cons e m)
  obtain k' v' where e: "e = (k', v')" by fastforce
  have k': "k' \<in> K" and m: "bm_wf c K m" and less: "\<forall>b \<in> set m. c k' (fst b) = Less"
    using Cons.prems e by auto
  have rf: "c k k' = Equal \<longleftrightarrow> k = k'" and self: "c k k = Equal"
    using refl_law assms(1) k' by simp_all
  show ?case
  proof (cases "c k k'")
    case Less
    have "fst b \<noteq> k" if "b \<in> set m" for b
      using that less Less self trans_law [of k k' k] assms(1) k' by force
    with Less rf e show ?thesis by auto
  next
    case Equal
    then have eq: "k = k'" using rf by blast
    have ne: "fst b \<noteq> k" if "b \<in> set m" for b using that less self eq by force
    have "bm_remove c k (e # m) = m" using Equal by (simp add: e)
    moreover have "{b \<in> set (e # m). fst b \<noteq> k} = set m" using ne eq by (auto simp: e)
    ultimately show ?thesis by (simp only:)
  next
    case Greater
    have "k' \<noteq> k" using Greater self by force
    then have ne: "fst e \<noteq> k" by (simp add: e)
    have "bm_remove c k (e # m) = e # bm_remove c k m" using Greater by (simp add: e)
    then have "set (bm_remove c k (e # m)) = insert e {b \<in> set m. fst b \<noteq> k}"
      using Cons.IH [OF m] by (simp only: list.set)
    then show ?thesis using ne by auto
  qed
qed simp

lemma wf_remove:
  assumes "k \<in> K" and "bm_wf c K m"
  shows "bm_wf c K (bm_remove c k m)"
  using assms(2)
proof (induction m)
  case (Cons e m)
  then have "set (bm_remove c k m) \<subseteq> set m" using set_remove [OF assms(1)] by auto
  with Cons show ?case by (cases e) (auto split: ordering.splits)
qed simp

lemma get_remove:
  assumes "k \<in> K" and "x \<in> K" and "bm_wf c K m"
  shows "bm_get c x (bm_remove c k m) = (if x = k then None else bm_get c x m)"
proof -
  have wf: "bm_wf c K (bm_remove c k m)" by (rule wf_remove [OF assms(1,3)])
  have iff: "bm_get c x (bm_remove c k m) = Some v \<longleftrightarrow> x \<noteq> k \<and> bm_get c x m = Some v" for v
    using get_iff [OF assms(2) wf] get_iff [OF assms(2,3)] set_remove [OF assms(1,3)] by auto
  show ?thesis
  proof (cases "bm_get c x (bm_remove c k m)")
    case None
    then have "x = k \<or> bm_get c x m = None" using iff by (cases "bm_get c x m") auto
    with None show ?thesis by auto
  next
    case (Some v)
    with iff [of v] show ?thesis by simp
  qed
qed

text \<open>The first entry is the one with the smallest key.\<close>

lemma first_least:
  assumes "bm_wf c K m" and "bm_first m = Some e" and "b \<in> set m"
  shows "b = e \<or> c (fst e) (fst b) = Less"
  using assms by (cases m) (auto simp: bm_first_def)

end

end
