(* ===== verification/Tracker.thy ===== *)
theory Tracker
  imports Message OrderedMap
begin

text \<open>
  The tracker of in-flight messages (\<^verbatim>\<open>numaflow-core/src/tracker.rs\<close>): entries per partition, ordered
  by offset, the idle offset per partition, and the serving callbacks sent when a message is done.
  \<open>tr_callbacks\<close> lists what was handed to the callback handler, whose own failures are only logged.
  Each operation runs under the state's lock, so an execution is a sequence of operations.
\<close>

section \<open>State\<close>

record serving_callback_info =
  sci_id :: string
  sci_pod_hash :: string
  sci_from_vertex :: string
  sci_responses :: "string list option list"

record tracker_entry =
  te_serving_callback_info :: "serving_callback_info option"
  te_watermark :: "datetime option"
  te_event_time :: datetime

record tracker =
  tr_entries :: "(u16, (offset, tracker_entry) btree_map) hashmap"
  tr_idle_offset_map :: "(u16, i64 option) hashmap"
  tr_callback_handler :: bool
  tr_processed_msg_count :: nat
  tr_callbacks :: "serving_callback_info list"

definition tracker_new :: "bool \<Rightarrow> tracker" where
  "tracker_new callback_handler =
     \<lparr>tr_entries = [], tr_idle_offset_map = [], tr_callback_handler = callback_handler,
      tr_processed_msg_count = 0, tr_callbacks = []\<rparr>"

section \<open>Operations\<close>

definition callback_info_try_from :: "message \<Rightarrow> error + serving_callback_info" where
  "callback_info_try_from m =
     (case hm_get (msg_headers m) ''X-Numaflow-Id'' of
        None \<Rightarrow> Inl (Error_Source ''X-Numaflow-Id is not found in message headers'')
      | Some uuid \<Rightarrow>
     (case hm_get (msg_headers m) ''X-Numaflow-Pod-Hash'' of
        None \<Rightarrow> Inl (Error_Source ''X-Numaflow-Pod-Hash is not found in message headers'')
      | Some pod_hash \<Rightarrow>
     (case msg_metadata m of
        None \<Rightarrow> Inl (Error_Source ''Metadata field is empty in the message'')
      | Some md \<Rightarrow>
          Inr \<lparr>sci_id = uuid, sci_pod_hash = pod_hash, sci_from_vertex = md_previous_vertex md,
            sci_responses = [None]\<rparr>)))"

definition log_processed_msg_count :: "tracker \<Rightarrow> tracker \<times> nat" where
  "log_processed_msg_count t = (t\<lparr>tr_processed_msg_count := 0\<rparr>, tr_processed_msg_count t)"

definition completed_successfully :: "tracker_entry \<Rightarrow> tracker \<Rightarrow> tracker" where
  "completed_successfully entry t =
     (let t = t\<lparr>tr_processed_msg_count := tr_processed_msg_count t + 1\<rparr>
      in if \<not> tr_callback_handler t then t
         else case te_serving_callback_info entry of
                None \<Rightarrow> t
              | Some info \<Rightarrow> t\<lparr>tr_callbacks := tr_callbacks t @ [info]\<rparr>)"

definition tr_insert :: "message \<Rightarrow> tracker \<Rightarrow> tracker \<times> (error + unit)" where
  "tr_insert m t =
     (let insert_entry = (\<lambda>callback_info.
        let q = partition_idx (msg_offset m);
            partition_entries = (case hm_get (tr_entries t) q of Some es \<Rightarrow> es | None \<Rightarrow> [])
        in if bm_contains offset_cmp (msg_offset m) partition_entries
           then (t\<lparr>tr_entries := hm_insert q partition_entries (tr_entries t)\<rparr>,
                 Inl (Error_DuplicateInflight (msg_offset m)))
           else (t\<lparr>tr_entries := hm_insert q
                   (bm_insert offset_cmp (msg_offset m)
                      \<lparr>te_serving_callback_info = callback_info, te_watermark = msg_watermark m,
                       te_event_time = msg_event_time m\<rparr> partition_entries) (tr_entries t)\<rparr>,
                 Inr ()))
      in if tr_callback_handler t
         then (case callback_info_try_from m of
                 Inl e \<Rightarrow> (t, Inl e)
               | Inr info \<Rightarrow> insert_entry (Some info))
         else insert_entry None)"

text \<open>\<^verbatim>\<open>get_mut\<close> of a partition and an offset, and the update of the entry's responses.\<close>

definition update_responses ::
    "(string list option list \<Rightarrow> string list option list) \<Rightarrow> offset \<Rightarrow> tracker \<Rightarrow> tracker" where
  "update_responses f off t =
     (case hm_get (tr_entries t) (partition_idx off) of
        None \<Rightarrow> t
      | Some es \<Rightarrow>
          (case bm_get offset_cmp off es of
             None \<Rightarrow> t
           | Some entry \<Rightarrow>
               t\<lparr>tr_entries := hm_insert (partition_idx off)
                  (bm_insert offset_cmp off (entry\<lparr>te_serving_callback_info :=
                     map_option (\<lambda>cb. cb\<lparr>sci_responses := f (sci_responses cb)\<rparr>)
                       (te_serving_callback_info entry)\<rparr>) es) (tr_entries t)\<rparr>))"

definition serving_update :: "offset \<Rightarrow> string list option list \<Rightarrow> tracker \<Rightarrow> tracker" where
  "serving_update off response_tags t =
     (if \<not> tr_callback_handler t then t else update_responses (\<lambda>_. response_tags) off t)"

definition serving_append :: "offset \<Rightarrow> string list option \<Rightarrow> tracker \<Rightarrow> tracker" where
  "serving_append off message_tags t =
     (if \<not> tr_callback_handler t then t else update_responses (\<lambda>rs. rs @ [message_tags]) off t)"

text \<open>The refresh takes the entry out of the map and puts it back.\<close>

definition serving_refresh :: "offset \<Rightarrow> tracker \<Rightarrow> tracker" where
  "serving_refresh off t =
     (if \<not> tr_callback_handler t then t
      else case hm_get (tr_entries t) (partition_idx off) of
             None \<Rightarrow> t
           | Some es \<Rightarrow>
               (case bm_get offset_cmp off es of
                  None \<Rightarrow> t
                | Some entry \<Rightarrow>
                    t\<lparr>tr_entries := hm_insert (partition_idx off)
                       (bm_insert offset_cmp off (entry\<lparr>te_serving_callback_info :=
                          map_option (\<lambda>cb. cb\<lparr>sci_responses := []\<rparr>) (te_serving_callback_info entry)\<rparr>)
                          (bm_remove offset_cmp off es)) (tr_entries t)\<rparr>))"

definition tr_delete :: "offset \<Rightarrow> tracker \<Rightarrow> tracker" where
  "tr_delete off t =
     (case hm_get (tr_entries t) (partition_idx off) of
        None \<Rightarrow> t
      | Some es \<Rightarrow>
          (case bm_get offset_cmp off es of
             None \<Rightarrow> t
           | Some entry \<Rightarrow>
               completed_successfully entry
                 (t\<lparr>tr_entries := hm_insert (partition_idx off) (bm_remove offset_cmp off es)
                    (tr_entries t)\<rparr>)))"

definition lowest_watermark :: "tracker \<Rightarrow> datetime" where
  "lowest_watermark t =
     (case iter_min (List.map_filter (\<lambda>es. Option.bind (bm_first es) (\<lambda>(_, entry). te_watermark entry))
             (hm_values (tr_entries t))) of
        Some w \<Rightarrow> w
      | None \<Rightarrow> from_timestamp_millis (-1))"

definition lowest_event_time :: "tracker \<Rightarrow> datetime" where
  "lowest_event_time t =
     (case iter_min (map te_event_time (concat (map (map snd) (hm_values (tr_entries t))))) of
        Some e \<Rightarrow> e
      | None \<Rightarrow> from_timestamp_millis (-1))"

definition set_idle_offset :: "u16 \<Rightarrow> i64 option \<Rightarrow> tracker \<Rightarrow> tracker" where
  "set_idle_offset q idle_offset t =
     t\<lparr>tr_idle_offset_map := hm_insert q idle_offset (tr_idle_offset_map t)\<rparr>"

definition get_idle_offset :: "tracker \<Rightarrow> (u16, i64 option) hashmap" where
  "get_idle_offset t = tr_idle_offset_map t"

section \<open>The order of offsets\<close>

text \<open>
  \<^verbatim>\<open>Offset::cmp\<close> is a total order on the offsets of one kind in one partition; a partition's source
  or buffer only produces one kind.
\<close>

datatype offset_kind = Int_kind | String_kind

definition kind_of :: "offset \<Rightarrow> offset_kind" where
  "kind_of x = (case x of Int_offset _ \<Rightarrow> Int_kind | String_offset _ \<Rightarrow> String_kind)"

definition offsets_of :: "offset_kind \<Rightarrow> u16 \<Rightarrow> offset set" where
  "offsets_of k q = {x. kind_of x = k \<and> partition_idx x = q}"

interpretation offs: comparator offset_cmp "offsets_of k q" for k q
proof (unfold_locales, goal_cases)
  case (1 x y)
  then show ?case
    by (cases x; cases y) (auto simp: offsets_of_def kind_of_def partition_idx_def offset_cmp_def)
next
  case (2 x y)
  then show ?case
    by (cases x; cases y) (auto simp: offsets_of_def kind_of_def partition_idx_def offset_cmp_def)
next
  case (3 x y z)
  then show ?case
    by (cases x; cases y; cases z)
      (auto simp: offsets_of_def kind_of_def partition_idx_def offset_cmp_def)
qed

section \<open>Invariant and contents\<close>

definition tracker_inv :: "offset_kind \<Rightarrow> tracker \<Rightarrow> bool" where
  "tracker_inv k t \<longleftrightarrow> hm_wf (tr_entries t) \<and>
     (\<forall>q es. hm_get (tr_entries t) q = Some es \<longrightarrow> bm_wf offset_cmp (offsets_of k q) es)"

definition entry_of :: "tracker \<Rightarrow> offset \<Rightarrow> tracker_entry option" where
  "entry_of t x = Option.bind (hm_get (tr_entries t) (partition_idx x)) (bm_get offset_cmp x)"

definition tracked :: "offset_kind \<Rightarrow> tracker \<Rightarrow> offset set" where
  "tracked k t = {x. kind_of x = k \<and> entry_of t x \<noteq> None}"

lemma tracker_inv_new [preserves]: "tracker_inv k (tracker_new h)"
  by (simp add: tracker_inv_def tracker_new_def)

lemma tracker_inv_entries:
  "tr_entries t' = tr_entries t \<Longrightarrow> tracker_inv k t' = tracker_inv k t"
  "tr_entries t' = tr_entries t \<Longrightarrow> entry_of t' x = entry_of t x"
  by (simp_all add: tracker_inv_def entry_of_def)

text \<open>Every change of the entries replaces the map of one partition.\<close>

lemma tracker_inv_partition:
  "tracker_inv k t \<Longrightarrow> bm_wf offset_cmp (offsets_of k q) es \<Longrightarrow>
   tracker_inv k (t\<lparr>tr_entries := hm_insert q es (tr_entries t)\<rparr>)"
  by (simp add: tracker_inv_def)

lemma entry_of_partition:
  "entry_of (t\<lparr>tr_entries := hm_insert q es (tr_entries t)\<rparr>) x =
     (if partition_idx x = q then bm_get offset_cmp x es else entry_of t x)"
  by (simp add: entry_of_def)

definition partition_entries :: "u16 \<Rightarrow> tracker \<Rightarrow> (offset, tracker_entry) btree_map" where
  "partition_entries q t = (case hm_get (tr_entries t) q of Some es \<Rightarrow> es | None \<Rightarrow> [])"

lemma partition_entries_wf:
  "tracker_inv k t \<Longrightarrow> bm_wf offset_cmp (offsets_of k q) (partition_entries q t)"
  by (auto simp: tracker_inv_def partition_entries_def split: option.splits)

lemma entry_of_eq: "entry_of t x = bm_get offset_cmp x (partition_entries (partition_idx x) t)"
  by (simp add: entry_of_def partition_entries_def split: option.splits)

lemma offsets_of_self: "kind_of x = k \<Longrightarrow> x \<in> offsets_of k (partition_idx x)"
  by (simp add: offsets_of_def)

definition new_entry :: "message \<Rightarrow> serving_callback_info option \<Rightarrow> tracker_entry" where
  "new_entry m info = \<lparr>te_serving_callback_info = info, te_watermark = msg_watermark m,
     te_event_time = msg_event_time m\<rparr>"

text \<open>The callback information an insertion stores, when it is accepted.\<close>

definition accepted_info :: "message \<Rightarrow> bool \<Rightarrow> error + serving_callback_info option" where
  "accepted_info m callback_handler =
     (if callback_handler
      then (case callback_info_try_from m of Inl e \<Rightarrow> Inl e | Inr info \<Rightarrow> Inr (Some info))
      else Inr None)"

lemma tr_insert_eq:
  "tr_insert m t =
     (let q = partition_idx (msg_offset m); es = partition_entries q t
      in case accepted_info m (tr_callback_handler t) of
           Inl e \<Rightarrow> (t, Inl e)
         | Inr info \<Rightarrow>
             if entry_of t (msg_offset m) \<noteq> None
             then (t\<lparr>tr_entries := hm_insert q es (tr_entries t)\<rparr>,
                   Inl (Error_DuplicateInflight (msg_offset m)))
             else (t\<lparr>tr_entries := hm_insert q (bm_insert offset_cmp (msg_offset m) (new_entry m info) es)
                     (tr_entries t)\<rparr>, Inr ()))"
  by (simp add: tr_insert_def accepted_info_def partition_entries_def entry_of_eq bm_contains_def
      new_entry_def Let_def split: sum.splits)

lemma tr_insert_spec:
  assumes "tracker_inv k t" and "kind_of (msg_offset m) = k"
  shows "\<exists>t'. tr_insert m t = (t', case accepted_info m (tr_callback_handler t) of Inl e \<Rightarrow> Inl e
      | Inr info \<Rightarrow> if entry_of t (msg_offset m) \<noteq> None
                  then Inl (Error_DuplicateInflight (msg_offset m)) else Inr ()) \<and>
    tracker_inv k t' \<and> tr_callback_handler t' = tr_callback_handler t \<and>
    (\<forall>x. kind_of x = k \<longrightarrow> entry_of t' x = (case accepted_info m (tr_callback_handler t) of Inl e \<Rightarrow> entry_of t x
      | Inr info \<Rightarrow> if x = msg_offset m \<and> entry_of t x = None then Some (new_entry m info)
                  else entry_of t x))"
proof (cases "accepted_info m (tr_callback_handler t)")
  case (Inl e)
  with assms(1) show ?thesis by (simp add: tr_insert_eq Let_def)
next
  case (Inr info)
  let ?q = "partition_idx (msg_offset m)"
  let ?es = "partition_entries ?q t"
  note wf = partition_entries_wf [OF assms(1), of ?q]
  note mem = offsets_of_self [OF assms(2)]
  show ?thesis
  proof (cases "entry_of t (msg_offset m) = None")
    case True
    let ?t = "t\<lparr>tr_entries := hm_insert ?q (bm_insert offset_cmp (msg_offset m) (new_entry m info) ?es)
      (tr_entries t)\<rparr>"
    have "entry_of ?t x = (if x = msg_offset m then Some (new_entry m info) else entry_of t x)"
      if "kind_of x = k" for x
      unfolding entry_of_partition
      using offs.get_insert [OF mem, of x ?es] wf that
      by (auto simp: entry_of_eq offsets_of_def)
    moreover have "tracker_inv k ?t"
      by (rule tracker_inv_partition [OF assms(1) offs.wf_insert [OF mem wf]])
    ultimately show ?thesis using True Inr by (simp add: tr_insert_eq Let_def)
  next
    case False
    have "entry_of (t\<lparr>tr_entries := hm_insert ?q ?es (tr_entries t)\<rparr>) x = entry_of t x" for x
      unfolding entry_of_partition by (simp add: entry_of_eq)
    with False Inr tracker_inv_partition [OF assms(1) wf] show ?thesis
      by (auto simp: tr_insert_eq Let_def)
  qed
qed

lemma tr_delete_spec:
  assumes "tracker_inv k t" and "kind_of off = k"
  shows "tracker_inv k (tr_delete off t) \<and>
    tr_callback_handler (tr_delete off t) = tr_callback_handler t \<and>
    (\<forall>x. kind_of x = k \<longrightarrow> entry_of (tr_delete off t) x = (if x = off then None else entry_of t x)) \<and>
    tr_processed_msg_count (tr_delete off t) =
      tr_processed_msg_count t + (if entry_of t off = None then 0 else 1) \<and>
    tr_callbacks (tr_delete off t) = tr_callbacks t @
      (case Option.bind (entry_of t off) te_serving_callback_info of
         Some info \<Rightarrow> if tr_callback_handler t then [info] else [] | None \<Rightarrow> [])"
proof (cases "entry_of t off")
  case None
  then have "tr_delete off t = t"
    by (auto simp: tr_delete_def entry_of_def split: option.splits)
  with None assms(1) show ?thesis by auto
next
  case (Some entry)
  then obtain es where es: "hm_get (tr_entries t) (partition_idx off) = Some es"
    and entry: "bm_get offset_cmp off es = Some entry" by (auto simp: entry_of_def bind_eq_Some_conv)
  let ?t = "t\<lparr>tr_entries := hm_insert (partition_idx off) (bm_remove offset_cmp off es) (tr_entries t)\<rparr>"
  have eq: "tr_delete off t = completed_successfully entry ?t" by (simp add: tr_delete_def es entry)
  have same: "tr_entries (tr_delete off t) = tr_entries ?t"
    by (simp add: eq completed_successfully_def Let_def split: option.splits)
  have wf: "bm_wf offset_cmp (offsets_of k (partition_idx off)) es"
    using assms(1) es by (simp add: tracker_inv_def)
  note mem = offsets_of_self [OF assms(2)]
  have "tracker_inv k ?t" by (rule tracker_inv_partition [OF assms(1) offs.wf_remove [OF mem wf]])
  moreover have "entry_of ?t x = (if x = off then None else entry_of t x)" if "kind_of x = k" for x
    unfolding entry_of_partition
    using offs.get_remove [OF mem, of x es] wf that by (auto simp: entry_of_def es offsets_of_def)
  ultimately show ?thesis
    using Some by (simp add: tracker_inv_entries [OF same])
      (simp add: eq completed_successfully_def Let_def split: option.splits)
qed

lemma update_entry_spec:
  assumes "tracker_inv k t" and "kind_of off = k" and "entry_of t off \<noteq> None"
    and "hm_get (tr_entries t) (partition_idx off) = Some es" and "es' \<in> {es, bm_remove offset_cmp off es}"
  shows "tracker_inv k (t\<lparr>tr_entries := hm_insert (partition_idx off)
      (bm_insert offset_cmp off v es') (tr_entries t)\<rparr>) \<and>
    tracked k (t\<lparr>tr_entries := hm_insert (partition_idx off)
      (bm_insert offset_cmp off v es') (tr_entries t)\<rparr>) = tracked k t"
proof -
  note mem = offsets_of_self [OF assms(2)]
  have es: "bm_wf offset_cmp (offsets_of k (partition_idx off)) es"
    using assms(1,4) by (simp add: tracker_inv_def)
  then have es': "bm_wf offset_cmp (offsets_of k (partition_idx off)) es'"
    using assms(5) offs.wf_remove [OF mem es] by auto
  let ?t = "t\<lparr>tr_entries := hm_insert (partition_idx off) (bm_insert offset_cmp off v es') (tr_entries t)\<rparr>"
  have "entry_of ?t x = (if x = off then Some v else entry_of t x)" if "kind_of x = k" for x
    unfolding entry_of_partition
    using offs.get_insert [OF mem, of x es' v] offs.get_remove [OF mem, of x es] es es' that assms(4,5)
    by (auto simp: entry_of_def offsets_of_def)
  then have "tracked k ?t = tracked k t" using assms(2,3) by (auto simp: tracked_def split: if_splits)
  with tracker_inv_partition [OF assms(1) offs.wf_insert [OF mem es']] show ?thesis by simp
qed

lemma update_responses_spec:
  assumes "tracker_inv k t" and "kind_of off = k"
  shows "tracker_inv k (update_responses f off t) \<and> tracked k (update_responses f off t) = tracked k t"
  using assms(1) update_entry_spec [OF assms]
  by (auto simp: update_responses_def entry_of_def split: option.splits)

lemma serving_refresh_spec:
  assumes "tracker_inv k t" and "kind_of off = k"
  shows "tracker_inv k (serving_refresh off t) \<and> tracked k (serving_refresh off t) = tracked k t"
  using assms(1) update_entry_spec [OF assms]
  by (auto simp: serving_refresh_def entry_of_def split: option.splits)

lemma serving_handler:
  "tr_callback_handler (update_responses f off t) = tr_callback_handler t"
  "tr_callback_handler (serving_refresh off t) = tr_callback_handler t"
  by (simp_all add: update_responses_def serving_refresh_def split: option.splits)

section \<open>Runs\<close>

datatype tracker_cmd =
  Cmd_insert message | Cmd_delete offset | Cmd_update offset "string list option list"
| Cmd_append offset "string list option" | Cmd_refresh offset

definition cmd_offset :: "tracker_cmd \<Rightarrow> offset" where
  "cmd_offset c = (case c of Cmd_insert m \<Rightarrow> msg_offset m | Cmd_delete off \<Rightarrow> off
     | Cmd_update off _ \<Rightarrow> off | Cmd_append off _ \<Rightarrow> off | Cmd_refresh off \<Rightarrow> off)"

definition tr_exec :: "tracker_cmd \<Rightarrow> tracker \<Rightarrow> tracker \<times> (error + unit)" where
  "tr_exec c t = (case c of
     Cmd_insert m \<Rightarrow> tr_insert m t
   | Cmd_delete off \<Rightarrow> (tr_delete off t, Inr ())
   | Cmd_update off rs \<Rightarrow> (serving_update off rs t, Inr ())
   | Cmd_append off r \<Rightarrow> (serving_append off r t, Inr ())
   | Cmd_refresh off \<Rightarrow> (serving_refresh off t, Inr ()))"

fun tr_run :: "tracker_cmd list \<Rightarrow> tracker \<Rightarrow> tracker \<times> (error + unit) list" where
  "tr_run [] t = (t, [])"
| "tr_run (c # cs) t =
     (let (t1, r) = tr_exec c t; (t2, rs) = tr_run cs t1 in (t2, r # rs))"

text \<open>The specification: a set of offsets.\<close>

definition set_exec :: "bool \<Rightarrow> tracker_cmd \<Rightarrow> offset set \<Rightarrow> offset set \<times> (error + unit)" where
  "set_exec h c S = (case c of
     Cmd_insert m \<Rightarrow>
       (case accepted_info m h of
          Inl e \<Rightarrow> (S, Inl e)
        | Inr _ \<Rightarrow> if msg_offset m \<in> S then (S, Inl (Error_DuplicateInflight (msg_offset m)))
                  else (insert (msg_offset m) S, Inr ()))
   | Cmd_delete off \<Rightarrow> (S - {off}, Inr ())
   | _ \<Rightarrow> (S, Inr ()))"

fun set_run :: "bool \<Rightarrow> tracker_cmd list \<Rightarrow> offset set \<Rightarrow> offset set \<times> (error + unit) list" where
  "set_run h [] S = (S, [])"
| "set_run h (c # cs) S =
     (let (S1, r) = set_exec h c S; (S2, rs) = set_run h cs S1 in (S2, r # rs))"

lemma tr_exec_simulates:
  assumes "tracker_inv k t" and "kind_of (cmd_offset c) = k" and "tr_exec c t = (t', r)"
  shows "set_exec (tr_callback_handler t) c (tracked k t) = (tracked k t', r) \<and>
    tracker_inv k t' \<and> tr_callback_handler t' = tr_callback_handler t"
proof (cases c)
  case (Cmd_insert m)
  with assms(2) have "kind_of (msg_offset m) = k" by (simp add: cmd_offset_def)
  from tr_insert_spec [OF assms(1) this] assms(3) Cmd_insert this show ?thesis
    by (auto simp: tr_exec_def set_exec_def tracked_def split: sum.splits if_splits)
next
  case (Cmd_delete off)
  with assms(2) have "kind_of off = k" by (simp add: cmd_offset_def)
  from tr_delete_spec [OF assms(1) this] assms(3) Cmd_delete show ?thesis
    by (auto simp: tr_exec_def set_exec_def tracked_def split: if_splits)
next
  case (Cmd_update off rs)
  with assms(2) have "kind_of off = k" by (simp add: cmd_offset_def)
  from update_responses_spec [OF assms(1) this] assms(1,3) Cmd_update show ?thesis
    by (auto simp: tr_exec_def set_exec_def serving_update_def serving_handler split: if_splits)
next
  case (Cmd_append off r)
  with assms(2) have "kind_of off = k" by (simp add: cmd_offset_def)
  from update_responses_spec [OF assms(1) this] assms(1,3) Cmd_append show ?thesis
    by (auto simp: tr_exec_def set_exec_def serving_append_def serving_handler split: if_splits)
next
  case (Cmd_refresh off)
  with assms(2) have "kind_of off = k" by (simp add: cmd_offset_def)
  from serving_refresh_spec [OF assms(1) this] assms(1,3) Cmd_refresh show ?thesis
    by (auto simp: tr_exec_def set_exec_def serving_handler)
qed

lemma tr_run_simulates:
  assumes "tracker_inv k t" and "\<forall>c \<in> set cs. kind_of (cmd_offset c) = k" and "tr_run cs t = (t', rs)"
  shows "set_run (tr_callback_handler t) cs (tracked k t) = (tracked k t', rs) \<and> tracker_inv k t'"
  using assms
proof (induction cs arbitrary: t rs)
  case (Cons c cs)
  obtain t1 r where t1: "tr_exec c t = (t1, r)" by fastforce
  obtain rs1 where run: "tr_run cs t1 = (t', rs1)" and rs: "rs = r # rs1"
    using Cons.prems(3) t1 by (auto split: prod.splits)
  have "kind_of (cmd_offset c) = k" using Cons.prems(2) by simp
  note sim = tr_exec_simulates [OF Cons.prems(1) this t1]
  with Cons.IH [of t1 rs1] Cons.prems(2) run rs show ?case by simp
qed simp

lemma tracked_new: "tracked k (tracker_new h) = {}"
  by (simp add: tracked_def entry_of_def tracker_new_def)

section \<open>The lowest watermark and event time\<close>

lemma bm_first_entry:
  assumes "tracker_inv k t" and "(q, es) \<in> set (tr_entries t)" and "bm_first es = Some (x, e)"
  shows "kind_of x = k \<and> partition_idx x = q \<and> entry_of t x = Some e"
proof -
  have es: "hm_get (tr_entries t) q = Some es" using assms(1,2) by (simp add: tracker_inv_def hm_get_iff)
  with assms(1) have wf: "bm_wf offset_cmp (offsets_of k q) es" by (simp add: tracker_inv_def)
  have "(x, e) \<in> set es" using assms(3) by (cases es) (auto simp: bm_first_def)
  moreover from this wf have "x \<in> offsets_of k q" by (auto simp: bm_wf_def)
  ultimately show ?thesis
    using offs.get_iff [of x k q es e] wf es by (auto simp: offsets_of_def entry_of_def)
qed

lemma entry_in_partition:
  assumes "tracker_inv k t" and "kind_of x = k" and "entry_of t x = Some e"
  obtains es y f where "(partition_idx x, es) \<in> set (tr_entries t)" "bm_first es = Some (y, f)"
    "y = x \<or> offset_cmp y x = Less" "(x, e) \<in> set es"
proof -
  from assms(3) obtain es where es: "hm_get (tr_entries t) (partition_idx x) = Some es"
    "bm_get offset_cmp x es = Some e" by (auto simp: entry_of_def bind_eq_Some_conv)
  with assms(1) have wf: "bm_wf offset_cmp (offsets_of k (partition_idx x)) es"
    by (simp add: tracker_inv_def)
  with es(2) assms(2) have mem: "(x, e) \<in> set es"
    using offs.get_iff [of x k "partition_idx x" es e] by (simp add: offsets_of_def)
  then obtain y f where yf: "bm_first es = Some (y, f)" by (cases es) (auto simp: bm_first_def)
  from offs.first_least [OF wf yf mem] have "y = x \<or> offset_cmp y x = Less" by auto
  with that hm_get_in_set [OF es(1)] yf mem show thesis by blast
qed

section \<open>Properties\<close>



text \<open>
  Finishing a message counts it once and sends its serving callback once, and only if it was
  in flight: deleting an offset that is not tracked has no effect at all.
\<close>

theorem tracker_delete_once:
  assumes "tracker_inv k t" and "kind_of off = k"
  shows "tr_callbacks (tr_delete off t) = tr_callbacks t @
      (case Option.bind (entry_of t off) te_serving_callback_info of
         Some info \<Rightarrow> if tr_callback_handler t then [info] else [] | None \<Rightarrow> []) \<and>
    tr_processed_msg_count (tr_delete off t) =
      tr_processed_msg_count t + (if entry_of t off = None then 0 else 1) \<and>
    (entry_of t off = None \<longrightarrow> tr_delete off t = t) \<and>
    tr_delete off (tr_delete off t) = tr_delete off t"
proof -
  have idle: "tr_delete off u = u" if "entry_of u off = None" for u
    using that by (auto simp: tr_delete_def entry_of_def split: option.splits)
  note spec = tr_delete_spec [OF assms]
  have "entry_of (tr_delete off t) off = None" using spec assms(2) by simp
  from idle [OF this] idle spec show ?thesis by blast
qed

theorem tracker_delete_once_witness:
  "tracker_inv Int_kind (tracker_new True) \<and>
   tr_delete (msg_offset (message_default 0)) (tracker_new True) = tracker_new True"
proof -
  let ?off = "msg_offset (message_default 0)"
  have "kind_of ?off = Int_kind" by (simp add: message_default_def kind_of_def)
  moreover have "entry_of (tracker_new True) ?off = None" by (simp add: entry_of_def tracker_new_def)
  ultimately show ?thesis
    using tracker_delete_once [OF tracker_inv_new, of ?off Int_kind True] tracker_inv_new by blast
qed

text \<open>
  When messages of a partition arrive with watermarks that do not decrease with the offset, the
  lowest watermark the tracker reports is at most the watermark of every message in flight.
\<close>

definition watermarks_in_order :: "offset_kind \<Rightarrow> tracker \<Rightarrow> bool" where
  "watermarks_in_order k t \<longleftrightarrow> (\<forall>x y e f v. kind_of x = k \<longrightarrow> kind_of y = k \<longrightarrow> partition_idx x = partition_idx y \<longrightarrow>
     entry_of t x = Some e \<longrightarrow> entry_of t y = Some f \<longrightarrow> offset_cmp x y = Less \<longrightarrow>
     te_watermark f = Some v \<longrightarrow> (\<exists>u. te_watermark e = Some u \<and> u \<le> v))"

lemma lowest_watermark_below:
  assumes "tracker_inv k t" and "watermarks_in_order k t"
    and "kind_of x = k" and "entry_of t x = Some e" and "te_watermark e = Some w"
  shows "lowest_watermark t \<le> w"
proof (rule entry_in_partition [OF assms(1,3,4)])
  fix es y f
  assume es: "(partition_idx x, es) \<in> set (tr_entries t)" "bm_first es = Some (y, f)"
    and y: "y = x \<or> offset_cmp y x = Less"
  have yk: "kind_of y = k" "partition_idx y = partition_idx x" "entry_of t y = Some f"
    using bm_first_entry [OF assms(1) es] by simp_all
  then obtain u where u: "te_watermark f = Some u" "u \<le> w"
    using y assms(2) yk assms(3-5) unfolding watermarks_in_order_def by (metis option.inject order_refl)
  let ?ws = "List.map_filter (\<lambda>es. Option.bind (bm_first es) (\<lambda>(_, entry). te_watermark entry))
    (hm_values (tr_entries t))"
  have "u \<in> set ?ws" using es u(1) by (force simp: List.map_filter_def)
  then obtain m where "iter_min ?ws = Some m" by (cases "iter_min ?ws") auto
  moreover from this \<open>u \<in> set ?ws\<close> have "m \<le> u" by (rule iter_min_le)
  ultimately show ?thesis using u(2) by (simp add: lowest_watermark_def)
qed

end
