(* ===== verification/IdleDetector.thy ===== *)
theory IdleDetector
  imports Message WmPublisher
begin

text \<open>
  Idle detection: \<open>ISBIdleDetector\<close> (\<^verbatim>\<open>numaflow-core/src/watermark/idle/isb.rs\<close>), which knows when a
  downstream stream has had no watermark for a while and which control message carries its idle
  watermark, and \<open>SourceIdleDetector\<close> (\<^verbatim>\<open>watermark/idle/source.rs\<close>), which decides what watermark a
  source partition without data publishes. The clock of a call is the argument \<open>now\<close>; the writer of
  a stream (the ISB interface) is a parameter \<open>write\<close> that returns the offset of the written message.
  \<open>None\<close> is a panic on an unknown vertex or partition.
\<close>

section \<open>Idle streams\<close>

record to_vertex_config =
  tv_name :: string
  tv_partitions :: u16
  tv_streams :: "stream list"

record idle_state =
  ist_stream :: stream
  ist_last_wm_published_time :: datetime
  ist_wmb_msg_offset :: "i64 option"

record 'w isb_idle =
  ii_state :: "(string, idle_state list) hashmap"
  ii_writers :: "(string, 'w) hashmap"
  ii_idle_timeout :: duration

definition isb_idle_new ::
    "datetime \<Rightarrow> duration \<Rightarrow> to_vertex_config list \<Rightarrow> (string, 'w) hashmap \<Rightarrow> 'w isb_idle" where
  "isb_idle_new now idle_timeout configs writers =
     \<lparr>ii_state = fold (\<lambda>c m. hm_insert (tv_name c)
          (map (\<lambda>s. \<lparr>ist_stream = s, ist_last_wm_published_time = now, ist_wmb_msg_offset = None\<rparr>)
             (tv_streams c)) m) configs [],
      ii_writers = writers, ii_idle_timeout = idle_timeout\<rparr>"

text \<open>\<^verbatim>\<open>get_mut(vertex)\<close>, then \<^verbatim>\<open>get_mut(partition)\<close>, both expected to be there.\<close>

definition update_idle_state ::
    "(idle_state \<Rightarrow> idle_state) \<Rightarrow> stream \<Rightarrow> 'w isb_idle \<Rightarrow> 'w isb_idle option" where
  "update_idle_state f s d =
     (case hm_get (ii_state d) (stream_vertex s) of
        None \<Rightarrow> None
      | Some ss \<Rightarrow>
          let i = unat (stream_partition s)
          in if i < length ss
             then Some (d\<lparr>ii_state := hm_insert (stream_vertex s) (ss[i := f (ss ! i)]) (ii_state d)\<rparr>)
             else None)"

definition reset_idle :: "datetime \<Rightarrow> stream \<Rightarrow> 'w isb_idle \<Rightarrow> 'w isb_idle option" where
  "reset_idle now s d =
     update_idle_state (\<lambda>st. st\<lparr>ist_last_wm_published_time := now, ist_wmb_msg_offset := None\<rparr>) s d"

definition update_idle_metadata ::
    "datetime \<Rightarrow> stream \<Rightarrow> i64 \<Rightarrow> 'w isb_idle \<Rightarrow> 'w isb_idle option" where
  "update_idle_metadata now s offset d =
     update_idle_state (\<lambda>st. st\<lparr>ist_wmb_msg_offset := Some offset, ist_last_wm_published_time := now\<rparr>) s d"

definition idle_state_of :: "stream \<Rightarrow> 'w isb_idle \<Rightarrow> idle_state option" where
  "idle_state_of s d =
     Option.bind (hm_get (ii_state d) (stream_vertex s))
       (\<lambda>ss. if unat (stream_partition s) < length ss then Some (ss ! unat (stream_partition s)) else None)"

definition fetch_idle_offset ::
    "(message \<Rightarrow> 'w \<Rightarrow> 'w \<times> (string + offset)) \<Rightarrow> datetime \<Rightarrow> stream \<Rightarrow> 'w isb_idle \<Rightarrow>
     ('w isb_idle \<times> (wm_error + i64)) option" where
  "fetch_idle_offset write now s d =
     (case idle_state_of s d of
        None \<Rightarrow> None
      | Some st \<Rightarrow>
          Some (case ist_wmb_msg_offset st of
            Some offset \<Rightarrow> (d, Inr offset)
          | None \<Rightarrow>
              (case hm_get (ii_writers d) (stream_name (ist_stream st)) of
                 None \<Rightarrow> (d, Inl (Watermark_error ''No ISB writer for stream when publishing idle WMB''))
               | Some w \<Rightarrow>
                   let (w', r) = write ((message_default now)\<lparr>msg_typ := WMB_message\<rparr>) w;
                       d' = d\<lparr>ii_writers := hm_insert (stream_name (ist_stream st)) w' (ii_writers d)\<rparr>
                   in (case r of
                         Inl e \<Rightarrow> (d', Inl (Watermark_error e))
                       | Inr (Int_offset i) \<Rightarrow> (d', Inr (io_offset i))
                       | Inr (String_offset _) \<Rightarrow>
                           (d', Inl (Watermark_error ''idle WMB requires an Int offset''))))))"

definition fetch_streams_needing_publish :: "datetime \<Rightarrow> 'w isb_idle \<Rightarrow> stream list" where
  "fetch_streams_needing_publish now d =
     concat (map (\<lambda>ss. map ist_stream (filter (\<lambda>st.
         timestamp_millis now - timestamp_millis (ist_last_wm_published_time st)
           > dur_millis (ii_idle_timeout d)) ss)) (hm_values (ii_state d)))"

section \<open>Idle source partitions\<close>

record idle_config =
  ic_increment_by :: duration
  ic_step_interval :: duration
  ic_threshold :: duration
  ic_init_source_delay :: "duration option"

definition idle_config_default :: idle_config where
  "idle_config_default = \<lparr>ic_increment_by = 0, ic_step_interval = 100000000, ic_threshold = 0,
     ic_init_source_delay = None\<rparr>"

record partition_idle_state =
  pis_last_wm_published_time :: datetime
  pis_updated_ts :: datetime

record source_idle =
  si_config :: idle_config
  si_partition_states :: "(u16, partition_idle_state) hashmap"

definition partition_idle_state_new :: "datetime \<Rightarrow> partition_idle_state" where
  "partition_idle_state_new now =
     \<lparr>pis_last_wm_published_time = from_timestamp_millis (-1), pis_updated_ts = now\<rparr>"

definition source_idle_new :: "idle_config \<Rightarrow> source_idle" where
  "source_idle_new config = \<lparr>si_config = config, si_partition_states = []\<rparr>"

definition ensure_partition :: "datetime \<Rightarrow> u16 \<Rightarrow> source_idle \<Rightarrow> source_idle" where
  "ensure_partition now q d =
     (case hm_get (si_partition_states d) q of
        Some _ \<Rightarrow> d
      | None \<Rightarrow> d\<lparr>si_partition_states :=
          hm_insert q (partition_idle_state_new now) (si_partition_states d)\<rparr>)"

definition has_step_interval_passed :: "datetime \<Rightarrow> source_idle \<Rightarrow> partition_idle_state \<Rightarrow> bool" where
  "has_step_interval_passed now d st \<longleftrightarrow>
     timestamp_millis (pis_last_wm_published_time st) = -1 \<or>
     timestamp_millis now - timestamp_millis (pis_last_wm_published_time st)
       > dur_millis (ic_step_interval (si_config d))"

definition partitions_needing_publish :: "datetime \<Rightarrow> source_idle \<Rightarrow> u16 list" where
  "partitions_needing_publish now d =
     map fst (filter (\<lambda>(_, st). has_step_interval_passed now d st) (si_partition_states d))"

definition is_partition_idle :: "datetime \<Rightarrow> u16 \<Rightarrow> source_idle \<Rightarrow> bool" where
  "is_partition_idle now q d =
     (if ic_threshold (si_config d) = 0 then False
      else case hm_get (si_partition_states d) q of
             Some st \<Rightarrow> timestamp_millis now - timestamp_millis (pis_updated_ts st)
                         \<ge> dur_millis (ic_threshold (si_config d))
           | None \<Rightarrow> False)"

definition set_published :: "datetime \<Rightarrow> u16 \<Rightarrow> source_idle \<Rightarrow> source_idle" where
  "set_published now q d =
     (case hm_get (si_partition_states d) q of
        Some st \<Rightarrow> d\<lparr>si_partition_states :=
          hm_insert q (st\<lparr>pis_last_wm_published_time := now\<rparr>) (si_partition_states d)\<rparr>
      | None \<Rightarrow> d)"

definition get_partition_idling_from_init_wm ::
    "datetime \<Rightarrow> u16 \<Rightarrow> source_idle \<Rightarrow> source_idle \<times> i64" where
  "get_partition_idling_from_init_wm now q d =
     (case ic_init_source_delay (si_config d) of
        None \<Rightarrow> (d, -1)
      | Some init_source_delay \<Rightarrow>
          (case hm_get (si_partition_states d) q of
             None \<Rightarrow> (d, -1)
           | Some st \<Rightarrow>
               if timestamp_millis now - timestamp_millis (pis_updated_ts st) \<ge> dur_millis init_source_delay
               then (set_published now q d, timestamp_millis now)
               else (d, -1)))"

definition si_reset :: "datetime \<Rightarrow> u16 \<Rightarrow> source_idle \<Rightarrow> source_idle" where
  "si_reset now q d =
     (let d = ensure_partition now q d
      in case hm_get (si_partition_states d) q of
           Some st \<Rightarrow> d\<lparr>si_partition_states := hm_insert q
             (st\<lparr>pis_updated_ts := now, pis_last_wm_published_time := from_timestamp_millis (-1)\<rparr>)
             (si_partition_states d)\<rparr>
         | None \<Rightarrow> d)"

definition initialize_partitions :: "datetime \<Rightarrow> u16 list \<Rightarrow> source_idle \<Rightarrow> source_idle" where
  "initialize_partitions now qs d =
     fold (ensure_partition now) qs
       (d\<lparr>si_partition_states := hm_retain (\<lambda>q _. q \<in> set qs) (si_partition_states d)\<rparr>)"

definition compute_watermark :: "datetime \<Rightarrow> u16 \<Rightarrow> i64 \<Rightarrow> i64 \<Rightarrow> source_idle \<Rightarrow> source_idle \<times> i64" where
  "compute_watermark now q computed_wm min_inflight_event_time d =
     (let d = ensure_partition now q d
      in if \<not> is_partition_idle now q d then (set_published now q d, computed_wm)
         else if computed_wm = -1 then get_partition_idling_from_init_wm now q d
         else
           let idle_wm = computed_wm + dur_millis (ic_increment_by (si_config d));
               idle_wm = (if idle_wm > timestamp_millis now then timestamp_millis now else idle_wm)
           in (set_published now q d, min idle_wm min_inflight_event_time))"

section \<open>Idle streams: what the operations change\<close>

lemma update_idle_state_of:
  assumes "update_idle_state f s d = Some d'"
  shows "idle_state_of s' d' = (if stream_vertex s' = stream_vertex s \<and> stream_partition s' = stream_partition s
    then map_option f (idle_state_of s d) else idle_state_of s' d)"
  using assms
  by (auto simp: update_idle_state_def idle_state_of_def Let_def nth_list_update word_unat_eq_iff
      split: option.splits if_splits)

lemma update_idle_state_total:
  "(\<exists>d'. update_idle_state f s d = Some d') \<longleftrightarrow> idle_state_of s d \<noteq> None"
  by (auto simp: update_idle_state_def idle_state_of_def Let_def split: option.splits)

lemma update_idle_state_frame:
  "update_idle_state f s d = Some d' \<Longrightarrow>
   ii_idle_timeout d' = ii_idle_timeout d \<and> ii_writers d' = ii_writers d"
  by (auto simp: update_idle_state_def Let_def split: option.splits if_splits)

text \<open>The streams of the detector sit at the position of their partition, as configured.\<close>

definition isb_idle_inv :: "'w isb_idle \<Rightarrow> bool" where
  "isb_idle_inv d \<longleftrightarrow> hm_wf (ii_state d) \<and>
     (\<forall>v ss i. hm_get (ii_state d) v = Some ss \<longrightarrow> i < length ss \<longrightarrow>
        stream_vertex (ist_stream (ss ! i)) = v \<and> unat (stream_partition (ist_stream (ss ! i))) = i)"

lemma isb_idle_inv_update:
  assumes "isb_idle_inv d" and "update_idle_state f s d = Some d'"
    and "\<And>st. ist_stream (f st) = ist_stream st"
  shows "isb_idle_inv d'"
  using assms
  by (auto simp: isb_idle_inv_def update_idle_state_def Let_def nth_list_update
      split: option.splits if_splits)

lemma needs_publish_iff:
  assumes "isb_idle_inv d"
  shows "s \<in> set (fetch_streams_needing_publish now d) \<longleftrightarrow>
    (\<exists>st. idle_state_of s d = Some st \<and> ist_stream st = s \<and>
      timestamp_millis now - timestamp_millis (ist_last_wm_published_time st)
        > dur_millis (ii_idle_timeout d))"
    (is "?L \<longleftrightarrow> ?R")
proof
  assume ?L
  then obtain v ss st where v: "(v, ss) \<in> set (ii_state d)" and st: "st \<in> set ss" "ist_stream st = s"
    "timestamp_millis now - timestamp_millis (ist_last_wm_published_time st)
      > dur_millis (ii_idle_timeout d)"
    by (auto simp: fetch_streams_needing_publish_def)
  from v assms have get: "hm_get (ii_state d) v = Some ss" by (simp add: isb_idle_inv_def hm_get_iff)
  from st(1) obtain i where i: "i < length ss" "st = ss ! i" by (auto simp: in_set_conv_nth)
  with get st(2) assms have "stream_vertex s = v" "unat (stream_partition s) = i"
    by (auto simp: isb_idle_inv_def)
  with get i st show ?R by (auto simp: idle_state_of_def)
next
  assume ?R
  then obtain st where st: "idle_state_of s d = Some st" "ist_stream st = s"
      "timestamp_millis now - timestamp_millis (ist_last_wm_published_time st)
        > dur_millis (ii_idle_timeout d)" by blast
  from st(1) obtain ss where get: "hm_get (ii_state d) (stream_vertex s) = Some ss"
    and "unat (stream_partition s) < length ss" "ss ! unat (stream_partition s) = st"
    by (auto simp: idle_state_of_def bind_eq_Some_conv split: if_splits)
  then have "st \<in> set ss" by (auto simp: in_set_conv_nth)
  with hm_get_in_set [OF get] st show ?L
    unfolding fetch_streams_needing_publish_def by force
qed

section \<open>Idle partitions: what the operations change\<close>

lemma ensure_partition_get:
  "hm_get (si_partition_states (ensure_partition now q d)) p =
     (case hm_get (si_partition_states d) p of
        Some st \<Rightarrow> Some st | None \<Rightarrow> if p = q then Some (partition_idle_state_new now) else None)"
  by (auto simp: ensure_partition_def split: option.splits)

lemma ensure_partition_config [simp]: "si_config (ensure_partition now q d) = si_config d"
  by (simp add: ensure_partition_def split: option.splits)

lemma set_published_get:
  "hm_get (si_partition_states (set_published now q d)) p =
     (if p = q then map_option (\<lambda>st. st\<lparr>pis_last_wm_published_time := now\<rparr>)
        (hm_get (si_partition_states d) q) else hm_get (si_partition_states d) p)"
  by (auto simp: set_published_def split: option.splits)

lemma set_published_config [simp]: "si_config (set_published now q d) = si_config d"
  by (simp add: set_published_def split: option.splits)

lemma ensure_partitions_get:
  "hm_get (si_partition_states (fold (ensure_partition now) qs d)) p =
     (case hm_get (si_partition_states d) p of
        Some st \<Rightarrow> Some st | None \<Rightarrow> if p \<in> set qs then Some (partition_idle_state_new now) else None)"
  by (induction qs arbitrary: d) (auto simp: ensure_partition_get split: option.splits)

section \<open>Properties\<close>

text \<open>
  C36. While a stream stays idle its idle watermark is carried by one control message: after the
  detector has recorded an idle offset, asking for it again returns that offset and writes nothing,
  and the stream is due again exactly when more than the timeout has passed since.
\<close>

theorem idle_offset_reused:
  assumes "isb_idle_inv d" and "idle_state_of s d = Some st" and "ist_stream st = s"
    and "update_idle_metadata now s off d = Some d'"
  shows "fetch_idle_offset write now' s d' = Some (d', Inr off) \<and>
    (s \<in> set (fetch_streams_needing_publish now' d') \<longleftrightarrow>
       timestamp_millis now' - timestamp_millis now > dur_millis (ii_idle_timeout d))"
proof -
  let ?f = "\<lambda>st. st\<lparr>ist_wmb_msg_offset := Some off, ist_last_wm_published_time := now\<rparr>"
  have upd: "update_idle_state ?f s d = Some d'" using assms(4) by (simp add: update_idle_metadata_def)
  have st': "idle_state_of s d' = Some (?f st)" using update_idle_state_of [OF upd, of s] assms(2) by simp
  have inv: "isb_idle_inv d'" by (rule isb_idle_inv_update [OF assms(1) upd]) simp
  from st' update_idle_state_frame [OF upd] assms(3) show ?thesis
    by (simp add: fetch_idle_offset_def needs_publish_iff [OF inv])
qed

definition example_stream :: stream where
  "example_stream = \<lparr>stream_name = ''s0'', stream_vertex = ''out'', stream_partition = 0\<rparr>"

definition example_idle :: "unit isb_idle" where
  "example_idle = isb_idle_new 0 100000000
     [\<lparr>tv_name = ''out'', tv_partitions = 1, tv_streams = [example_stream]\<rparr>] [(''s0'', ())]"

theorem idle_offset_reused_witness:
  "\<exists>d'. update_idle_metadata 0 example_stream 42 example_idle = Some d' \<and>
     fetch_idle_offset (\<lambda>_ w. (w, Inl ''unused'')) 5 example_stream d' = Some (d', Inr 42)"
proof -
  have inv: "isb_idle_inv example_idle"
    by (auto simp: isb_idle_inv_def example_idle_def isb_idle_new_def example_stream_def hm_wf_def split: if_splits)
  obtain st where st: "idle_state_of example_stream example_idle = Some st" "ist_stream st = example_stream"
    by (simp add: idle_state_of_def example_idle_def isb_idle_new_def example_stream_def)
  obtain d' where d': "update_idle_metadata 0 example_stream 42 example_idle = Some d'"
    using st by (simp add: update_idle_metadata_def update_idle_state_total)
      (use update_idle_state_total [of _ example_stream example_idle] st in auto)
  from idle_offset_reused [OF inv st d'] d' show ?thesis by blast
qed

text \<open>
  The watermark of a source partition: one that is not idle repeats the given watermark; an
  idle one advances it by the increment but never beyond the current time nor beyond the earliest
  event in flight; without a watermark so far it stays at \<open>-1\<close> until the initial delay is over and
  then takes the current time.
\<close>

theorem compute_watermark_cases:
  assumes "compute_watermark now q wm inflight d = (d', r)"
  shows "r = (if \<not> is_partition_idle now q (ensure_partition now q d) then wm
     else if wm = -1 then
       (case (ic_init_source_delay (si_config d),
              hm_get (si_partition_states (ensure_partition now q d)) q) of
          (Some delay, Some st) \<Rightarrow>
            if timestamp_millis now - timestamp_millis (pis_updated_ts st) \<ge> dur_millis delay
            then timestamp_millis now else -1
        | _ \<Rightarrow> -1)
     else min (min (wm + dur_millis (ic_increment_by (si_config d))) (timestamp_millis now)) inflight) \<and>
   (is_partition_idle now q (ensure_partition now q d) \<longrightarrow> wm \<noteq> -1 \<longrightarrow>
      r \<le> timestamp_millis now \<and> r \<le> inflight)"
  using assms
  by (auto simp: compute_watermark_def get_partition_idling_from_init_wm_def Let_def min_def
      split: if_splits option.splits)

theorem compute_watermark_cases_witness:
  "let d = \<lparr>si_config = \<lparr>ic_increment_by = 5000000, ic_step_interval = 0, ic_threshold = 1000000,
        ic_init_source_delay = None\<rparr>,
        si_partition_states = [(0, \<lparr>pis_last_wm_published_time = 0, pis_updated_ts = 0\<rparr>)]\<rparr>;
       (d', r) = compute_watermark 10000000 0 7 11 d
   in r = 10 \<and> r \<le> timestamp_millis 10000000 \<and> r \<le> 11"
proof -
  let ?d = "\<lparr>si_config = \<lparr>ic_increment_by = 5000000, ic_step_interval = 0, ic_threshold = 1000000,
    ic_init_source_delay = None\<rparr>,
    si_partition_states = [(0, \<lparr>pis_last_wm_published_time = 0, pis_updated_ts = 0\<rparr>)]\<rparr>"
  obtain d' r where run: "compute_watermark 10000000 0 7 11 ?d = (d', r)" by fastforce
  have "is_partition_idle 10000000 0 (ensure_partition 10000000 0 ?d)"
    by (simp add: is_partition_idle_def ensure_partition_def timestamp_millis_def duration_ok_def i64_MAX_def)
  with compute_watermark_cases [OF run] have "r = 10"
    by (simp add: timestamp_millis_def duration_ok_def i64_MAX_def)
  with run show ?thesis by (simp add: timestamp_millis_def)
qed

text \<open>
  A rebalance makes the tracked partitions exactly the given ones: those that stay keep their
  idle state, new ones start now and are due at once, the others are forgotten.
\<close>

theorem initialize_partitions_exact:
  assumes "hm_wf (si_partition_states d)"
  shows "hm_get (si_partition_states (initialize_partitions now qs d)) q =
    (if q \<in> set qs
     then (case hm_get (si_partition_states d) q of
             Some st \<Rightarrow> Some st | None \<Rightarrow> Some (partition_idle_state_new now))
     else None)"
  using assms
  by (auto simp: initialize_partitions_def ensure_partitions_get hm_get_retain split: option.splits)

theorem initialize_partitions_exact_witness:
  "hm_wf (si_partition_states (source_idle_new idle_config_default)) \<and>
   hm_get (si_partition_states (initialize_partitions 7 [3] (source_idle_new idle_config_default))) 3 =
     Some (partition_idle_state_new 7)"
  using initialize_partitions_exact [of "source_idle_new idle_config_default" 7 "[3]" 3]
  by (simp add: source_idle_new_def)

end
