(* ===== verification/AlignedWindows.thy ===== *)
theory AlignedWindows
  imports Message
begin

text \<open>
  Aligned windows (\<^verbatim>\<open>numaflow-core/src/reduce/reducer/aligned/windower.rs\<close>, \<^verbatim>\<open>fixed.rs\<close>, \<^verbatim>\<open>sliding.rs\<close>):
  the windows of a message, opening, closing and garbage collection, the oldest window, and the
  state file of the sliding manager. A \<^verbatim>\<open>BTreeSet<Window>\<close> is a list ascending in the end time, the
  only thing its order compares. The locks make every operation atomic.

  Parameters: \<open>trunc\<close> is \<^verbatim>\<open>chrono\<close>'s \<^verbatim>\<open>duration_trunc\<close> (\<open>None\<close> is its error, on which the code panics),
  \<open>encode\<close> and \<open>decode\<close> are the protobuf library's. \<open>None\<close> as a result is a panic.
\<close>

section \<open>Windows\<close>

record window =
  win_start :: datetime
  win_end :: datetime

definition window_new :: "datetime \<Rightarrow> datetime \<Rightarrow> window" where
  "window_new s e = \<lparr>win_start = s, win_end = e\<rparr>"

datatype aligned_window_operation =
  Open message window | Close window | Append message window

record aligned_window_message =
  awm_operation :: aligned_window_operation
  awm_pnf_slot :: string

definition window_to_pnf_slot :: "window \<Rightarrow> string" where
  "window_to_pnf_slot w =
     show_int (timestamp_millis (win_start w)) @ ''-'' @ show_int (timestamp_millis (win_end w))"

definition truncate_to_duration :: "(datetime \<Rightarrow> int \<Rightarrow> datetime option) \<Rightarrow> i64 \<Rightarrow> i64 \<Rightarrow> i64 option" where
  "truncate_to_duration trunc ts duration =
     map_option timestamp_millis (trunc (from_timestamp_millis ts) (duration * 1000000))"

record proto_window =
  pw_start_time :: "timestamp option"
  pw_end_time :: "timestamp option"

definition window_to_proto :: "window \<Rightarrow> proto_window" where
  "window_to_proto w = \<lparr>pw_start_time = Some (prost_timestamp_from_utc (win_start w)),
     pw_end_time = Some (prost_timestamp_from_utc (win_end w))\<rparr>"

definition window_from_proto :: "(i64 \<Rightarrow> nat \<Rightarrow> datetime option) \<Rightarrow> proto_window \<Rightarrow> window option" where
  "window_from_proto from_timestamp p =
     (case (pw_start_time p, pw_end_time p) of
        (Some s, Some e) \<Rightarrow>
          Some (window_new (utc_from_timestamp from_timestamp s) (utc_from_timestamp from_timestamp e))
      | _ \<Rightarrow> None)"

definition window_to_gc_event :: "window \<Rightarrow> gc_event" where
  "window_to_gc_event w = \<lparr>gc_start_time = Some (prost_timestamp_from_utc (win_start w)),
     gc_end_time = Some (prost_timestamp_from_utc (win_end w)), gc_keys = []\<rparr>"

section \<open>The fixed window manager\<close>

record fixed_manager =
  fw_window_length :: duration
  fw_active_windows :: "window list"
  fw_closed_windows :: "window list"

definition fixed_new :: "duration \<Rightarrow> fixed_manager" where
  "fixed_new window_length =
     \<lparr>fw_window_length = window_length, fw_active_windows = [], fw_closed_windows = []\<rparr>"

definition create_window ::
    "(datetime \<Rightarrow> int \<Rightarrow> datetime option) \<Rightarrow> message \<Rightarrow> fixed_manager \<Rightarrow> window option" where
  "create_window trunc msg m =
     (let len = dur_millis (fw_window_length m)
      in map_option (\<lambda>start. window_new (from_timestamp_millis start) (from_timestamp_millis (start + len)))
           (truncate_to_duration trunc (timestamp_millis (msg_event_time msg)) len))"

definition fixed_assign_windows ::
    "(datetime \<Rightarrow> int \<Rightarrow> datetime option) \<Rightarrow> message \<Rightarrow> fixed_manager \<Rightarrow>
     (fixed_manager \<times> aligned_window_message list) option" where
  "fixed_assign_windows trunc msg m =
     map_option (\<lambda>w.
         if bt_contains win_end w (fw_active_windows m)
         then (m, [\<lparr>awm_operation = Append msg w, awm_pnf_slot = window_to_pnf_slot w\<rparr>])
         else (m\<lparr>fw_active_windows := bt_insert win_end w (fw_active_windows m)\<rparr>,
               [\<lparr>awm_operation = Open msg w, awm_pnf_slot = window_to_pnf_slot w\<rparr>]))
       (create_window trunc msg m)"

definition close_message :: "window \<Rightarrow> aligned_window_message" where
  "close_message w = \<lparr>awm_operation = Close w, awm_pnf_slot = window_to_pnf_slot w\<rparr>"

definition fixed_close_windows ::
    "datetime \<Rightarrow> fixed_manager \<Rightarrow> fixed_manager \<times> aligned_window_message list" where
  "fixed_close_windows watermark m =
     (let (windows_to_close, active) = bt_extract (\<lambda>w. win_end w \<le> watermark) (fw_active_windows m)
      in (m\<lparr>fw_active_windows := active,
            fw_closed_windows := fold (bt_insert win_end) windows_to_close (fw_closed_windows m)\<rparr>,
          map close_message windows_to_close))"

definition fixed_gc_window :: "window \<Rightarrow> fixed_manager \<Rightarrow> fixed_manager" where
  "fixed_gc_window w m = m\<lparr>fw_closed_windows := bt_remove win_end w (fw_closed_windows m)\<rparr>"

definition fixed_oldest_window :: "fixed_manager \<Rightarrow> window option" where
  "fixed_oldest_window m =
     (case bt_first (fw_closed_windows m) of
        Some w \<Rightarrow> Some w
      | None \<Rightarrow> bt_first (fw_active_windows m))"

section \<open>The sliding window manager\<close>

record sliding_manager =
  sw_window_length :: duration
  sw_slide :: duration
  sw_active_windows :: "window list"
  sw_closed_windows :: "window list"
  sw_active_window_state_file :: "string option"
  sw_max_deleted_window_end_time :: i64

text \<open>The loop from the latest window that holds the event back to the earliest.\<close>

partial_function (option) slide_back :: "i64 \<Rightarrow> i64 \<Rightarrow> i64 \<Rightarrow> i64 \<Rightarrow> window list option" where
  "slide_back slide event current_start current_end =
     (if current_start \<le> event \<and> event < current_end
      then Option.bind (slide_back slide event (current_start - slide) (current_end - slide))
             (\<lambda>ws. Some (window_new (from_timestamp_millis current_start)
                (from_timestamp_millis current_end) # ws))
      else Some [])"

definition create_windows ::
    "(datetime \<Rightarrow> int \<Rightarrow> datetime option) \<Rightarrow> message \<Rightarrow> sliding_manager \<Rightarrow> window list option" where
  "create_windows trunc msg m =
     (let len = dur_millis (sw_window_length m);
          slide = dur_millis (sw_slide m);
          event = timestamp_millis (msg_event_time msg)
      in Option.bind (truncate_to_duration trunc event slide)
           (\<lambda>start. slide_back slide event start (start + len)))"

fun assign_each ::
    "message \<Rightarrow> window list \<Rightarrow> sliding_manager \<Rightarrow> sliding_manager \<times> aligned_window_message list" where
  "assign_each msg [] m = (m, [])"
| "assign_each msg (w # ws) m =
     (if bt_contains win_end w (sw_active_windows m)
      then (case assign_each msg ws m of
              (m', ops) \<Rightarrow> (m', \<lparr>awm_operation = Append msg w, awm_pnf_slot = window_to_pnf_slot w\<rparr> # ops))
      else if timestamp_millis (win_end w) > sw_max_deleted_window_end_time m
      then (case assign_each msg ws (m\<lparr>sw_active_windows := bt_insert win_end w (sw_active_windows m)\<rparr>) of
              (m', ops) \<Rightarrow> (m', \<lparr>awm_operation = Open msg w, awm_pnf_slot = window_to_pnf_slot w\<rparr> # ops))
      else assign_each msg ws m)"

definition sliding_assign_windows ::
    "(datetime \<Rightarrow> int \<Rightarrow> datetime option) \<Rightarrow> message \<Rightarrow> sliding_manager \<Rightarrow>
     (sliding_manager \<times> aligned_window_message list) option" where
  "sliding_assign_windows trunc msg m =
     map_option (\<lambda>ws. assign_each msg ws m) (create_windows trunc msg m)"

definition sliding_close_windows ::
    "datetime \<Rightarrow> sliding_manager \<Rightarrow> sliding_manager \<times> aligned_window_message list" where
  "sliding_close_windows watermark m =
     (let (windows_to_close, active) = bt_extract (\<lambda>w. win_end w \<le> watermark) (sw_active_windows m)
      in (m\<lparr>sw_active_windows := active,
            sw_closed_windows := fold (bt_insert win_end) windows_to_close (sw_closed_windows m)\<rparr>,
          map close_message windows_to_close))"

definition sliding_gc_window :: "window \<Rightarrow> sliding_manager \<Rightarrow> sliding_manager" where
  "sliding_gc_window w m =
     m\<lparr>sw_max_deleted_window_end_time :=
         max (sw_max_deleted_window_end_time m) (timestamp_millis (win_end w)),
       sw_closed_windows := bt_remove win_end w (sw_closed_windows m)\<rparr>"

definition sliding_oldest_window :: "sliding_manager \<Rightarrow> window option" where
  "sliding_oldest_window m =
     (case bt_first (sw_closed_windows m) of
        Some w \<Rightarrow> Some w
      | None \<Rightarrow> bt_first (sw_active_windows m))"

section \<open>The state file of the sliding manager\<close>

text \<open>The file system: its files, and whether reading, writing and removing work.\<close>

record file_system =
  fs_files :: "(string, bytes) hashmap"
  fs_can_read :: bool
  fs_can_write :: bool
  fs_can_remove :: bool

record window_manager_state =
  wms_windows :: "proto_window list"
  wms_max_deleted_window_end_time :: i64

definition save_state ::
    "(window_manager_state \<Rightarrow> string + bytes) \<Rightarrow> sliding_manager \<Rightarrow> file_system \<Rightarrow>
     file_system \<times> (string + unit)" where
  "save_state encode m fs =
     (case sw_active_window_state_file m of
        None \<Rightarrow> (fs, Inr ())
      | Some path \<Rightarrow>
          let state = \<lparr>wms_windows = map window_to_proto (sw_closed_windows m @ sw_active_windows m),
                wms_max_deleted_window_end_time = sw_max_deleted_window_end_time m\<rparr>
          in (case encode state of
                Inl e \<Rightarrow> (fs, Inl e)
              | Inr buf \<Rightarrow>
                  if fs_can_write fs then (fs\<lparr>fs_files := hm_insert path buf (fs_files fs)\<rparr>, Inr ())
                  else (fs, Inl ''write failed'')))"

fun extend_windows ::
    "(i64 \<Rightarrow> nat \<Rightarrow> datetime option) \<Rightarrow> proto_window list \<Rightarrow> window list \<Rightarrow> window list option" where
  "extend_windows from_timestamp [] ws = Some ws"
| "extend_windows from_timestamp (p # ps) ws =
     Option.bind (window_from_proto from_timestamp p)
       (\<lambda>w. extend_windows from_timestamp ps (bt_insert win_end w ws))"

definition load_state ::
    "(bytes \<Rightarrow> string + window_manager_state) \<Rightarrow> (i64 \<Rightarrow> nat \<Rightarrow> datetime option) \<Rightarrow> string \<Rightarrow>
     sliding_manager \<Rightarrow> file_system \<Rightarrow> (sliding_manager \<times> file_system \<times> (string + unit)) option" where
  "load_state decode from_timestamp path m fs =
     (case hm_get (fs_files fs) path of
        None \<Rightarrow> Some (m, fs, Inr ())
      | Some buf \<Rightarrow>
          if \<not> fs_can_read fs then Some (m, fs, Inl ''read failed'')
          else
            (case decode buf of
               Inl e \<Rightarrow> Some (m, fs, Inl e)
             | Inr state \<Rightarrow>
                 map_option (\<lambda>ws.
                     let m' = m\<lparr>sw_active_windows := ws,
                           sw_max_deleted_window_end_time := wms_max_deleted_window_end_time state\<rparr>
                     in if fs_can_remove fs
                        then (m', fs\<lparr>fs_files := hm_remove path (fs_files fs)\<rparr>, Inr ())
                        else (m', fs, Inl ''remove failed''))
                   (extend_windows from_timestamp (wms_windows state) (sw_active_windows m))))"

definition sliding_new ::
    "(bytes \<Rightarrow> string + window_manager_state) \<Rightarrow> (i64 \<Rightarrow> nat \<Rightarrow> datetime option) \<Rightarrow>
     duration \<Rightarrow> duration \<Rightarrow> string option \<Rightarrow> file_system \<Rightarrow> (sliding_manager \<times> file_system) option" where
  "sliding_new decode from_timestamp window_length slide state_file_path fs =
     (let m = \<lparr>sw_window_length = window_length, sw_slide = slide, sw_active_windows = [],
            sw_closed_windows = [], sw_active_window_state_file = state_file_path,
            sw_max_deleted_window_end_time = -1\<rparr>
      in case state_file_path of
           None \<Rightarrow> Some (m, fs)
         | Some path \<Rightarrow> map_option (\<lambda>(m', fs', _). (m', fs')) (load_state decode from_timestamp path m fs))"

section \<open>Either manager\<close>

datatype aligned_window_manager = Fixed fixed_manager | Sliding sliding_manager

definition assign_windows ::
    "(datetime \<Rightarrow> int \<Rightarrow> datetime option) \<Rightarrow> message \<Rightarrow> aligned_window_manager \<Rightarrow>
     (aligned_window_manager \<times> aligned_window_message list) option" where
  "assign_windows trunc msg mgr =
     (case mgr of
        Fixed m \<Rightarrow> map_option (map_prod Fixed id) (fixed_assign_windows trunc msg m)
      | Sliding m \<Rightarrow> map_option (map_prod Sliding id) (sliding_assign_windows trunc msg m))"

definition close_windows ::
    "datetime \<Rightarrow> aligned_window_manager \<Rightarrow> aligned_window_manager \<times> aligned_window_message list" where
  "close_windows watermark mgr =
     (case mgr of
        Fixed m \<Rightarrow> map_prod Fixed id (fixed_close_windows watermark m)
      | Sliding m \<Rightarrow> map_prod Sliding id (sliding_close_windows watermark m))"

definition gc_window :: "window \<Rightarrow> aligned_window_manager \<Rightarrow> aligned_window_manager" where
  "gc_window w mgr =
     (case mgr of
        Fixed m \<Rightarrow> Fixed (fixed_gc_window w m)
      | Sliding m \<Rightarrow> Sliding (sliding_gc_window w m))"

definition oldest_window :: "aligned_window_manager \<Rightarrow> window option" where
  "oldest_window mgr =
     (case mgr of Fixed m \<Rightarrow> fixed_oldest_window m | Sliding m \<Rightarrow> sliding_oldest_window m)"

definition active_windows :: "aligned_window_manager \<Rightarrow> window list" where
  "active_windows mgr = (case mgr of Fixed m \<Rightarrow> fw_active_windows m | Sliding m \<Rightarrow> sw_active_windows m)"

definition closed_windows :: "aligned_window_manager \<Rightarrow> window list" where
  "closed_windows mgr = (case mgr of Fixed m \<Rightarrow> fw_closed_windows m | Sliding m \<Rightarrow> sw_closed_windows m)"

definition active_window_count :: "aligned_window_manager \<Rightarrow> nat" where
  "active_window_count mgr = length (active_windows mgr)"

definition closed_window_count :: "aligned_window_manager \<Rightarrow> nat" where
  "closed_window_count mgr = length (closed_windows mgr)"

section \<open>Which windows hold an event\<close>

text \<open>What the code relies on of \<^verbatim>\<open>duration_trunc\<close>: for a positive span it rounds down.\<close>

definition rounds_down :: "(datetime \<Rightarrow> int \<Rightarrow> datetime option) \<Rightarrow> bool" where
  "rounds_down trunc \<longleftrightarrow> (\<forall>t d. 0 < d \<longrightarrow> trunc t d = Some (t - t mod d))"

definition holds :: "window \<Rightarrow> datetime \<Rightarrow> bool" where
  "holds w t \<longleftrightarrow> win_start w \<le> t \<and> t < win_end w"

lemma truncate_floor:
  assumes "rounds_down trunc" and "0 < d"
  shows "truncate_to_duration trunc ts d = Some (ts - ts mod d)"
proof -
  have "(ts * 1000000) mod (d * 1000000) = (ts mod d) * 1000000" by (simp add: mod_mult_mult2)
  then have "trunc (from_timestamp_millis ts) (d * 1000000) = Some (ts * 1000000 - (ts mod d) * 1000000)"
    using assms by (simp add: rounds_down_def from_timestamp_millis_def)
  also have "ts * 1000000 - (ts mod d) * 1000000 = from_timestamp_millis (ts - ts mod d)"
    by (simp add: from_timestamp_millis_def left_diff_distrib)
  finally show ?thesis by (simp add: truncate_to_duration_def)
qed

lemma holds_millis:
  "holds (window_new (from_timestamp_millis s) (from_timestamp_millis e)) t \<longleftrightarrow>
     s \<le> timestamp_millis t \<and> timestamp_millis t < e"
  by (simp add: holds_def window_new_def less_millis_iff millis_le_iff)

text \<open>A fixed manager with a usable window length.\<close>

definition good_duration :: "duration \<Rightarrow> bool" where
  "good_duration d \<longleftrightarrow> duration_ok d \<and> 1000000 \<le> d"

lemma good_duration_millis: "good_duration d \<Longrightarrow> 0 < dur_millis d"
  by (simp add: good_duration_def div_greater_zero_iff)

lemma create_window_eq:
  assumes "rounds_down trunc" and "good_duration (fw_window_length m)"
  shows "create_window trunc msg m =
    (let len = dur_millis (fw_window_length m); t = timestamp_millis (msg_event_time msg);
         s = t - t mod len
     in Some (window_new (from_timestamp_millis s) (from_timestamp_millis (s + len))))"
  using truncate_floor [OF assms(1) good_duration_millis [OF assms(2)]]
  by (simp add: create_window_def Let_def)

text \<open>The window of a given length that starts at a given millisecond.\<close>

definition window_at :: "i64 \<Rightarrow> i64 \<Rightarrow> window" where
  "window_at len s = window_new (from_timestamp_millis s) (from_timestamp_millis (s + len))"

lemma window_at_inject [simp]: "window_at len a = window_at len b \<longleftrightarrow> a = b"
  by (simp add: window_at_def window_new_def)

lemma window_at_end_less [simp]: "win_end (window_at len a) < win_end (window_at len b) \<longleftrightarrow> a < b"
  by (simp add: window_at_def window_new_def)

lemma holds_window_at:
  "holds (window_at len s) t \<longleftrightarrow> s \<le> timestamp_millis t \<and> timestamp_millis t < s + len"
  by (simp add: window_at_def holds_millis)

text \<open>The loop of the sliding manager ends, and lists the windows from the latest to the earliest.\<close>

lemma slide_back_spec:
  assumes "0 < slide" and "s \<le> event"
  shows "\<exists>ws. slide_back slide event s (s + len) = Some ws \<and>
    sorted_wrt (\<lambda>v w. win_end w < win_end v) ws \<and>
    set ws = {window_at len (s - int k * slide) | k. event < s - int k * slide + len}"
  using assms(2)
proof (induction "nat (s + len - event)" arbitrary: s rule: less_induct)
  case less
  show ?case
  proof (cases "event < s + len")
    case True
    let ?W = "\<lambda>s. {window_at len (s - int k * slide) | k. event < s - int k * slide + len}"
    have "nat (s - slide + len - event) < nat (s + len - event)" and "s - slide \<le> event"
      using True assms(1) less.prems by auto
    from less.hyps [OF this] obtain ws where
      ws: "slide_back slide event (s - slide) (s - slide + len) = Some ws"
        "sorted_wrt (\<lambda>v w. win_end w < win_end v) ws" "set ws = ?W (s - slide)" by blast
    have shift: "s + len - slide = s - slide + len" by simp
    have "slide_back slide event s (s + len) = Some (window_at len s # ws)"
      using True less.prems ws(1) by (subst slide_back.simps) (simp add: window_at_def shift)
    moreover have "?W s = insert (window_at len s) (?W (s - slide))"
    proof (intro equalityI subsetI)
      fix w assume "w \<in> ?W s"
      then obtain k where k: "w = window_at len (s - int k * slide)" "event < s - int k * slide + len"
        by blast
      show "w \<in> insert (window_at len s) (?W (s - slide))"
      proof (cases k)
        case (Suc j)
        have "s - int k * slide = s - slide - int j * slide" by (simp add: Suc distrib_right)
        with k show ?thesis by auto
      qed (use k in simp)
    next
      fix w assume "w \<in> insert (window_at len s) (?W (s - slide))"
      then consider "w = window_at len s" | j where "w = window_at len (s - slide - int j * slide)"
        "event < s - slide - int j * slide + len" by blast
      then show "w \<in> ?W s"
      proof cases
        case 1
        with True show ?thesis by (intro CollectI exI [of _ 0]) simp
      next
        case (2 j)
        have "s - int (Suc j) * slide = s - slide - int j * slide" by (simp add: distrib_right)
        with 2 show ?thesis by (intro CollectI exI [of _ "Suc j"]) simp
      qed
    qed
    moreover have "\<forall>w \<in> set ws. win_end w < win_end (window_at len s)"
    proof
      fix w assume "w \<in> set ws"
      then obtain k where "w = window_at len (s - slide - int k * slide)" using ws(3) by blast
      moreover have "0 \<le> int k * slide" using assms(1) by simp
      then have "s - slide - int k * slide < s" using assms(1) by linarith
      ultimately show "win_end w < win_end (window_at len s)" by simp
    qed
    ultimately show ?thesis using ws(2,3) by (intro exI [of _ "window_at len s # ws"]) simp
  next
    case False
    have "\<not> event < s - int k * slide + len" for k :: nat
    proof -
      have "0 \<le> int k * slide" using assms(1) by simp
      with False show ?thesis by linarith
    qed
    with False show ?thesis by (subst slide_back.simps) simp
  qed
qed

lemma create_windows_spec:
  assumes "rounds_down trunc" and "good_duration (sw_window_length m)" and "good_duration (sw_slide m)"
  shows "\<exists>ws. create_windows trunc msg m = Some ws \<and>
    sorted_wrt (\<lambda>v w. win_end w < win_end v) ws \<and>
    set ws = {window_at (dur_millis (sw_window_length m)) s | s. dur_millis (sw_slide m) dvd s \<and>
      holds (window_at (dur_millis (sw_window_length m)) s) (msg_event_time msg)}"
proof -
  let ?len = "dur_millis (sw_window_length m)" and ?slide = "dur_millis (sw_slide m)"
  let ?t = "timestamp_millis (msg_event_time msg)"
  let ?s = "?t - ?t mod ?slide"
  have slide: "0 < ?slide" by (rule good_duration_millis [OF assms(3)])
  have "0 \<le> ?t mod ?slide" using slide by simp
  then have "?s \<le> ?t" by linarith
  from slide_back_spec [OF slide this, of ?len] obtain ws where
    ws: "slide_back ?slide ?t ?s (?s + ?len) = Some ws" "sorted_wrt (\<lambda>v w. win_end w < win_end v) ws"
    "set ws = {window_at ?len (?s - int k * ?slide) | k. ?t < ?s - int k * ?slide + ?len}" by blast
  have "{window_at ?len (?s - int k * ?slide) | k. ?t < ?s - int k * ?slide + ?len} =
      {window_at ?len s | s. ?slide dvd s \<and> holds (window_at ?len s) (msg_event_time msg)}"
    (is "?A = ?B")
  proof (intro equalityI subsetI)
    fix w assume "w \<in> ?A"
    then obtain k where k: "w = window_at ?len (?s - int k * ?slide)"
      "?t < ?s - int k * ?slide + ?len" by blast
    have "?slide dvd ?s - int k * ?slide" by (simp add: dvd_minus_mod)
    moreover have "0 \<le> int k * ?slide" using slide by simp
    then have "?s - int k * ?slide \<le> ?t" using \<open>?s \<le> ?t\<close> by linarith
    ultimately show "w \<in> ?B" using k by (auto simp: holds_window_at)
  next
    fix w assume "w \<in> ?B"
    then obtain s where s: "w = window_at ?len s" "?slide dvd s" "s \<le> ?t" "?t < s + ?len"
      by (auto simp: holds_window_at)
    have "?slide dvd ?s - s" using s(2) by (simp add: dvd_minus_mod)
    then obtain j where j: "?s - s = ?slide * j" by (elim dvdE)
    have "?t < s + ?slide * j + ?slide"
    proof -
      have "?t mod ?slide < ?slide" using slide by simp
      with j show ?thesis by linarith
    qed
    with s(3) have "0 < ?slide * (j + 1)" by (simp add: distrib_left)
    with slide have "0 \<le> j" by (simp add: zero_less_mult_iff)
    then have "s = ?s - int (nat j) * ?slide" using j by (simp add: mult.commute)
    with s show "w \<in> ?A" by (intro CollectI exI [of _ "nat j"]) simp
  qed
  with ws truncate_floor [OF assms(1) slide] show ?thesis
    by (simp add: create_windows_def Let_def)
qed

section \<open>The contract of a window manager\<close>

text \<open>
  What happens to a manager: messages arrive, the watermark advances and closes windows, closed
  windows are collected once their results are written.
\<close>

datatype window_event = Arrive message | Advance datetime | Collect window

inductive win_step ::
    "(message \<Rightarrow> 'm \<Rightarrow> ('m \<times> aligned_window_message list) option) \<Rightarrow>
     (datetime \<Rightarrow> 'm \<Rightarrow> 'm \<times> aligned_window_message list) \<Rightarrow> (window \<Rightarrow> 'm \<Rightarrow> 'm) \<Rightarrow>
     datetime \<times> 'm \<Rightarrow> window_event \<Rightarrow> datetime \<times> 'm \<Rightarrow> bool"
  for asg cls gcw where
  arrive: "asg msg m = Some (m', ops) \<Longrightarrow> wm \<le> msg_event_time msg \<Longrightarrow>
    win_step asg cls gcw (wm, m) (Arrive msg) (wm, m')"
| advance: "cls wm' m = (m', ops) \<Longrightarrow> wm \<le> wm' \<Longrightarrow> win_step asg cls gcw (wm, m) (Advance wm') (wm', m')"
| collect: "win_step asg cls gcw (wm, m) (Collect w) (wm, gcw w m)"

inductive win_run ::
    "(message \<Rightarrow> 'm \<Rightarrow> ('m \<times> aligned_window_message list) option) \<Rightarrow>
     (datetime \<Rightarrow> 'm \<Rightarrow> 'm \<times> aligned_window_message list) \<Rightarrow> (window \<Rightarrow> 'm \<Rightarrow> 'm) \<Rightarrow>
     datetime \<times> 'm \<Rightarrow> window_event list \<Rightarrow> datetime \<times> 'm \<Rightarrow> bool"
  for asg cls gcw where
  nil: "win_run asg cls gcw x [] x"
| step: "win_step asg cls gcw x e y \<Longrightarrow> win_run asg cls gcw y es z \<Longrightarrow> win_run asg cls gcw x (e # es) z"

lemma win_run_advances: "win_run asg cls gcw x es y \<Longrightarrow> fst x \<le> fst y"
proof (induction rule: win_run.induct)
  case (step x e y es z)
  then show ?case by (auto elim!: win_step.cases)
qed simp

text \<open>The watermark separates the closed windows from the active ones.\<close>

definition separated :: "datetime \<Rightarrow> window list \<Rightarrow> window list \<Rightarrow> bool" where
  "separated wm as cs \<longleftrightarrow> (\<forall>w \<in> set as. wm < win_end w) \<and> (\<forall>w \<in> set cs. win_end w \<le> wm)"

locale window_manager =
  fixes act :: "'m \<Rightarrow> window list" and clo :: "'m \<Rightarrow> window list"
    and asg :: "message \<Rightarrow> 'm \<Rightarrow> ('m \<times> aligned_window_message list) option"
    and cls :: "datetime \<Rightarrow> 'm \<Rightarrow> 'm \<times> aligned_window_message list"
    and gcw :: "window \<Rightarrow> 'm \<Rightarrow> 'm" and old :: "'m \<Rightarrow> window option" and inv :: "'m \<Rightarrow> bool"
  assumes ordered: "inv m \<Longrightarrow> bt_wf win_end (act m) \<and> bt_wf win_end (clo m)"
    and asg_total: "inv m \<Longrightarrow> \<exists>r. asg msg m = Some r"
    and asg_law: "inv m \<Longrightarrow> asg msg m = Some (m', ops) \<Longrightarrow> inv m' \<and> clo m' = clo m \<and>
      set (act m) \<subseteq> set (act m') \<and> (\<forall>w \<in> set (act m') - set (act m). holds w (msg_event_time msg))"
    and cls_law: "inv m \<Longrightarrow> cls wm m = (m', ops) \<Longrightarrow> inv m' \<and>
      act m' = filter (\<lambda>w. \<not> win_end w \<le> wm) (act m) \<and>
      clo m' = fold (bt_insert win_end) (filter (\<lambda>w. win_end w \<le> wm) (act m)) (clo m) \<and>
      ops = map close_message (filter (\<lambda>w. win_end w \<le> wm) (act m))"
    and gcw_law: "inv m \<Longrightarrow> inv (gcw w m) \<and> act (gcw w m) = act m \<and>
      clo (gcw w m) = bt_remove win_end w (clo m)"
    and old_law: "inv m \<Longrightarrow> old m =
      (case bt_first (clo m) of Some w \<Rightarrow> Some w | None \<Rightarrow> bt_first (act m))"
begin

lemma separated_step:
  assumes "win_step asg cls gcw (wm, m) e (wm', m')" and "inv m" and "separated wm (act m) (clo m)"
  shows "inv m' \<and> separated wm' (act m') (clo m')"
  using assms(1)
proof cases
  case (arrive msg ops)
  note law = asg_law [OF assms(2) arrive(3)]
  have "wm < win_end w" if "w \<in> set (act m')" for w
  proof -
    from law that have "w \<in> set (act m) \<or> holds w (msg_event_time msg)" by blast
    with assms(3) arrive(4) show ?thesis by (auto simp: separated_def holds_def)
  qed
  with law assms(3) arrive(2) show ?thesis by (simp add: separated_def)
next
  case (advance ops)
  note law = cls_law [OF assms(2) advance(2)]
  have "set (clo m') \<subseteq> {w \<in> set (act m). win_end w \<le> wm'} \<union> set (clo m)"
    using law set_fold_bt_insert(2) [of win_end "clo m" "filter (\<lambda>w. win_end w \<le> wm') (act m)"]
      ordered [OF assms(2)] by auto
  with law advance(3) assms(3) show ?thesis by (fastforce simp: separated_def)
next
  case (collect w)
  with gcw_law [OF assms(2), of w] assms(3) show ?thesis by (simp add: separated_def)
qed

lemma separated_run:
  "win_run asg cls gcw x es y \<Longrightarrow> inv (snd x) \<Longrightarrow> separated (fst x) (act (snd x)) (clo (snd x)) \<Longrightarrow>
   inv (snd y) \<and> separated (fst y) (act (snd y)) (clo (snd y))"
proof (induction rule: win_run.induct)
  case (step x e y es z)
  then show ?case using separated_step [of "fst x" "snd x" e "fst y" "snd y"] by simp
qed simp

lemma oldest_least:
  assumes "inv m" and "separated wm (act m) (clo m)"
  shows "(old m = None \<longleftrightarrow> act m = [] \<and> clo m = []) \<and>
    (\<forall>w. old m = Some w \<longrightarrow> w \<in> set (act m) \<union> set (clo m) \<and>
       (\<forall>v \<in> set (act m) \<union> set (clo m). win_end w \<le> win_end v))"
proof (cases "bt_first (clo m)")
  case None
  then have "old m = bt_first (act m)" using old_law [OF assms(1)] by (simp only: option.case)
  moreover have "clo m = []" using None by simp
  ultimately show ?thesis using ordered [OF assms(1)] by (auto dest: bt_first_in bt_first_least)
next
  case (Some w)
  have "win_end w \<le> win_end v" if "v \<in> set (clo m)" for v
    using bt_first_least [of win_end "clo m" w v] Some that ordered [OF assms(1)] by simp
  moreover have "win_end w \<le> win_end v" if "v \<in> set (act m)" for v
    using assms(2) bt_first_in [OF Some] that by (fastforce simp: separated_def)
  moreover have "clo m \<noteq> []" using Some by (cases "clo m") (auto simp: bt_first_def)
  ultimately show ?thesis using Some old_law [OF assms(1)] bt_first_in [OF Some] by auto
qed

end

section \<open>Both managers keep the contract\<close>

text \<open>All windows of a manager have its length and start at a multiple of its step.\<close>

definition aligned :: "i64 \<Rightarrow> i64 \<Rightarrow> window list \<Rightarrow> bool" where
  "aligned len step ws \<longleftrightarrow> (\<forall>w \<in> set ws. \<exists>s. step dvd s \<and> w = window_at len s)"

definition fixed_inv :: "fixed_manager \<Rightarrow> bool" where
  "fixed_inv m \<longleftrightarrow> good_duration (fw_window_length m) \<and>
     bt_wf win_end (fw_active_windows m) \<and> bt_wf win_end (fw_closed_windows m) \<and>
     aligned (dur_millis (fw_window_length m)) (dur_millis (fw_window_length m))
       (fw_active_windows m @ fw_closed_windows m)"

definition sliding_inv :: "sliding_manager \<Rightarrow> bool" where
  "sliding_inv m \<longleftrightarrow> good_duration (sw_window_length m) \<and> good_duration (sw_slide m) \<and>
     bt_wf win_end (sw_active_windows m) \<and> bt_wf win_end (sw_closed_windows m) \<and>
     aligned (dur_millis (sw_window_length m)) (dur_millis (sw_slide m))
       (sw_active_windows m @ sw_closed_windows m)"

definition aligned_inv :: "(datetime \<Rightarrow> int \<Rightarrow> datetime option) \<Rightarrow> aligned_window_manager \<Rightarrow> bool" where
  "aligned_inv trunc mgr \<longleftrightarrow> rounds_down trunc \<and>
     (case mgr of Fixed m \<Rightarrow> fixed_inv m | Sliding m \<Rightarrow> sliding_inv m)"

lemma aligned_subset: "aligned len step ws \<Longrightarrow> set vs \<subseteq> set ws \<Longrightarrow> aligned len step vs"
  by (auto simp: aligned_def)

lemma window_at_end_eq [simp]: "win_end (window_at len a) = win_end (window_at len b) \<longleftrightarrow> a = b"
  by (simp add: window_at_def window_new_def)

text \<open>Windows of one length are told apart by their end.\<close>

lemma aligned_end_inject:
  assumes "aligned len step ws" and "v \<in> set ws" and "w \<in> set ws" and "win_end v = win_end w"
  shows "v = w"
proof -
  obtain a b where "v = window_at len a" "w = window_at len b"
    using assms(1-3) unfolding aligned_def by metis
  with assms(4) show ?thesis by simp
qed

lemma aligned_contains:
  assumes "aligned len step ws" and "step dvd s"
  shows "bt_contains win_end (window_at len s) ws \<longleftrightarrow> window_at len s \<in> set ws"
proof
  assume "bt_contains win_end (window_at len s) ws"
  then obtain v where v: "v \<in> set ws" "win_end v = win_end (window_at len s)" by auto
  with assms(1) obtain r where "v = window_at len r" by (auto simp: aligned_def)
  with v show "window_at len s \<in> set ws" by simp
qed auto

lemma create_window_at:
  assumes "rounds_down trunc" and "good_duration (fw_window_length m)"
  obtains s where "create_window trunc msg m = Some (window_at (dur_millis (fw_window_length m)) s)"
    and "dur_millis (fw_window_length m) dvd s"
    and "holds (window_at (dur_millis (fw_window_length m)) s) (msg_event_time msg)"
proof -
  let ?len = "dur_millis (fw_window_length m)" and ?t = "timestamp_millis (msg_event_time msg)"
  have len: "0 < ?len" by (rule good_duration_millis [OF assms(2)])
  then have "0 \<le> ?t mod ?len" "?t mod ?len < ?len" by simp_all
  then have "holds (window_at ?len (?t - ?t mod ?len)) (msg_event_time msg)"
    unfolding holds_window_at by linarith
  moreover have "?len dvd ?t - ?t mod ?len" by (rule dvd_minus_mod)
  ultimately show thesis
    using that create_window_eq [OF assms] by (simp add: window_at_def Let_def)
qed

lemma fixed_assign_law:
  assumes "rounds_down trunc" and "fixed_inv m" and "fixed_assign_windows trunc msg m = Some (m', ops)"
  shows "fixed_inv m' \<and> fw_closed_windows m' = fw_closed_windows m \<and>
    set (fw_active_windows m) \<subseteq> set (fw_active_windows m') \<and>
    (\<forall>w \<in> set (fw_active_windows m') - set (fw_active_windows m). holds w (msg_event_time msg))"
proof -
  have "good_duration (fw_window_length m)" using assms(2) by (simp add: fixed_inv_def)
  then obtain s where s: "create_window trunc msg m = Some (window_at (dur_millis (fw_window_length m)) s)"
    "dur_millis (fw_window_length m) dvd s"
    "holds (window_at (dur_millis (fw_window_length m)) s) (msg_event_time msg)"
    using create_window_at [OF assms(1)] by blast
  have wf: "bt_wf win_end (fw_active_windows m)" using assms(2) by (simp add: fixed_inv_def)
  show ?thesis
    using assms(2,3) s set_bt_insert [OF wf, of "window_at (dur_millis (fw_window_length m)) s"]
    by (auto simp: fixed_assign_windows_def fixed_inv_def aligned_def split: if_splits)
qed

lemma close_keeps:
  assumes "bt_wf win_end as" and "bt_wf win_end cs" and "aligned len step (as @ cs)"
  shows "bt_wf win_end (filter (\<lambda>w. \<not> win_end w \<le> wm) as) \<and>
    bt_wf win_end (fold (bt_insert win_end) (filter (\<lambda>w. win_end w \<le> wm) as) cs) \<and>
    aligned len step (filter (\<lambda>w. \<not> win_end w \<le> wm) as @
      fold (bt_insert win_end) (filter (\<lambda>w. win_end w \<le> wm) as) cs)"
proof -
  have "set (fold (bt_insert win_end) (filter (\<lambda>w. win_end w \<le> wm) as) cs) \<subseteq> set as \<union> set cs"
    using set_fold_bt_insert(2) [OF assms(2), of "filter (\<lambda>w. win_end w \<le> wm) as"] by auto
  then have "aligned len step (filter (\<lambda>w. \<not> win_end w \<le> wm) as @
      fold (bt_insert win_end) (filter (\<lambda>w. win_end w \<le> wm) as) cs)"
    by (intro aligned_subset [OF assms(3)]) auto
  with assms set_fold_bt_insert(1) show ?thesis by auto
qed

lemma assign_each_law:
  assumes "bt_wf win_end (sw_active_windows m)" and "assign_each msg ws m = (m', ops)"
  shows "bt_wf win_end (sw_active_windows m') \<and> sw_closed_windows m' = sw_closed_windows m \<and>
    sw_window_length m' = sw_window_length m \<and> sw_slide m' = sw_slide m \<and>
    sw_max_deleted_window_end_time m' = sw_max_deleted_window_end_time m \<and>
    set (sw_active_windows m) \<subseteq> set (sw_active_windows m') \<and>
    set (sw_active_windows m') \<subseteq> set (sw_active_windows m) \<union>
      {w \<in> set ws. timestamp_millis (win_end w) > sw_max_deleted_window_end_time m}"
  using assms
proof (induction msg ws m arbitrary: m' ops rule: assign_each.induct)
  case (2 msg w ws m)
  consider (appended) "bt_contains win_end w (sw_active_windows m)"
    | (opened) "\<not> bt_contains win_end w (sw_active_windows m)"
        "timestamp_millis (win_end w) > sw_max_deleted_window_end_time m"
    | (ignored) "\<not> bt_contains win_end w (sw_active_windows m)"
        "\<not> timestamp_millis (win_end w) > sw_max_deleted_window_end_time m" by blast
  then show ?case
  proof cases
    case appended
    then obtain ops' where "assign_each msg ws m = (m', ops')"
      using "2.prems"(2) by (auto split: prod.splits)
    from "2.IH"(1) [OF appended "2.prems"(1) this] show ?thesis by auto
  next
    case opened
    let ?n = "m\<lparr>sw_active_windows := bt_insert win_end w (sw_active_windows m)\<rparr>"
    have new: "set (sw_active_windows ?n) = insert w (set (sw_active_windows m))"
      using opened(1) set_bt_insert [OF "2.prems"(1), of w] by simp
    obtain ops' where "assign_each msg ws ?n = (m', ops')"
      using opened "2.prems"(2) by (auto split: prod.splits)
    from "2.IH"(2) [OF opened _ this] "2.prems"(1) new opened(2) show ?thesis by auto
  next
    case ignored
    from ignored "2.prems"(2) have "assign_each msg ws m = (m', ops)" by simp
    from "2.IH"(3) [OF ignored "2.prems"(1) this] show ?thesis by auto
  qed
qed simp

lemma sliding_assign_law:
  assumes "rounds_down trunc" and "sliding_inv m" and "sliding_assign_windows trunc msg m = Some (m', ops)"
  shows "sliding_inv m' \<and> sw_closed_windows m' = sw_closed_windows m \<and>
    set (sw_active_windows m) \<subseteq> set (sw_active_windows m') \<and>
    (\<forall>w \<in> set (sw_active_windows m') - set (sw_active_windows m). holds w (msg_event_time msg))"
proof -
  let ?len = "dur_millis (sw_window_length m)" and ?slide = "dur_millis (sw_slide m)"
  have good: "good_duration (sw_window_length m)" "good_duration (sw_slide m)"
    and wf: "bt_wf win_end (sw_active_windows m)" using assms(2) by (simp_all add: sliding_inv_def)
  from create_windows_spec [OF assms(1) good, of msg] obtain ws where
    ws: "create_windows trunc msg m = Some ws"
      "set ws = {window_at ?len s | s. ?slide dvd s \<and> holds (window_at ?len s) (msg_event_time msg)}"
    by blast
  then have "assign_each msg ws m = (m', ops)" using assms(3) by (simp add: sliding_assign_windows_def)
  note law = assign_each_law [OF wf this]
  have "aligned ?len ?slide (sw_active_windows m' @ sw_closed_windows m')"
    unfolding aligned_def
  proof
    fix w assume "w \<in> set (sw_active_windows m' @ sw_closed_windows m')"
    with law have "w \<in> set (sw_active_windows m @ sw_closed_windows m) \<or> w \<in> set ws" by auto
    then show "\<exists>s. ?slide dvd s \<and> w = window_at ?len s"
      using assms(2) ws(2) by (auto simp: sliding_inv_def aligned_def)
  qed
  moreover have "\<forall>w \<in> set (sw_active_windows m') - set (sw_active_windows m). holds w (msg_event_time msg)"
    using law ws(2) by auto
  ultimately show ?thesis using law assms(2) by (auto simp: sliding_inv_def)
qed

lemma assign_total:
  assumes "aligned_inv trunc mgr"
  shows "\<exists>r. assign_windows trunc msg mgr = Some r"
proof (cases mgr)
  case (Fixed m)
  then have "rounds_down trunc" "good_duration (fw_window_length m)"
    using assms by (simp_all add: aligned_inv_def fixed_inv_def)
  from create_window_eq [OF this] Fixed show ?thesis
    by (simp add: assign_windows_def fixed_assign_windows_def Let_def)
next
  case (Sliding m)
  then have "rounds_down trunc" "good_duration (sw_window_length m)" "good_duration (sw_slide m)"
    using assms by (simp_all add: aligned_inv_def sliding_inv_def)
  from create_windows_spec [OF this, of msg] obtain ws where "create_windows trunc msg m = Some ws" by blast
  with Sliding show ?thesis by (simp add: assign_windows_def sliding_assign_windows_def)
qed

lemma assign_law:
  assumes "aligned_inv trunc mgr" and "assign_windows trunc msg mgr = Some (mgr', ops)"
  shows "aligned_inv trunc mgr' \<and> closed_windows mgr' = closed_windows mgr \<and>
    set (active_windows mgr) \<subseteq> set (active_windows mgr') \<and>
    (\<forall>w \<in> set (active_windows mgr') - set (active_windows mgr). holds w (msg_event_time msg))"
proof (cases mgr)
  case (Fixed m)
  with assms obtain m' where m': "fixed_assign_windows trunc msg m = Some (m', ops)" "mgr' = Fixed m'"
    by (auto simp: assign_windows_def)
  have inv: "rounds_down trunc" "fixed_inv m" using assms(1) Fixed by (simp_all add: aligned_inv_def)
  from fixed_assign_law [OF this m'(1)] inv(1) Fixed m'(2) show ?thesis
    unfolding aligned_inv_def active_windows_def closed_windows_def by simp
next
  case (Sliding m)
  with assms obtain m' where m': "sliding_assign_windows trunc msg m = Some (m', ops)" "mgr' = Sliding m'"
    by (auto simp: assign_windows_def)
  have inv: "rounds_down trunc" "sliding_inv m" using assms(1) Sliding by (simp_all add: aligned_inv_def)
  from sliding_assign_law [OF this m'(1)] inv(1) Sliding m'(2) show ?thesis
    unfolding aligned_inv_def active_windows_def closed_windows_def by simp
qed

lemma close_law:
  assumes "aligned_inv trunc mgr" and "close_windows wm mgr = (mgr', ops)"
  shows "aligned_inv trunc mgr' \<and>
    active_windows mgr' = filter (\<lambda>w. \<not> win_end w \<le> wm) (active_windows mgr) \<and>
    closed_windows mgr' = fold (bt_insert win_end) (filter (\<lambda>w. win_end w \<le> wm) (active_windows mgr))
      (closed_windows mgr) \<and>
    ops = map close_message (filter (\<lambda>w. win_end w \<le> wm) (active_windows mgr))"
proof (cases mgr)
  case (Fixed m)
  then have "fixed_inv m" using assms(1) by (simp add: aligned_inv_def)
  then have "fixed_inv (fst (fixed_close_windows wm m))"
    using close_keeps [of "fw_active_windows m" "fw_closed_windows m" _ _ wm]
      set_fold_bt_insert(1) [of win_end "fw_closed_windows m"]
    by (simp add: fixed_inv_def fixed_close_windows_def bt_extract_def)
  with Fixed assms show ?thesis
    by (auto simp: aligned_inv_def close_windows_def active_windows_def closed_windows_def
      fixed_close_windows_def bt_extract_def)
next
  case (Sliding m)
  then have "sliding_inv m" using assms(1) by (simp add: aligned_inv_def)
  then have "sliding_inv (fst (sliding_close_windows wm m))"
    using close_keeps [of "sw_active_windows m" "sw_closed_windows m" _ _ wm]
      set_fold_bt_insert(1) [of win_end "sw_closed_windows m"]
    by (simp add: sliding_inv_def sliding_close_windows_def bt_extract_def)
  with Sliding assms show ?thesis
    by (auto simp: aligned_inv_def close_windows_def active_windows_def closed_windows_def
      sliding_close_windows_def bt_extract_def)
qed

lemma gc_law:
  assumes "aligned_inv trunc mgr"
  shows "aligned_inv trunc (gc_window w mgr) \<and> active_windows (gc_window w mgr) = active_windows mgr \<and>
    closed_windows (gc_window w mgr) = bt_remove win_end w (closed_windows mgr)"
proof (cases mgr)
  case (Fixed m)
  with assms show ?thesis
    by (auto simp: aligned_inv_def gc_window_def active_windows_def closed_windows_def
      fixed_gc_window_def fixed_inv_def aligned_def)
next
  case (Sliding m)
  with assms show ?thesis
    by (auto simp: aligned_inv_def gc_window_def active_windows_def closed_windows_def
      sliding_gc_window_def sliding_inv_def aligned_def)
qed

interpretation awm: window_manager active_windows closed_windows "assign_windows trunc" close_windows
  gc_window oldest_window "aligned_inv trunc" for trunc
proof
  fix m :: aligned_window_manager
  assume "aligned_inv trunc m"
  then show "bt_wf win_end (active_windows m) \<and> bt_wf win_end (closed_windows m)"
    by (cases m) (simp_all add: aligned_inv_def active_windows_def closed_windows_def
      fixed_inv_def sliding_inv_def)
  show "oldest_window m =
      (case bt_first (closed_windows m) of Some w \<Rightarrow> Some w | None \<Rightarrow> bt_first (active_windows m))"
    by (cases m) (simp_all add: oldest_window_def closed_windows_def active_windows_def
      fixed_oldest_window_def sliding_oldest_window_def bt_first_def split: list.split)
qed (rule assign_total assign_law close_law gc_law, assumption+)+

section \<open>What an assignment tells the reducer\<close>

text \<open>A window gets the message if it is active, or is newer than every collected window.\<close>

definition eligible :: "sliding_manager \<Rightarrow> window \<Rightarrow> bool" where
  "eligible m w \<longleftrightarrow> bt_contains win_end w (sw_active_windows m) \<or>
     timestamp_millis (win_end w) > sw_max_deleted_window_end_time m"

definition assign_message :: "window list \<Rightarrow> message \<Rightarrow> window \<Rightarrow> aligned_window_message" where
  "assign_message as msg w =
     \<lparr>awm_operation = (if bt_contains win_end w as then Append msg w else Open msg w),
      awm_pnf_slot = window_to_pnf_slot w\<rparr>"

fun operation_window :: "aligned_window_operation \<Rightarrow> window" where
  "operation_window (Open msg w) = w"
| "operation_window (Close w) = w"
| "operation_window (Append msg w) = w"

definition assigned :: "aligned_window_message list \<Rightarrow> window set" where
  "assigned ops = operation_window ` awm_operation ` set ops"

lemma assigned_simps [simp]:
  "assigned [] = {}"
  "assigned (x # ops) = insert (operation_window (awm_operation x)) (assigned ops)"
  "assigned (map (assign_message as msg) ws) = set ws"
proof -
  show "assigned (map (assign_message as msg) ws) = set ws"
    by (induction ws) (auto simp: assigned_def assign_message_def)
qed (simp_all add: assigned_def)

lemma assign_each_ops:
  assumes "sorted_wrt (\<lambda>v w. win_end w < win_end v) ws"
  shows "snd (assign_each msg ws m) = map (assign_message (sw_active_windows m) msg) (filter (eligible m) ws) \<and>
    win_end ` set (sw_active_windows (fst (assign_each msg ws m))) =
      win_end ` (set (sw_active_windows m) \<union> set (filter (eligible m) ws))"
  using assms
proof (induction msg ws m rule: assign_each.induct)
  case (2 msg w ws m)
  let ?n = "m\<lparr>sw_active_windows := bt_insert win_end w (sw_active_windows m)\<rparr>"
  have later: "\<forall>v \<in> set ws. win_end v \<noteq> win_end w" using "2.prems" by auto
  have same: "bt_contains win_end v (sw_active_windows ?n) = bt_contains win_end v (sw_active_windows m)"
    if "v \<in> set ws" for v using later that by (auto simp: bt_insert_keys)
  have elig: "filter (eligible ?n) ws = filter (eligible m) ws"
    using same by (intro filter_cong) (simp_all add: eligible_def del: bt_contains_iff)
  have msgs: "map (assign_message (sw_active_windows ?n) msg) (filter (eligible m) ws) =
      map (assign_message (sw_active_windows m) msg) (filter (eligible m) ws)"
    using same by (intro map_cong) (simp_all add: assign_message_def del: bt_contains_iff)
  have sorted: "sorted_wrt (\<lambda>v w. win_end w < win_end v) ws" using "2.prems" by simp
  consider (appended) "bt_contains win_end w (sw_active_windows m)"
    | (opened) "\<not> bt_contains win_end w (sw_active_windows m)"
        "timestamp_millis (win_end w) > sw_max_deleted_window_end_time m"
    | (ignored) "\<not> bt_contains win_end w (sw_active_windows m)"
        "\<not> timestamp_millis (win_end w) > sw_max_deleted_window_end_time m" by blast
  then show ?case
  proof cases
    case appended
    then have "eligible m w" by (simp add: eligible_def)
    with appended "2.IH"(1) [OF appended sorted] show ?thesis
      by (auto simp: assign_message_def split_beta)
  next
    case opened
    then have "eligible m w" by (simp add: eligible_def)
    with opened "2.IH"(2) [OF opened sorted] elig msgs show ?thesis
      by (simp add: assign_message_def split_beta bt_insert_keys image_Un)
  next
    case ignored
    then have "\<not> eligible m w" by (simp add: eligible_def)
    with ignored "2.IH"(3) [OF ignored sorted] show ?thesis by simp
  qed
qed simp

lemma fixed_assign_exact_lemma:
  assumes "rounds_down trunc" and "fixed_inv m"
  shows "\<exists>w m'. fixed_assign_windows trunc msg m = Some (m', [assign_message (fw_active_windows m) msg w]) \<and>
    holds w (msg_event_time msg) \<and>
    (\<exists>s. dur_millis (fw_window_length m) dvd s \<and> w = window_at (dur_millis (fw_window_length m)) s) \<and>
    (\<forall>s. dur_millis (fw_window_length m) dvd s \<and>
       holds (window_at (dur_millis (fw_window_length m)) s) (msg_event_time msg) \<longrightarrow>
       window_at (dur_millis (fw_window_length m)) s = w) \<and>
    set (fw_active_windows m') = insert w (set (fw_active_windows m)) \<and>
    fw_closed_windows m' = fw_closed_windows m \<and> fw_window_length m' = fw_window_length m"
proof -
  let ?len = "dur_millis (fw_window_length m)"
  have good: "good_duration (fw_window_length m)" and wf: "bt_wf win_end (fw_active_windows m)"
    and al: "aligned ?len ?len (fw_active_windows m)"
    using assms(2) by (auto simp: fixed_inv_def aligned_def)
  obtain s where s: "create_window trunc msg m = Some (window_at ?len s)" "?len dvd s"
    "holds (window_at ?len s) (msg_event_time msg)" using create_window_at [OF assms(1) good] by blast
  have "window_at ?len r = window_at ?len s"
    if "?len dvd r" "holds (window_at ?len r) (msg_event_time msg)" for r
  proof -
    have "?len dvd r - s" using that(1) s(2) by (rule dvd_diff)
    moreover have "\<bar>r - s\<bar> < ?len" using that(2) s(3) unfolding holds_window_at by linarith
    ultimately have "r - s = 0" using dvd_imp_le_int [of "r - s" ?len] by fastforce
    then show ?thesis by simp
  qed
  note unique = this
  let ?w = "window_at ?len s"
  let ?m = "if bt_contains win_end ?w (fw_active_windows m) then m
    else m\<lparr>fw_active_windows := bt_insert win_end ?w (fw_active_windows m)\<rparr>"
  have "fixed_assign_windows trunc msg m = Some (?m, [assign_message (fw_active_windows m) msg ?w])"
    using s(1) by (simp add: fixed_assign_windows_def assign_message_def)
  moreover have "set (fw_active_windows ?m) = insert ?w (set (fw_active_windows m))"
    using aligned_contains [OF al s(2)] set_bt_insert [OF wf, of ?w] by auto
  moreover have "fw_closed_windows ?m = fw_closed_windows m" "fw_window_length ?m = fw_window_length m" by simp_all
  ultimately show ?thesis using s(2,3) unique by blast
qed

lemma sliding_assign_exact_lemma:
  assumes "rounds_down trunc" and "sliding_inv m"
  shows "\<exists>m' ws. sliding_assign_windows trunc msg m =
      Some (m', map (assign_message (sw_active_windows m) msg) (filter (eligible m) ws)) \<and>
    sorted_wrt (\<lambda>v w. win_end w < win_end v) ws \<and>
    set ws = {window_at (dur_millis (sw_window_length m)) s | s. dur_millis (sw_slide m) dvd s \<and>
      holds (window_at (dur_millis (sw_window_length m)) s) (msg_event_time msg)} \<and>
    set (sw_active_windows m') = set (sw_active_windows m) \<union> set (filter (eligible m) ws) \<and>
    sw_closed_windows m' = sw_closed_windows m \<and> sw_window_length m' = sw_window_length m \<and>
    sw_slide m' = sw_slide m \<and> sw_max_deleted_window_end_time m' = sw_max_deleted_window_end_time m"
proof -
  let ?len = "dur_millis (sw_window_length m)" and ?slide = "dur_millis (sw_slide m)"
  have good: "good_duration (sw_window_length m)" "good_duration (sw_slide m)"
    using assms(2) by (simp_all add: sliding_inv_def)
  from create_windows_spec [OF assms(1) good, of msg] obtain ws where
    ws: "create_windows trunc msg m = Some ws" "sorted_wrt (\<lambda>v w. win_end w < win_end v) ws"
      "set ws = {window_at ?len s | s. ?slide dvd s \<and> holds (window_at ?len s) (msg_event_time msg)}"
    by blast
  obtain m' ops where run: "assign_each msg ws m = (m', ops)" by (cases "assign_each msg ws m")
  with ws(1) have asg: "sliding_assign_windows trunc msg m = Some (m', ops)"
    by (simp add: sliding_assign_windows_def)
  note ops = assign_each_ops [OF ws(2), of msg m, unfolded run fst_conv snd_conv]
  let ?all = "sw_active_windows m @ filter (eligible m) ws"
  have kept: "sw_window_length m' = sw_window_length m" "sw_slide m' = sw_slide m"
    "sw_max_deleted_window_end_time m' = sw_max_deleted_window_end_time m"
    using assign_each_law [OF _ run] assms(2) by (simp_all add: sliding_inv_def)
  then have all: "aligned ?len ?slide (sw_active_windows m' @ ?all)"
    using sliding_assign_law [OF assms asg] assms(2) ws(3)
    by (auto simp: aligned_def sliding_inv_def)
  have "set (sw_active_windows m') = set ?all"
  proof (intro equalityI subsetI)
    fix w assume w: "w \<in> set (sw_active_windows m')"
    then obtain v where "v \<in> set ?all" "win_end v = win_end w" using ops by force
    with w aligned_end_inject [OF all, of v w] show "w \<in> set ?all" by auto
  next
    fix w assume w: "w \<in> set ?all"
    then obtain v where "v \<in> set (sw_active_windows m')" "win_end v = win_end w"
      using ops by (metis (no_types, lifting) imageE image_eqI set_append)
    with w aligned_end_inject [OF all, of v w] show "w \<in> set (sw_active_windows m')" by auto
  qed
  moreover have "sw_closed_windows m' = sw_closed_windows m" using sliding_assign_law [OF assms asg] by blast
  ultimately show ?thesis
    using asg ops ws(2,3) kept by (intro exI [of _ m'] exI [of _ ws]) simp
qed

lemma assign_ops_hold:
  assumes "aligned_inv trunc mgr" and "assign_windows trunc msg mgr = Some (mgr', ops)" and "w \<in> assigned ops"
  shows "holds w (msg_event_time msg)"
proof (cases mgr)
  case (Fixed m)
  then have "rounds_down trunc" "fixed_inv m" using assms(1) by (simp_all add: aligned_inv_def)
  from fixed_assign_exact_lemma [OF this, of msg] obtain v m' where
    v: "fixed_assign_windows trunc msg m = Some (m', [assign_message (fw_active_windows m) msg v])"
      "holds v (msg_event_time msg)" by blast
  have "assigned [assign_message (fw_active_windows m) msg v] = {v}"
    using assigned_simps(3) [of "fw_active_windows m" msg "[v]"] by simp
  with v Fixed assms(2,3) show ?thesis by (simp add: assign_windows_def)
next
  case (Sliding m)
  then have "rounds_down trunc" "sliding_inv m" using assms(1) by (simp_all add: aligned_inv_def)
  from sliding_assign_exact_lemma [OF this, of msg] obtain m' ws where
    ws: "sliding_assign_windows trunc msg m =
        Some (m', map (assign_message (sw_active_windows m) msg) (filter (eligible m) ws))"
      "set ws = {window_at (dur_millis (sw_window_length m)) s | s. dur_millis (sw_slide m) dvd s \<and>
        holds (window_at (dur_millis (sw_window_length m)) s) (msg_event_time msg)}" by blast
  have "ops = map (assign_message (sw_active_windows m) msg) (filter (eligible m) ws)"
    using ws(1) Sliding assms(2) by (simp add: assign_windows_def)
  then have "w \<in> set (filter (eligible m) ws)" using assms(3) by (simp only: assigned_simps)
  then have "w \<in> set ws" by simp
  then show ?thesis unfolding ws(2) by (elim CollectE exE conjE) simp
qed

section \<open>Saving and loading the windows\<close>

lemma window_from_to_proto:
  assumes "decodes_timestamps from_timestamp" and "representable (win_start w)" and "representable (win_end w)"
  shows "window_from_proto from_timestamp (window_to_proto w) = Some w"
  using assms by (simp add: window_from_proto_def window_to_proto_def timestamp_roundtrip window_new_def)

lemma extend_windows_saved:
  assumes "decodes_timestamps from_timestamp"
    and "\<forall>w \<in> set ws. representable (win_start w) \<and> representable (win_end w)"
  shows "extend_windows from_timestamp (map window_to_proto ws) vs = Some (fold (bt_insert win_end) ws vs)"
  using assms(2) by (induction ws arbitrary: vs) (simp_all add: window_from_to_proto [OF assms(1)])

section \<open>Properties\<close>

definition example_trunc :: "datetime \<Rightarrow> int \<Rightarrow> datetime option" where
  "example_trunc t d = (if 0 < d then Some (t - t mod d) else None)"

lemma example_trunc: "rounds_down example_trunc"
  by (simp add: rounds_down_def example_trunc_def)

definition example_fixed :: fixed_manager where
  "example_fixed = fixed_new 60000000000"

definition example_sliding :: sliding_manager where
  "example_sliding = \<lparr>sw_window_length = 60000000000, sw_slide = 20000000000,
     sw_active_windows = [window_at 60000 0], sw_closed_windows = [],
     sw_active_window_state_file = Some ''wm.state'', sw_max_deleted_window_end_time = -1\<rparr>"

definition example_state :: window_manager_state where
  "example_state = \<lparr>wms_windows = [window_to_proto (window_at 60000 0)], wms_max_deleted_window_end_time = -1\<rparr>"

definition example_encode :: "window_manager_state \<Rightarrow> string + bytes" where
  "example_encode s = (if s = example_state then Inr [7] else Inl ''too large'')"

definition example_decode :: "bytes \<Rightarrow> string + window_manager_state" where
  "example_decode buf = (if buf = [7] then Inr example_state else Inl ''bad message'')"

lemma example_durations: "good_duration 60000000000" "good_duration 20000000000"
  "dur_millis 60000000000 = 60000" "dur_millis 20000000000 = 20000"
  by (simp_all add: good_duration_def duration_ok_def i64_MAX_def)

lemma example_fixed_inv: "fixed_inv example_fixed"
  by (simp add: example_fixed_def fixed_new_def fixed_inv_def example_durations aligned_def)

lemma example_sliding_inv: "sliding_inv example_sliding"
proof -
  have "\<exists>s. 20000 dvd s \<and> window_at 60000 0 = window_at 60000 s" by (intro exI [of _ 0]) simp
  then show ?thesis by (simp add: example_sliding_def sliding_inv_def example_durations aligned_def)
qed





lemma example_fixed_aligned: "aligned_inv example_trunc (Fixed example_fixed)"
  "active_windows (Fixed example_fixed) = []" "closed_windows (Fixed example_fixed) = []"
  by (simp add: aligned_inv_def example_trunc example_fixed_inv)
    (simp_all add: active_windows_def closed_windows_def example_fixed_def fixed_new_def)

lemma separated_empty [simp]: "separated wm [] []"
  by (simp add: separated_def)

lemma example_arrive:
  obtains mgr ops where
    "assign_windows example_trunc (message_default 61000000000) (Fixed example_fixed) = Some (mgr, ops)"
    and "win_run (assign_windows example_trunc) close_windows gc_window (0, Fixed example_fixed)
      [Arrive (message_default 61000000000)] (0, mgr)"
proof -
  obtain mgr ops where asg:
    "assign_windows example_trunc (message_default 61000000000) (Fixed example_fixed) = Some (mgr, ops)"
    using assign_total [OF example_fixed_aligned(1)] by (metis surj_pair)
  have "win_step (assign_windows example_trunc) close_windows gc_window (0, Fixed example_fixed)
      (Arrive (message_default 61000000000)) (0, mgr)"
    by (rule arrive [where asg = "assign_windows example_trunc", OF asg]) (simp add: message_default_def)
  from asg win_run.step [OF this win_run.nil] show thesis by (rule that)
qed

text \<open>
  C39. As long as messages arrive no earlier than the watermark, the oldest window a manager
  reports has the least end time of all its active and closed windows, after any interleaving of
  arrivals, watermark advances and collections. It reports none only when it has no window.
\<close>

theorem oldest_window_least:
  assumes "aligned_inv trunc mgr0" and "active_windows mgr0 = []" and "closed_windows mgr0 = []"
    and "win_run (assign_windows trunc) close_windows gc_window (wm0, mgr0) es (wm, mgr)"
  shows "(oldest_window mgr = None \<longleftrightarrow> active_windows mgr = [] \<and> closed_windows mgr = []) \<and>
    (\<forall>w. oldest_window mgr = Some w \<longrightarrow> w \<in> set (active_windows mgr) \<union> set (closed_windows mgr) \<and>
       (\<forall>v \<in> set (active_windows mgr) \<union> set (closed_windows mgr). win_end w \<le> win_end v))"
proof (rule awm.oldest_least)
  from awm.separated_run [OF assms(4)] assms(1-3)
  show "aligned_inv trunc mgr" and "separated wm (active_windows mgr) (closed_windows mgr)" by simp_all
qed

theorem oldest_window_least_witness:
  "\<exists>mgr. win_run (assign_windows example_trunc) close_windows gc_window (0, Fixed example_fixed)
      [Arrive (message_default 61000000000)] (0, mgr) \<and>
    (oldest_window mgr = None \<longleftrightarrow> active_windows mgr = [] \<and> closed_windows mgr = [])"
proof (rule example_arrive)
  fix mgr ops
  assume run: "win_run (assign_windows example_trunc) close_windows gc_window (0, Fixed example_fixed)
      [Arrive (message_default 61000000000)] (0, mgr)"
  from run conjunct1 [OF oldest_window_least [OF example_fixed_aligned run]] show ?thesis
    by (intro exI [of _ mgr] conjI)
qed

text \<open>
  C14. A window that is told to close is complete: in every later state of the run, a message that
  arrives no earlier than the watermark is never assigned to it.
\<close>

theorem no_message_after_close:
  assumes "aligned_inv trunc mgr0" and "active_windows mgr0 = []" and "closed_windows mgr0 = []"
    and "win_run (assign_windows trunc) close_windows gc_window (wm0, mgr0) es (wm, mgr)"
    and "close_windows wm' mgr = (mgr', closes)" and "close_message w \<in> set closes" and "wm \<le> wm'"
    and "win_run (assign_windows trunc) close_windows gc_window (wm', mgr') es' (wm'', mgr'')"
    and "wm'' \<le> msg_event_time msg" and "assign_windows trunc msg mgr'' = Some (mgr3, ops)"
  shows "w \<notin> assigned ops"
proof
  assume w: "w \<in> assigned ops"
  have inv: "aligned_inv trunc mgr" "separated wm (active_windows mgr) (closed_windows mgr)"
    using awm.separated_run [OF assms(4)] assms(1-3) by simp_all
  have "win_step (assign_windows trunc) close_windows gc_window (wm, mgr) (Advance wm') (wm', mgr')"
    using assms(5,7) by (rule advance)
  from awm.separated_step [OF this inv] awm.separated_run [OF assms(8)]
  have inv'': "aligned_inv trunc mgr''" by simp
  have "win_end w \<le> wm'"
    using close_law [OF inv(1) assms(5)] assms(6) by (auto simp: close_message_def)
  moreover have "wm' \<le> wm''" using win_run_advances [OF assms(8)] by simp
  moreover have "msg_event_time msg < win_end w"
    using assign_ops_hold [OF inv'' assms(10) w] by (simp add: holds_def)
  ultimately show False using assms(9) by linarith
qed

theorem no_message_after_close_witness:
  "\<exists>mgr mgr' closes mgr3 ops. close_windows 120000000000 mgr = (mgr', closes) \<and>
    close_message (window_at 60000 60000) \<in> set closes \<and>
    assign_windows example_trunc (message_default 120000000000) mgr' = Some (mgr3, ops) \<and>
    window_at 60000 60000 \<notin> assigned ops"
proof (rule example_arrive)
  fix mgr ops
  assume asg: "assign_windows example_trunc (message_default 61000000000) (Fixed example_fixed) = Some (mgr, ops)"
    and run: "win_run (assign_windows example_trunc) close_windows gc_window (0, Fixed example_fixed)
      [Arrive (message_default 61000000000)] (0, mgr)"
  obtain mgr' closes where cl: "close_windows 120000000000 mgr = (mgr', closes)" by fastforce
  have "create_window example_trunc (message_default 61000000000) example_fixed = Some (window_at 60000 60000)"
    by (simp add: create_window_def example_fixed_def fixed_new_def example_durations message_default_def
      truncate_floor [OF example_trunc] timestamp_millis_def window_at_def)
  then have "mgr = Fixed (example_fixed\<lparr>fw_active_windows := [window_at 60000 60000]\<rparr>)"
    using asg by (auto simp: assign_windows_def fixed_assign_windows_def example_fixed_def fixed_new_def)
  then have inw: "close_message (window_at 60000 60000) \<in> set closes"
    using cl by (auto simp: close_windows_def fixed_close_windows_def bt_extract_def window_at_def
      window_new_def from_timestamp_millis_def)
  have inv: "aligned_inv example_trunc mgr'"
    using cl close_law assign_law [OF example_fixed_aligned(1) asg] by blast
  then obtain mgr3 ops3 where
    asg3: "assign_windows example_trunc (message_default 120000000000) mgr' = Some (mgr3, ops3)"
    using assign_total by (metis surj_pair)
  have "window_at 60000 60000 \<notin> assigned ops3"
    by (rule no_message_after_close [OF example_fixed_aligned run cl inw _ win_run.nil _ asg3])
      (simp_all add: message_default_def)
  with cl inw asg3 show ?thesis by blast
qed

text \<open>
  C40. What a sliding manager saves it gets back on restart: every window that was active or closed
  is active again, none is added, and the newest collected end time is kept. The state file is
  consumed.
\<close>

theorem save_load_state:
  assumes "decodes_timestamps from_timestamp" and "\<And>s buf. encode s = Inr buf \<Longrightarrow> decode buf = Inr s"
    and "sliding_inv m" and "sw_active_window_state_file m = Some path"
    and "\<forall>w \<in> set (sw_active_windows m @ sw_closed_windows m). representable (win_start w) \<and> representable (win_end w)"
    and "save_state encode m fs = (fs', Inr ())" and "fs_can_read fs" and "fs_can_remove fs"
  shows "\<exists>m' fs''. sliding_new decode from_timestamp (sw_window_length m) (sw_slide m) (Some path) fs' = Some (m', fs'') \<and>
    sliding_inv m' \<and> sw_closed_windows m' = [] \<and>
    set (sw_active_windows m') = set (sw_active_windows m) \<union> set (sw_closed_windows m) \<and>
    sw_max_deleted_window_end_time m' = sw_max_deleted_window_end_time m \<and>
    hm_get (fs_files fs'') path = None"
proof -
  let ?ws = "sw_closed_windows m @ sw_active_windows m"
  let ?st = "\<lparr>wms_windows = map window_to_proto ?ws,
    wms_max_deleted_window_end_time = sw_max_deleted_window_end_time m\<rparr>"
  let ?act = "fold (bt_insert win_end) ?ws []"
  obtain buf where buf: "encode ?st = Inr buf" "fs' = fs\<lparr>fs_files := hm_insert path buf (fs_files fs)\<rparr>"
    using assms(4,6) by (auto simp: save_state_def Let_def split: sum.splits if_splits)
  have act: "extend_windows from_timestamp (map window_to_proto ?ws) [] = Some ?act"
    using assms(5) by (intro extend_windows_saved [OF assms(1)]) auto
  have al: "aligned (dur_millis (sw_window_length m)) (dur_millis (sw_slide m)) (sw_active_windows m @ sw_closed_windows m)"
    using assms(3) by (simp add: sliding_inv_def)
  have wf: "bt_wf win_end ?act" by (rule set_fold_bt_insert(1)) simp
  have "set ?act = set ?ws"
    by (rule set_fold_bt_insert_inj) (use aligned_end_inject [OF al] in auto)
  with al wf assms(3) have "sliding_inv \<lparr>sw_window_length = sw_window_length m, sw_slide = sw_slide m,
      sw_active_windows = ?act, sw_closed_windows = [], sw_active_window_state_file = Some path,
      sw_max_deleted_window_end_time = sw_max_deleted_window_end_time m\<rparr>"
    by (auto simp: sliding_inv_def aligned_def)
  with \<open>set ?act = set ?ws\<close> show ?thesis
    using buf assms(2) [OF buf(1)] assms(7,8) act by (auto simp: sliding_new_def load_state_def Let_def)
qed

theorem save_load_state_witness:
  "\<exists>m' fs''. sliding_new example_decode (\<lambda>s n. Some (s * 1000000000 + int n)) 60000000000 20000000000
      (Some ''wm.state'')
      \<lparr>fs_files = [(''wm.state'', [7])], fs_can_read = True, fs_can_write = True, fs_can_remove = True\<rparr> =
      Some (m', fs'') \<and>
    set (sw_active_windows m') = {window_at 60000 0}"
proof -
  have codec: "example_encode s = Inr buf \<Longrightarrow> example_decode buf = Inr s" for s buf
    by (simp add: example_encode_def example_decode_def split: if_splits)
  have saved: "save_state example_encode example_sliding
      \<lparr>fs_files = [], fs_can_read = True, fs_can_write = True, fs_can_remove = True\<rparr> =
      (\<lparr>fs_files = [(''wm.state'', [7])], fs_can_read = True, fs_can_write = True, fs_can_remove = True\<rparr>, Inr ())"
    by (simp add: save_state_def example_sliding_def example_encode_def example_state_def)
  have path: "sw_active_window_state_file example_sliding = Some ''wm.state''"
    and rep: "\<forall>w \<in> set (sw_active_windows example_sliding @ sw_closed_windows example_sliding).
      representable (win_start w) \<and> representable (win_end w)"
    by (simp_all add: example_sliding_def representable_def window_at_def window_new_def from_timestamp_millis_def)
  from save_load_state [where encode = example_encode and decode = example_decode,
      OF decodes_timestamps_example codec example_sliding_inv path rep saved]
  show ?thesis by (auto simp: example_sliding_def)
qed

end
