(* ===== verification/UnalignedWindows.thy ===== *)
theory UnalignedWindows
  imports Message
begin

text \<open>
  What the unaligned window managers share (\<^verbatim>\<open>numaflow-core/src/reduce/reducer/unaligned/windower.rs\<close>):
  keyed windows, the operations sent to the reducer, and the combined key the windows are stored
  under. A \<^verbatim>\<open>BTreeSet<Window>\<close> is a list ascending in the end time, the only thing \<^verbatim>\<open>Ord for Window\<close>
  compares.
\<close>

section \<open>Keyed windows\<close>

definition SHARED_PNF_SLOT :: string where
  "SHARED_PNF_SLOT = ''GLOBAL_SLOT''"

record keyed_window =
  kw_start :: datetime
  kw_end :: datetime
  kw_keys :: "string list"

definition keyed_window_new :: "datetime \<Rightarrow> datetime \<Rightarrow> string list \<Rightarrow> keyed_window" where
  "keyed_window_new s e keys = \<lparr>kw_start = s, kw_end = e, kw_keys = keys\<rparr>"

datatype unaligned_window_operation =
  Open_window message keyed_window
| Close_window keyed_window
| Append_window message keyed_window
| Merge_windows "keyed_window list"
| Expand_windows message "keyed_window list"

record unaligned_window_message =
  uwm_operation :: unaligned_window_operation
  uwm_pnf_slot :: string

abbreviation on_shared_slot :: "unaligned_window_operation \<Rightarrow> unaligned_window_message" where
  "on_shared_slot oper \<equiv> \<lparr>uwm_operation = oper, uwm_pnf_slot = SHARED_PNF_SLOT\<rparr>"

text \<open>The protobuf window of the session and of the accumulator service; \<open>None\<close> is the panic.\<close>

record proto_keyed_window =
  pkw_start :: "timestamp option"
  pkw_end :: "timestamp option"
  pkw_keys :: "string list"

definition keyed_window_from_session ::
    "(i64 \<Rightarrow> nat \<Rightarrow> datetime option) \<Rightarrow> proto_keyed_window \<Rightarrow> keyed_window option" where
  "keyed_window_from_session from_timestamp p =
     (case (pkw_start p, pkw_end p) of
        (Some s, Some e) \<Rightarrow> Some \<lparr>kw_start = utc_from_timestamp from_timestamp s,
           kw_end = utc_from_timestamp from_timestamp e, kw_keys = pkw_keys p\<rparr>
      | _ \<Rightarrow> None)"

definition keyed_window_from_accumulator ::
    "(i64 \<Rightarrow> nat \<Rightarrow> datetime option) \<Rightarrow> proto_keyed_window \<Rightarrow> keyed_window option" where
  "keyed_window_from_accumulator from_timestamp p =
     (case (pkw_start p, pkw_end p) of
        (Some s, Some e) \<Rightarrow> Some \<lparr>kw_start = utc_from_timestamp from_timestamp s,
           kw_end = utc_from_timestamp from_timestamp e, kw_keys = pkw_keys p\<rparr>
      | _ \<Rightarrow> None)"

definition keyed_window_to_gc_event :: "keyed_window \<Rightarrow> gc_event" where
  "keyed_window_to_gc_event w =
     \<lparr>gc_start_time = Some (prost_timestamp_from_utc (kw_start w)),
      gc_end_time = Some (prost_timestamp_from_utc (kw_end w)), gc_keys = kw_keys w\<rparr>"

section \<open>Combined keys\<close>

fun combine_keys :: "string list \<Rightarrow> string" where
  "combine_keys [] = []"
| "combine_keys [k] = k"
| "combine_keys (k # l # ks) = k @ '':'' @ combine_keys (l # ks)"

text \<open>Keys without the separator are told apart by the combined key, as long as there is a key.\<close>

lemma combine_keys_inject:
  assumes "\<forall>k \<in> set ks. CHR '':'' \<notin> set k" and "\<forall>l \<in> set ls. CHR '':'' \<notin> set l"
    and "ks \<noteq> []" and "ls \<noteq> []" and "combine_keys ks = combine_keys ls"
  shows "ks = ls"
  using assms
proof (induction ks arbitrary: ls rule: combine_keys.induct)
  case (2 k)
  then show ?case by (cases ls rule: combine_keys.cases) auto
next
  case (3 k l ks)
  then obtain m n ms where ls: "ls = m # n # ms" by (cases ls rule: combine_keys.cases) auto
  with 3 have "k @ CHR '':'' # combine_keys (l # ks) = m @ CHR '':'' # combine_keys (n # ms)" by simp
  then have "k = m \<and> combine_keys (l # ks) = combine_keys (n # ms)"
    using "3.prems"(1,2) ls by (intro append_sep_eq) auto
  with "3.IH" [of "n # ms"] "3.prems" ls show ?case by simp
qed simp

text \<open>With the separator inside a key two different key lists share their windows.\<close>

lemma combine_keys_collision: "combine_keys [''a:b''] = combine_keys [''a'', ''b'']"
  by simp

section \<open>Intervals\<close>

definition interval :: "keyed_window \<Rightarrow> datetime set" where
  "interval w = {kw_start w ..< kw_end w}"

definition overlap :: "keyed_window \<Rightarrow> keyed_window \<Rightarrow> bool" where
  "overlap v w \<longleftrightarrow> kw_start v < kw_end w \<and> kw_start w < kw_end v"

definition spanned :: "keyed_window list \<Rightarrow> datetime set" where
  "spanned ws = (\<Union>w \<in> set ws. interval w)"

lemma spanned_simps [simp]:
  "spanned [] = {}" "spanned (w # ws) = interval w \<union> spanned ws"
  "spanned (vs @ ws) = spanned vs \<union> spanned ws" "spanned (rev ws) = spanned ws"
  by (auto simp: spanned_def)

lemma spanned_set: "set vs = set ws \<Longrightarrow> spanned vs = spanned ws"
  by (simp add: spanned_def)

lemma overlap_sym: "overlap v w \<longleftrightarrow> overlap w v"
  by (auto simp: overlap_def)

text \<open>Two overlapping windows span one interval.\<close>

lemma overlap_union:
  assumes "overlap v w"
  shows "interval v \<union> interval w = {min (kw_start v) (kw_start w) ..< max (kw_end v) (kw_end w)}"
  using assms by (auto simp: overlap_def interval_def min_def max_def)

lemma overlap_iff_inter:
  assumes "kw_start v < kw_end v" and "kw_start w < kw_end w"
  shows "overlap v w \<longleftrightarrow> interval v \<inter> interval w \<noteq> {}"
  using assms by (auto simp: overlap_def interval_def not_less)

end
