(* ===== verification/SessionWindows.thy ===== *)
theory SessionWindows
  imports UnalignedWindows "HOL-Library.Multiset"
begin

text \<open>
  Session windows (\<^verbatim>\<open>numaflow-core/src/reduce/reducer/unaligned/windower/session.rs\<close>): the windows of a
  key grow with its messages and are merged when they are closed. Each operation holds the write
  lock for as long as it reads and updates a map, so it is a function on the state.

  Parameter: \<open>order\<close> is the order in which the freshly built \<^verbatim>\<open>HashMap\<close> of expired windows is iterated,
  which Rust leaves open. \<open>None\<close> is the panic on a time outside the range of \<^verbatim>\<open>chrono\<close>.
\<close>

section \<open>The manager\<close>

record session_manager =
  ses_timeout :: duration
  ses_active_windows :: "(string, keyed_window list) hashmap"
  ses_closed_windows :: "keyed_window list"

definition session_new :: "duration \<Rightarrow> session_manager" where
  "session_new timeout = \<lparr>ses_timeout = timeout, ses_active_windows = [], ses_closed_windows = []\<rparr>"

definition find_window_to_merge :: "keyed_window list \<Rightarrow> keyed_window \<Rightarrow> keyed_window option" where
  "find_window_to_merge window_set w =
     List.find (\<lambda>e. kw_start w < kw_end e \<and> kw_start e < kw_end w) window_set"

definition expand_window_if_needed :: "keyed_window \<Rightarrow> keyed_window \<Rightarrow> keyed_window option" where
  "expand_window_if_needed new_window existing_window =
     (if \<not> (kw_start new_window < kw_end existing_window \<and> kw_start existing_window < kw_end new_window)
      then None
      else if kw_start new_window \<ge> kw_start existing_window \<and> kw_end new_window \<le> kw_end existing_window
      then None
      else Some (keyed_window_new (min (kw_start new_window) (kw_start existing_window))
             (max (kw_end new_window) (kw_end existing_window)) (kw_keys new_window)))"

text \<open>\<^verbatim>\<open>DateTime::from_timestamp_millis\<close> and its \<^verbatim>\<open>unwrap\<close>.\<close>

definition checked_millis :: "i64 \<Rightarrow> datetime option" where
  "checked_millis m = (if representable (from_timestamp_millis m) then Some (from_timestamp_millis m) else None)"

definition session_window_of :: "message \<Rightarrow> session_manager \<Rightarrow> keyed_window option" where
  "session_window_of msg m =
     (let start_time_millis = timestamp_millis (msg_event_time msg)
      in Option.bind (checked_millis start_time_millis) (\<lambda>start_time.
         map_option (\<lambda>end_time. keyed_window_new start_time end_time (msg_keys msg))
           (checked_millis (start_time_millis + dur_millis (ses_timeout m)))))"

definition windows_of :: "string \<Rightarrow> session_manager \<Rightarrow> keyed_window list" where
  "windows_of key m = (case hm_get (ses_active_windows m) key of Some ws \<Rightarrow> ws | None \<Rightarrow> [])"

definition session_assign_windows ::
    "message \<Rightarrow> session_manager \<Rightarrow> (session_manager \<times> unaligned_window_message list) option" where
  "session_assign_windows msg m =
     map_option (\<lambda>new_window.
       let key = combine_keys (msg_keys msg);
           window_set = windows_of key m;
           store = (\<lambda>ws. m\<lparr>ses_active_windows := hm_insert key ws (ses_active_windows m)\<rparr>)
       in case find_window_to_merge window_set new_window of
            Some existing_window \<Rightarrow>
              (case expand_window_if_needed new_window existing_window of
                 Some expanded_window \<Rightarrow>
                   (store (bt_insert kw_end expanded_window (bt_remove kw_end existing_window window_set)),
                    [on_shared_slot (Expand_windows msg [existing_window, expanded_window])])
               | None \<Rightarrow> (store window_set, [on_shared_slot (Append_window msg existing_window)]))
          | None \<Rightarrow>
              (store (bt_insert kw_end new_window window_set),
               [on_shared_slot (Open_window msg new_window)]))
       (session_window_of msg m)"

section \<open>Closing\<close>

definition extract_expired_windows ::
    "(string, keyed_window list) hashmap \<Rightarrow> datetime \<Rightarrow>
     (string, keyed_window list) hashmap \<times> (string, keyed_window list) hashmap" where
  "extract_expired_windows all_windows watermark =
     (hm_retain (\<lambda>_ window_set. window_set \<noteq> [])
        (hm_map_values (\<lambda>ws. snd (bt_extract (\<lambda>w. kw_end w \<le> watermark) ws)) all_windows),
      hm_retain (\<lambda>_ expired_windows. expired_windows \<noteq> [])
        (hm_map_values (\<lambda>ws. fst (bt_extract (\<lambda>w. kw_end w \<le> watermark) ws)) all_windows))"

text \<open>The inner loop, over the windows before the current one from the latest to the earliest.\<close>

fun absorb :: "keyed_window \<Rightarrow> keyed_window list \<Rightarrow> keyed_window list \<times> keyed_window list" where
  "absorb last_window [] = ([], [])"
| "absorb last_window (w # ws) =
     (if kw_end w > kw_start last_window
      then (let start' = (if kw_start w < kw_start last_window then kw_start w else kw_start last_window);
                end' = (if kw_end w > kw_end last_window then kw_end w else kw_end last_window)
            in case absorb (last_window\<lparr>kw_start := start', kw_end := end'\<rparr>) ws of
                 (grp, rest) \<Rightarrow> (w # grp, rest))
      else ([], w # ws))"

lemma absorb_append: "fst (absorb l ws) @ snd (absorb l ws) = ws"
  by (induction l ws rule: absorb.induct) (auto simp: Let_def split: prod.splits)

lemma absorb_rest_le: "length (snd (absorb l ws)) \<le> length ws"
proof -
  have "length (fst (absorb l ws)) + length (snd (absorb l ws)) = length ws"
    using arg_cong [OF absorb_append [of l ws], of length] by simp
  then show ?thesis by simp
qed

function merge_groups :: "keyed_window list \<Rightarrow> keyed_window list list" where
  "merge_groups [] = []"
| "merge_groups (w # ws) = (w # fst (absorb w ws)) # merge_groups (snd (absorb w ws))"
  by pat_completeness auto
termination
  by (relation "measure length") (use absorb_rest_le in \<open>auto simp: le_imp_less_Suc\<close>)

definition windows_that_can_be_merged :: "keyed_window list \<Rightarrow> keyed_window list list" where
  "windows_that_can_be_merged windows = rev (merge_groups (rev windows))"

definition merge_windows :: "keyed_window list \<Rightarrow> (keyed_window \<times> unaligned_window_message) option" where
  "merge_windows windows =
     (case windows of
        [] \<Rightarrow> None
      | first # _ \<Rightarrow>
          let (start_time, end_time) =
                fold (\<lambda>w (min_start, max_end). (min min_start (kw_start w), max max_end (kw_end w)))
                  windows (kw_start first, kw_end first)
          in Some (keyed_window_new start_time end_time (kw_keys first), on_shared_slot (Merge_windows windows)))"

definition try_merge_with_active ::
    "(string, keyed_window list) hashmap \<Rightarrow> string \<Rightarrow> keyed_window \<Rightarrow>
     (string, keyed_window list) hashmap \<times> (keyed_window \<times> keyed_window) option" where
  "try_merge_with_active active_windows key w =
     (case hm_get active_windows key of
        None \<Rightarrow> (active_windows, None)
      | Some window_set \<Rightarrow>
          (case find_window_to_merge window_set w of
             None \<Rightarrow> (active_windows, None)
           | Some active_window \<Rightarrow>
               let new_merged = keyed_window_new (min (kw_start w) (kw_start active_window))
                     (max (kw_end w) (kw_end active_window)) (kw_keys w)
               in (hm_insert key (bt_insert kw_end new_merged (bt_remove kw_end active_window window_set))
                     active_windows,
                   Some (active_window, new_merged))))"

definition move_to_closed_windows :: "keyed_window \<Rightarrow> session_manager \<Rightarrow> session_manager" where
  "move_to_closed_windows w m =
     m\<lparr>ses_closed_windows := bt_insert kw_end w (ses_closed_windows m)\<rparr>"

definition close_or_merge ::
    "string \<Rightarrow> keyed_window \<Rightarrow> session_manager \<Rightarrow> session_manager \<times> unaligned_window_message" where
  "close_or_merge key w m =
     (case try_merge_with_active (ses_active_windows m) key w of
        (active, Some (old_active, _)) \<Rightarrow>
          (m\<lparr>ses_active_windows := active\<rparr>, on_shared_slot (Merge_windows [w, old_active]))
      | (active, None) \<Rightarrow>
          (move_to_closed_windows w (m\<lparr>ses_active_windows := active\<rparr>), on_shared_slot (Close_window w)))"

definition process_close_window_group ::
    "string \<Rightarrow> keyed_window list \<Rightarrow> session_manager \<Rightarrow> session_manager \<times> unaligned_window_message list" where
  "process_close_window_group key closing_group m =
     (case closing_group of
        [] \<Rightarrow> (m, [])
      | [w] \<Rightarrow> (case close_or_merge key w m of (m', msg) \<Rightarrow> (m', [msg]))
      | _ \<Rightarrow>
          (case merge_windows closing_group of
             None \<Rightarrow> (m, [])
           | Some (merged_window, initial_merge_msg) \<Rightarrow>
               (case close_or_merge key merged_window m of (m', msg) \<Rightarrow> (m', [initial_merge_msg, msg]))))"

fun process_groups ::
    "string \<Rightarrow> keyed_window list list \<Rightarrow> session_manager \<Rightarrow> session_manager \<times> unaligned_window_message list" where
  "process_groups key [] m = (m, [])"
| "process_groups key (g # gs) m =
     (case process_close_window_group key g m of
        (m', ms) \<Rightarrow> (case process_groups key gs m' of (m'', ms') \<Rightarrow> (m'', ms @ ms')))"

definition process_closed_windows ::
    "string \<Rightarrow> keyed_window list \<Rightarrow> session_manager \<Rightarrow> session_manager \<times> unaligned_window_message list" where
  "process_closed_windows key closed m = process_groups key (windows_that_can_be_merged closed) m"

fun process_keys ::
    "(string, keyed_window list) hashmap \<Rightarrow> session_manager \<Rightarrow> session_manager \<times> unaligned_window_message list" where
  "process_keys [] m = (m, [])"
| "process_keys ((key, windows) # kws) m =
     (case process_closed_windows key windows m of
        (m', ms) \<Rightarrow> (case process_keys kws m' of (m'', ms') \<Rightarrow> (m'', ms @ ms')))"

definition session_close_windows ::
    "((string, keyed_window list) hashmap \<Rightarrow> (string, keyed_window list) hashmap) \<Rightarrow>
     datetime \<Rightarrow> session_manager \<Rightarrow> session_manager \<times> unaligned_window_message list" where
  "session_close_windows order watermark m =
     (let (active, closed_windows_by_key) = extract_expired_windows (ses_active_windows m) watermark
      in process_keys (order closed_windows_by_key) (m\<lparr>ses_active_windows := active\<rparr>))"

section \<open>Collection and the oldest window\<close>

definition session_delete_window :: "keyed_window \<Rightarrow> session_manager \<Rightarrow> session_manager" where
  "session_delete_window w m = m\<lparr>ses_closed_windows := bt_remove kw_end w (ses_closed_windows m)\<rparr>"

definition session_oldest_window_end_time :: "session_manager \<Rightarrow> datetime option" where
  "session_oldest_window_end_time m =
     (case bt_first (ses_closed_windows m) of
        Some w \<Rightarrow> Some (kw_end w)
      | None \<Rightarrow> iter_min (map kw_end (List.map_filter bt_first (hm_values (ses_active_windows m)))))"

definition session_active_window_count :: "session_manager \<Rightarrow> nat" where
  "session_active_window_count m = sum_list (map length (hm_values (ses_active_windows m)))"

definition session_closed_window_count :: "session_manager \<Rightarrow> nat" where
  "session_closed_window_count m = length (ses_closed_windows m)"

section \<open>Grouping windows\<close>

definition proper :: "keyed_window \<Rightarrow> bool" where
  "proper w \<longleftrightarrow> kw_start w < kw_end w"

text \<open>The least window around a group.\<close>

definition hull :: "keyed_window list \<Rightarrow> keyed_window" where
  "hull g = \<lparr>kw_start = Min (kw_start ` set g), kw_end = Max (kw_end ` set g), kw_keys = kw_keys (hd g)\<rparr>"

lemma hull_single [simp]: "hull [w] = w"
  by (simp add: hull_def)

lemma fold_bounds:
  "fold (\<lambda>w (lo, hi). (min lo (kw_start w), max hi (kw_end w))) ws (a, b) =
     (Min (insert a (kw_start ` set ws)), Max (insert b (kw_end ` set ws)))"
proof (induction ws arbitrary: a b)
  case (Cons w ws)
  have "Min (insert (min a (kw_start w)) (kw_start ` set ws)) = Min (insert a (insert (kw_start w) (kw_start ` set ws)))"
    by (cases "ws = []") (simp_all add: min.assoc)
  moreover have "Max (insert (max b (kw_end w)) (kw_end ` set ws)) = Max (insert b (insert (kw_end w) (kw_end ` set ws)))"
    by (cases "ws = []") (simp_all add: max.assoc)
  ultimately show ?case using Cons.IH by simp
qed simp

lemma merge_windows_hull:
  assumes "g \<noteq> []"
  shows "merge_windows g = Some (hull g, on_shared_slot (Merge_windows g))"
proof -
  obtain w ws where g: "g = w # ws" using assms by (cases g) auto
  have "fold (\<lambda>w (lo, hi). (min lo (kw_start w), max hi (kw_end w))) g (kw_start w, kw_end w) =
      (Min (kw_start ` set g), Max (kw_end ` set g))"
    unfolding fold_bounds g by simp
  then show ?thesis by (simp add: merge_windows_def g hull_def keyed_window_new_def)
qed

abbreviation later_first :: "keyed_window list \<Rightarrow> bool" where
  "later_first ws \<equiv> sorted_wrt (\<lambda>v w. kw_end w < kw_end v) ws"

lemma absorb_spec:
  assumes "proper l" and "later_first ws" and "\<forall>v \<in> set ws. proper v \<and> kw_end v \<le> kw_end l"
  shows "\<exists>s. s \<in> insert (kw_start l) (kw_start ` set (fst (absorb l ws))) \<and> s \<le> kw_start l \<and>
    (\<forall>v \<in> set (fst (absorb l ws)). s \<le> kw_start v) \<and>
    interval l \<union> spanned (fst (absorb l ws)) = {s ..< kw_end l} \<and>
    (\<forall>v \<in> set (snd (absorb l ws)). kw_end v \<le> s)"
  using assms
proof (induction l ws rule: absorb.induct)
  case (1 l)
  then show ?case by (simp add: interval_def)
next
  case (2 l w ws)
  show ?case
  proof (cases "kw_end w > kw_start l")
    case True
    let ?start = "min (kw_start w) (kw_start l)"
    let ?l = "l\<lparr>kw_start := ?start, kw_end := kw_end l\<rparr>"
    have le: "kw_end w \<le> kw_end l" "proper w" using "2.prems"(3) by auto
    have step: "absorb l (w # ws) = (w # fst (absorb ?l ws), snd (absorb ?l ws))"
      using True le(1) by (simp add: Let_def min_def split_beta)
    have "overlap w l" using True le "2.prems"(1) by (auto simp: overlap_def proper_def)
    then have union: "interval l \<union> interval w = interval ?l"
      using overlap_union [of w l] le(1) by (simp add: interval_def Un_commute max_absorb2)
    have "proper ?l" using "2.prems"(1) by (auto simp: proper_def)
    moreover have "(if kw_start w < kw_start l then kw_start w else kw_start l) = ?start"
      "(if kw_end w > kw_end l then kw_end w else kw_end l) = kw_end l" using le(1) by auto
    ultimately obtain s where s: "s \<in> insert ?start (kw_start ` set (fst (absorb ?l ws)))"
      "s \<le> ?start" "\<forall>v \<in> set (fst (absorb ?l ws)). s \<le> kw_start v"
      "interval ?l \<union> spanned (fst (absorb ?l ws)) = {s ..< kw_end l}"
      "\<forall>v \<in> set (snd (absorb ?l ws)). kw_end v \<le> s"
      using "2.IH" [OF True refl refl] "2.prems" by auto
    show ?thesis unfolding step using s union by (intro exI [of _ s]) (auto simp: min_def split: if_splits)
  next
    case False
    then show ?thesis using "2.prems"
      by (intro exI [of _ "kw_start l"]) (auto simp: interval_def)
  qed
qed

lemma merge_groups_spec:
  assumes "later_first ws" and "\<forall>w \<in> set ws. proper w"
  shows "concat (merge_groups ws) = ws \<and>
    (\<forall>g \<in> set (merge_groups ws). g \<noteq> [] \<and> interval (hull g) = spanned g \<and> proper (hull g)) \<and>
    sorted_wrt (\<lambda>g h. kw_end (hull h) \<le> kw_start (hull g)) (merge_groups ws)"
  using assms
proof (induction ws rule: merge_groups.induct)
  case (2 w ws)
  let ?g = "fst (absorb w ws)" and ?r = "snd (absorb w ws)"
  have app: "?g @ ?r = ws" by (rule absorb_append)
  have ends: "\<forall>v \<in> set ws. proper v \<and> kw_end v \<le> kw_end w" using "2.prems" by auto
  obtain s where s: "s \<in> insert (kw_start w) (kw_start ` set ?g)" "s \<le> kw_start w"
    "\<forall>v \<in> set ?g. s \<le> kw_start v" "interval w \<union> spanned ?g = {s ..< kw_end w}"
    "\<forall>v \<in> set ?r. kw_end v \<le> s"
    using absorb_spec [of w ws] "2.prems" ends by auto
  have sub: "set ?g \<subseteq> set ws" "set ?r \<subseteq> set ws" using app by (metis Un_iff set_append subsetI)+
  have "Min (kw_start ` set (w # ?g)) = s" using s(1-3) by (intro Min_eqI) auto
  moreover have "Max (kw_end ` set (w # ?g)) = kw_end w" using ends sub by (intro Max_eqI) auto
  ultimately have hull: "kw_start (hull (w # ?g)) = s" "kw_end (hull (w # ?g)) = kw_end w"
    by (simp_all add: hull_def)
  have "sorted_wrt (\<lambda>v w. kw_end w < kw_end v) (?g @ ?r)" using "2.prems"(1) app by simp
  then have "later_first ?r" by (simp add: sorted_wrt_append)
  moreover have "\<forall>v \<in> set ?r. proper v" using ends sub by auto
  ultimately have IH: "concat (merge_groups ?r) = ?r"
    "\<forall>g \<in> set (merge_groups ?r). g \<noteq> [] \<and> interval (hull g) = spanned g \<and> proper (hull g)"
    "sorted_wrt (\<lambda>g h. kw_end (hull h) \<le> kw_start (hull g)) (merge_groups ?r)"
    using "2.IH" by auto
  have "kw_end (hull h) \<le> s" if "h \<in> set (merge_groups ?r)" for h
  proof -
    have "set h \<subseteq> set ?r" using that IH(1) by (metis concat_eq_append_conv in_set_conv_decomp set_append set_concat
      UN_upper)
    moreover have "h \<noteq> []" using that IH(2) by blast
    ultimately show ?thesis using s(5) by (auto simp: hull_def Max_le_iff)
  qed
  moreover have "proper (hull (w # ?g))" using hull s(2) ends "2.prems"(2) by (auto simp: proper_def)
  moreover have "interval (hull (w # ?g)) = spanned (w # ?g)" using hull s(4) by (simp add: interval_def)
  ultimately show ?case using IH app hull by auto
qed simp

section \<open>Closing conserves the sessions\<close>

text \<open>The windows of one key as the manager keeps them.\<close>

definition key_ok :: "string \<Rightarrow> keyed_window list \<Rightarrow> bool" where
  "key_ok key ws \<longleftrightarrow> bt_wf kw_end ws \<and> (\<forall>w \<in> set ws. proper w \<and> combine_keys (kw_keys w) = key)"

definition session_inv :: "session_manager \<Rightarrow> bool" where
  "session_inv m \<longleftrightarrow> hm_wf (ses_active_windows m) \<and> bt_wf kw_end (ses_closed_windows m) \<and>
     0 < dur_millis (ses_timeout m) \<and> (\<forall>key. key_ok key (windows_of key m))"

definition closes :: "unaligned_window_message list \<Rightarrow> keyed_window list" where
  "closes ms = List.map_filter (\<lambda>x. case uwm_operation x of Close_window w \<Rightarrow> Some w | _ \<Rightarrow> None) ms"

lemma closes_simps [simp]:
  "closes [] = []" "closes (ms @ ms') = closes ms @ closes ms'"
  "closes (on_shared_slot (Close_window w) # ms) = w # closes ms"
  "closes (on_shared_slot (Merge_windows ws) # ms) = closes ms"
  by (simp_all add: closes_def map_filter_simps List.map_filter_def)

lemma closes_Cons: "closes (x # ms) = closes [x] @ closes ms"
  using closes_simps(2) [of "[x]" ms] by simp

lemma key_ok_Nil [simp]: "key_ok key []"
  by (simp add: key_ok_def)

lemma windows_of_insert [simp]:
  "windows_of k (m\<lparr>ses_active_windows := hm_insert key ws (ses_active_windows m)\<rparr>) =
     (if k = key then ws else windows_of k m)"
  by (simp add: windows_of_def)

lemma windows_of_closed [simp]:
  "windows_of k (m\<lparr>ses_closed_windows := cs\<rparr>) = windows_of k m"
  by (simp add: windows_of_def)

lemma find_window_Some:
  assumes "find_window_to_merge ws w = Some e"
  shows "e \<in> set ws" and "overlap w e"
  using assms by (auto simp: find_window_to_merge_def find_Some_iff overlap_def)

lemma find_window_None: "find_window_to_merge ws w = None \<longleftrightarrow> (\<forall>e \<in> set ws. \<not> overlap w e)"
  by (auto simp: find_window_to_merge_def find_None_iff overlap_def)

text \<open>Replacing one window of a key by one with the same end.\<close>

lemma replace_window:
  assumes "bt_wf kw_end ws" and "a \<in> set ws" and "kw_end n = kw_end a"
  shows "set (bt_insert kw_end n (bt_remove kw_end a ws)) = insert n (set ws - {a})"
    and "bt_wf kw_end (bt_insert kw_end n (bt_remove kw_end a ws))"
proof -
  have "set (bt_remove kw_end a ws) = set ws - {a}"
    using bt_wf_inj [OF assms(1)] assms(2) by (auto simp: inj_on_def)
  moreover have "kw_end n \<notin> kw_end ` set (bt_remove kw_end a ws)" using assms(3) by auto
  moreover have "bt_wf kw_end (bt_remove kw_end a ws)" using assms(1) by simp
  ultimately show "set (bt_insert kw_end n (bt_remove kw_end a ws)) = insert n (set ws - {a})"
    using set_bt_insert [of kw_end "bt_remove kw_end a ws" n] by (simp only: if_False)
  show "bt_wf kw_end (bt_insert kw_end n (bt_remove kw_end a ws))" using assms(1) by simp
qed

text \<open>
  What closing the span \<open>S\<close> of a key does: every part of it is in a closed window or is taken over by
  the active windows, which keep their ends and reach into no closed window.
\<close>

definition settles ::
    "string \<Rightarrow> datetime set \<Rightarrow> session_manager \<Rightarrow> session_manager \<Rightarrow> keyed_window list \<Rightarrow> bool" where
  "settles key S m m' cs \<longleftrightarrow>
     key_ok key (windows_of key m') \<and> (\<forall>k. k \<noteq> key \<longrightarrow> windows_of k m' = windows_of k m) \<and>
     kw_end ` set (windows_of key m') = kw_end ` set (windows_of key m) \<and>
     spanned (windows_of key m') \<union> spanned cs = spanned (windows_of key m) \<union> S \<and>
     (\<forall>c \<in> set cs. \<forall>a \<in> set (windows_of key m'). kw_end c \<le> kw_start a) \<and>
     (\<forall>b. (\<forall>x \<in> S. b \<le> x) \<longrightarrow> (\<forall>a \<in> set (windows_of key m). b \<le> kw_start a) \<longrightarrow>
        (\<forall>a \<in> set (windows_of key m'). b \<le> kw_start a)) \<and>
     ses_timeout m' = ses_timeout m \<and> (hm_wf (ses_active_windows m) \<longrightarrow> hm_wf (ses_active_windows m')) \<and>
     ses_closed_windows m' = fold (bt_insert kw_end) cs (ses_closed_windows m)"

lemma settles_refl: "key_ok key (windows_of key m) \<Longrightarrow> settles key {} m m []"
  by (simp add: settles_def)

lemma settlesD:
  assumes "settles key S m m' cs"
  shows "key_ok key (windows_of key m')" and "\<forall>k. k \<noteq> key \<longrightarrow> windows_of k m' = windows_of k m"
    and "kw_end ` set (windows_of key m') = kw_end ` set (windows_of key m)"
    and "spanned (windows_of key m') \<union> spanned cs = spanned (windows_of key m) \<union> S"
    and "\<forall>c \<in> set cs. \<forall>a \<in> set (windows_of key m'). kw_end c \<le> kw_start a"
    and "\<forall>b. (\<forall>x \<in> S. b \<le> x) \<longrightarrow> (\<forall>a \<in> set (windows_of key m). b \<le> kw_start a) \<longrightarrow>
        (\<forall>a \<in> set (windows_of key m'). b \<le> kw_start a)"
    and "ses_timeout m' = ses_timeout m" and "hm_wf (ses_active_windows m) \<longrightarrow> hm_wf (ses_active_windows m')"
    and "ses_closed_windows m' = fold (bt_insert kw_end) cs (ses_closed_windows m)"
  using assms unfolding settles_def by (atomize (full), elim conjE, intro conjI) assumption+

lemma settles_trans:
  assumes "settles key S m m1 cs" and "settles key T m1 m2 ds" and "\<forall>c \<in> set cs. \<forall>x \<in> T. kw_end c \<le> x"
  shows "settles key (S \<union> T) m m2 (cs @ ds)"
proof -
  note s1 = settlesD [OF assms(1)] and s2 = settlesD [OF assms(2)]
  have "kw_end c \<le> kw_start a" if "c \<in> set cs" "a \<in> set (windows_of key m2)" for c a
    using s2(6) s1(5) assms(3) that by blast
  then have sep: "\<forall>c \<in> set (cs @ ds). \<forall>a \<in> set (windows_of key m2). kw_end c \<le> kw_start a"
    using s2(5) by auto
  have "spanned (windows_of key m2) \<union> spanned (cs @ ds) =
      (spanned (windows_of key m2) \<union> spanned ds) \<union> spanned cs" by (simp add: Un_ac)
  also have "\<dots> = (spanned (windows_of key m1) \<union> spanned cs) \<union> T" unfolding s2(4) by (simp add: Un_ac)
  also have "\<dots> = spanned (windows_of key m) \<union> (S \<union> T)" unfolding s1(4) by (simp add: Un_ac)
  finally have span: "spanned (windows_of key m2) \<union> spanned (cs @ ds) = spanned (windows_of key m) \<union> (S \<union> T)" .
  have low: "\<forall>b. (\<forall>x \<in> S \<union> T. b \<le> x) \<longrightarrow> (\<forall>a \<in> set (windows_of key m). b \<le> kw_start a) \<longrightarrow>
      (\<forall>a \<in> set (windows_of key m2). b \<le> kw_start a)"
  proof (intro allI impI)
    fix b assume b: "\<forall>x \<in> S \<union> T. b \<le> x" "\<forall>a \<in> set (windows_of key m). b \<le> kw_start a"
    have "\<forall>a \<in> set (windows_of key m1). b \<le> kw_start a" using s1(6) b by simp
    then show "\<forall>a \<in> set (windows_of key m2). b \<le> kw_start a" using s2(6) b(1) by simp
  qed
  have "\<forall>k. k \<noteq> key \<longrightarrow> windows_of k m2 = windows_of k m" using s1(2) s2(2) by simp
  moreover have "kw_end ` set (windows_of key m2) = kw_end ` set (windows_of key m)" using s1(3) s2(3) by simp
  moreover have "hm_wf (ses_active_windows m) \<longrightarrow> hm_wf (ses_active_windows m2)" using s1(8) s2(8) by simp
  moreover have "ses_closed_windows m2 = fold (bt_insert kw_end) (cs @ ds) (ses_closed_windows m)"
    unfolding s2(9) s1(9) by simp
  ultimately show ?thesis unfolding settles_def
    using s2(1) s1(7) s2(7) sep span low by (intro conjI) simp_all
qed

lemma close_or_merge_settles:
  assumes "key_ok key (windows_of key m)" and "proper w" and "combine_keys (kw_keys w) = key"
    and "\<forall>a \<in> set (windows_of key m). kw_end w < kw_end a"
    and "close_or_merge key w m = (m', msg)"
  shows "settles key (interval w) m m' (closes [msg]) \<and> set (closes [msg]) \<subseteq> {w}"
proof (cases "find_window_to_merge (windows_of key m) w")
  case None
  then have sep: "\<forall>a \<in> set (windows_of key m). kw_end w \<le> kw_start a"
    using assms(2,4) by (fastforce simp: find_window_None overlap_def proper_def)
  have "(m', msg) = (move_to_closed_windows w m, on_shared_slot (Close_window w))"
    using None assms(5)
    by (auto simp: close_or_merge_def try_merge_with_active_def windows_of_def split: option.splits)
  with sep assms(1) show ?thesis by (auto simp: settles_def move_to_closed_windows_def)
next
  case (Some a)
  let ?ws = "windows_of key m"
  let ?n = "\<lparr>kw_start = min (kw_start w) (kw_start a), kw_end = kw_end a, kw_keys = kw_keys w\<rparr>"
  note a = find_window_Some [OF Some]
  have wf: "bt_wf kw_end ?ws" and less: "kw_end w < kw_end a" and "proper a"
    using assms(1,4) a(1) by (auto simp: key_ok_def)
  obtain ws where ws: "hm_get (ses_active_windows m) key = Some ws" "?ws = ws"
    using a(1) by (cases "hm_get (ses_active_windows m) key") (auto simp: windows_of_def)
  have res: "m' = m\<lparr>ses_active_windows := hm_insert key (bt_insert kw_end ?n (bt_remove kw_end a ?ws))
      (ses_active_windows m)\<rparr>" "msg = on_shared_slot (Merge_windows [w, a])"
    using assms(5) ws Some less
    by (auto simp: close_or_merge_def try_merge_with_active_def keyed_window_new_def max_absorb2 Let_def)
  have "kw_end ?n = kw_end a" by simp
  note new = replace_window [OF wf a(1) this]
  have span: "interval ?n = interval w \<union> interval a"
    using overlap_union [OF a(2)] less by (simp add: interval_def max_absorb2)
  have "spanned (bt_insert kw_end ?n (bt_remove kw_end a ?ws)) = spanned ?ws \<union> interval w"
    unfolding spanned_def new(1) using span a(1) by auto
  moreover have "key_ok key (bt_insert kw_end ?n (bt_remove kw_end a ?ws))"
    using new assms(1,3) \<open>proper a\<close> by (auto simp: key_ok_def proper_def)
  moreover have "kw_end ` set (bt_insert kw_end ?n (bt_remove kw_end a ?ws)) = kw_end ` set ?ws"
    using new(1) a(1) by (auto simp: image_iff)
  moreover have "b \<le> kw_start w" if "\<forall>x \<in> interval w. b \<le> x" for b
    using that assms(2) by (simp add: interval_def proper_def)
  ultimately show ?thesis unfolding res settles_def using new a(1) by simp
qed

lemma process_group_hull:
  assumes "g \<noteq> []"
  shows "process_close_window_group key g m =
    (case close_or_merge key (hull g) m of
       (m', msg) \<Rightarrow> (m', (if tl g = [] then [] else [on_shared_slot (Merge_windows g)]) @ [msg]))"
proof -
  obtain w ws where "g = w # ws" using assms by (cases g) auto
  with merge_windows_hull [OF assms] show ?thesis
    by (cases ws) (simp_all add: process_close_window_group_def split_beta)
qed

text \<open>Groups that may be closed at a watermark: separated, each one interval, in ascending order.\<close>

definition closing_groups :: "string \<Rightarrow> datetime \<Rightarrow> keyed_window list list \<Rightarrow> bool" where
  "closing_groups key wm gs \<longleftrightarrow>
     (\<forall>g \<in> set gs. g \<noteq> [] \<and> interval (hull g) = spanned g \<and> proper (hull g) \<and>
        combine_keys (kw_keys (hull g)) = key \<and> kw_end (hull g) \<le> wm) \<and>
     sorted_wrt (\<lambda>g h. kw_end (hull g) \<le> kw_start (hull h)) gs"

lemma process_groups_settles:
  assumes "closing_groups key wm gs" and "key_ok key (windows_of key m)"
    and "\<forall>a \<in> set (windows_of key m). wm < kw_end a" and "process_groups key gs m = (m', ms)"
  shows "settles key (spanned (concat gs)) m m' (closes ms) \<and> set (closes ms) \<subseteq> hull ` set gs \<and>
    sorted_wrt (\<lambda>v w. kw_end v \<le> kw_start w) (closes ms)"
  using assms
proof (induction gs arbitrary: m ms)
  case Nil
  then show ?case by (simp add: settles_refl)
next
  case (Cons g gs)
  have g: "g \<noteq> []" "interval (hull g) = spanned g" "proper (hull g)"
    "combine_keys (kw_keys (hull g)) = key" "kw_end (hull g) \<le> wm"
    and after: "\<forall>h \<in> set gs. kw_end (hull g) \<le> kw_start (hull h)" and gs: "closing_groups key wm gs"
    using Cons.prems(1) by (auto simp: closing_groups_def)
  obtain m1 msg where m1: "close_or_merge key (hull g) m = (m1, msg)" by fastforce
  obtain ms' where ms': "process_groups key gs m1 = (m', ms')"
    "ms = (if tl g = [] then [] else [on_shared_slot (Merge_windows g)]) @ [msg] @ ms'"
    using Cons.prems(4) m1 process_group_hull [OF g(1), of key m] by (auto split: prod.splits)
  have cl: "closes ms = closes [msg] @ closes ms'"
    unfolding ms'(2) by (simp add: closes_Cons [of msg ms'])
  have "\<forall>a \<in> set (windows_of key m). kw_end (hull g) < kw_end a" using Cons.prems(3) g(5) by fastforce
  from close_or_merge_settles [OF Cons.prems(2) g(3,4) this m1]
  have one: "settles key (spanned g) m m1 (closes [msg])" "set (closes [msg]) \<subseteq> {hull g}"
    unfolding g(2) by simp_all
  have kept: "key_ok key (windows_of key m1)"
    "kw_end ` set (windows_of key m1) = kw_end ` set (windows_of key m)"
    using one(1) by (auto simp: settles_def)
  have "\<forall>a \<in> set (windows_of key m1). wm < kw_end a"
  proof
    fix a assume "a \<in> set (windows_of key m1)"
    then have "kw_end a \<in> kw_end ` set (windows_of key m)" using kept(2) by blast
    then show "wm < kw_end a" using Cons.prems(3) by auto
  qed
  note IH = Cons.IH [OF gs kept(1) this ms'(1)]
  have le: "kw_end (hull g) \<le> x" if x: "x \<in> spanned (concat gs)" for x
  proof -
    obtain h where h: "h \<in> set gs" "x \<in> spanned h" using x unfolding spanned_def by auto
    then have "x \<in> interval (hull h)" using gs by (auto simp: closing_groups_def)
    then show ?thesis using after h(1) by (force simp: interval_def)
  qed
  have "settles key (spanned g \<union> spanned (concat gs)) m m' (closes [msg] @ closes ms')"
    using one le by (intro settles_trans [OF one(1) conjunct1 [OF IH]]) auto
  moreover have "\<forall>v \<in> set (closes [msg]). \<forall>w \<in> set (closes ms'). kw_end v \<le> kw_start w"
    using one(2) IH after by blast
  moreover have "sorted_wrt (\<lambda>v w. kw_end v \<le> kw_start w) (closes [msg])"
    by (cases "uwm_operation msg") (simp_all add: closes_def List.map_filter_def)
  ultimately show ?case using IH one(2) cl by (auto simp: sorted_wrt_append)
qed

lemma windows_that_can_be_merged_spec:
  assumes "bt_wf kw_end ws" and "\<forall>w \<in> set ws. proper w"
  shows "concat (map rev (windows_that_can_be_merged ws)) = ws \<and>
    (\<forall>g \<in> set (windows_that_can_be_merged ws). g \<noteq> [] \<and> interval (hull g) = spanned g \<and> proper (hull g)) \<and>
    sorted_wrt (\<lambda>g h. kw_end (hull g) \<le> kw_start (hull h)) (windows_that_can_be_merged ws)"
proof -
  have "later_first (rev ws)" using assms(1) by (simp add: bt_wf_def sorted_wrt_rev sorted_wrt_map)
  with merge_groups_spec [of "rev ws"] assms(2)
  have spec: "concat (merge_groups (rev ws)) = rev ws"
    "\<forall>g \<in> set (merge_groups (rev ws)). g \<noteq> [] \<and> interval (hull g) = spanned g \<and> proper (hull g)"
    "sorted_wrt (\<lambda>g h. kw_end (hull h) \<le> kw_start (hull g)) (merge_groups (rev ws))" by simp_all
  have "concat (map rev (rev gs)) = rev (concat gs)" for gs :: "keyed_window list list"
    by (induction gs) simp_all
  with spec show ?thesis by (simp add: windows_that_can_be_merged_def sorted_wrt_rev)
qed

lemma closing_groups_of_expired:
  assumes "key_ok key ws" and "\<forall>w \<in> set ws. kw_end w \<le> wm"
  shows "closing_groups key wm (windows_that_can_be_merged ws)"
    and "spanned (concat (windows_that_can_be_merged ws)) = spanned ws"
proof -
  let ?gs = "windows_that_can_be_merged ws"
  have spec: "concat (map rev ?gs) = ws"
    "\<forall>g \<in> set ?gs. g \<noteq> [] \<and> interval (hull g) = spanned g \<and> proper (hull g)"
    "sorted_wrt (\<lambda>g h. kw_end (hull g) \<le> kw_start (hull h)) ?gs"
    using windows_that_can_be_merged_spec [of ws] assms(1) by (simp_all add: key_ok_def)
  have "set (concat ?gs) = set (concat (map rev ?gs))" by simp
  then have all: "set (concat ?gs) = set ws" unfolding spec(1) .
  then show "spanned (concat ?gs) = spanned ws" by (rule spanned_set)
  have "combine_keys (kw_keys (hull g)) = key \<and> kw_end (hull g) \<le> wm" if g: "g \<in> set ?gs" for g
  proof -
    have sub: "set g \<subseteq> set ws" "g \<noteq> []" using g all spec(2) by auto
    then have "kw_keys (hull g) \<in> kw_keys ` set ws" by (cases g) (auto simp: hull_def)
    moreover have "kw_end (hull g) \<le> wm" using sub assms(2) by (auto simp: hull_def Max_le_iff)
    ultimately show ?thesis using assms(1) by (auto simp: key_ok_def)
  qed
  with spec show "closing_groups key wm ?gs" by (auto simp: closing_groups_def)
qed

definition closes_for :: "string \<Rightarrow> unaligned_window_message list \<Rightarrow> keyed_window list" where
  "closes_for key ms = filter (\<lambda>w. combine_keys (kw_keys w) = key) (closes ms)"

lemma closes_for_append [simp]: "closes_for key (ms @ ms') = closes_for key ms @ closes_for key ms'"
  by (simp add: closes_for_def)

text \<open>The sessions of a key after closing the span \<open>S\<close>.\<close>

definition key_settled ::
    "string \<Rightarrow> datetime \<Rightarrow> datetime set \<Rightarrow> session_manager \<Rightarrow> session_manager \<Rightarrow> keyed_window list \<Rightarrow> bool" where
  "key_settled key wm S m m' cs \<longleftrightarrow>
     key_ok key (windows_of key m') \<and>
     kw_end ` set (windows_of key m') = kw_end ` set (windows_of key m) \<and>
     spanned (windows_of key m') \<union> spanned cs = spanned (windows_of key m) \<union> S \<and>
     (\<forall>c \<in> set cs. kw_end c \<le> wm \<and> (\<forall>a \<in> set (windows_of key m'). kw_end c \<le> kw_start a)) \<and>
     sorted_wrt (\<lambda>v w. kw_end v \<le> kw_start w) cs"

lemma process_closed_settles:
  assumes "key_ok key ws" and "\<forall>w \<in> set ws. kw_end w \<le> wm" and "key_ok key (windows_of key m)"
    and "\<forall>a \<in> set (windows_of key m). wm < kw_end a" and "process_closed_windows key ws m = (m', ms)"
  shows "settles key (spanned ws) m m' (closes ms) \<and> key_settled key wm (spanned ws) m m' (closes ms) \<and>
    (\<forall>c \<in> set (closes ms). combine_keys (kw_keys c) = key)"
proof -
  note groups = closing_groups_of_expired [OF assms(1,2)]
  have run: "process_groups key (windows_that_can_be_merged ws) m = (m', ms)"
    using assms(5) by (simp add: process_closed_windows_def)
  note spec = process_groups_settles [OF groups(1) assms(3,4) run, unfolded groups(2)]
  have hulls: "kw_end c \<le> wm \<and> combine_keys (kw_keys c) = key" if "c \<in> set (closes ms)" for c
    using that spec groups(1) by (auto simp: closing_groups_def)
  note s = settlesD [OF conjunct1 [OF spec]]
  have "key_settled key wm (spanned ws) m m' (closes ms)"
    unfolding key_settled_def using s(1,3,4,5) hulls spec by (intro conjI) auto
  with hulls spec show ?thesis by blast
qed

lemma process_keys_settles:
  assumes "distinct (map fst kws)"
    and "\<forall>(k, ws) \<in> set kws. key_ok k ws \<and> (\<forall>w \<in> set ws. kw_end w \<le> wm)"
    and "\<forall>k. key_ok k (windows_of k m) \<and> (\<forall>a \<in> set (windows_of k m). wm < kw_end a)"
    and "process_keys kws m = (m', ms)"
  shows "(\<forall>k. key_settled k wm (spanned (case map_of kws k of Some ws \<Rightarrow> ws | None \<Rightarrow> [])) m m' (closes_for k ms)) \<and>
    (\<forall>k. k \<notin> fst ` set kws \<longrightarrow> windows_of k m' = windows_of k m) \<and>
    (\<forall>c \<in> set (closes ms). combine_keys (kw_keys c) \<in> fst ` set kws) \<and>
    ses_timeout m' = ses_timeout m \<and> (hm_wf (ses_active_windows m) \<longrightarrow> hm_wf (ses_active_windows m')) \<and>
    ses_closed_windows m' = fold (bt_insert kw_end) (closes ms) (ses_closed_windows m)"
  using assms
proof (induction kws arbitrary: m ms)
  case Nil
  then show ?case by (simp add: key_settled_def closes_for_def)
next
  case (Cons kw kws)
  obtain key ws where kw: "kw = (key, ws)" by fastforce
  obtain m1 ms1 where m1: "process_closed_windows key ws m = (m1, ms1)" by fastforce
  obtain ms2 where ms2: "process_keys kws m1 = (m', ms2)" "ms = ms1 @ ms2"
    using Cons.prems(4) kw m1 by (auto split: prod.splits)
  have ws: "key_ok key ws" "\<forall>w \<in> set ws. kw_end w \<le> wm" and new: "map_of kws key = None" "key \<notin> fst ` set kws"
    using Cons.prems(1,2) kw by (auto simp: map_of_eq_None_iff)
  have one: "settles key (spanned ws) m m1 (closes ms1)" "key_settled key wm (spanned ws) m m1 (closes ms1)"
    "\<forall>c \<in> set (closes ms1). combine_keys (kw_keys c) = key"
    using process_closed_settles [OF ws _ _ m1] Cons.prems(3) by blast+
  note s = settlesD [OF one(1)]
  have "\<forall>k. key_ok k (windows_of k m1) \<and> (\<forall>a \<in> set (windows_of k m1). wm < kw_end a)"
  proof (intro allI)
    fix k show "key_ok k (windows_of k m1) \<and> (\<forall>a \<in> set (windows_of k m1). wm < kw_end a)"
    proof (cases "k = key")
      case True
      have "wm < kw_end a" if "a \<in> set (windows_of key m1)" for a
      proof -
        have "kw_end a \<in> kw_end ` set (windows_of key m)" using that s(3) by blast
        with Cons.prems(3) show ?thesis by auto
      qed
      with s(1) True show ?thesis by blast
    next
      case False
      with s(2) Cons.prems(3) show ?thesis by simp
    qed
  qed
  with Cons.IH [of m1 ms2] Cons.prems(1,2) ms2(1) have
    IH: "\<forall>k. key_settled k wm (spanned (case map_of kws k of Some ws \<Rightarrow> ws | None \<Rightarrow> [])) m1 m' (closes_for k ms2)"
    "\<forall>c \<in> set (closes ms2). combine_keys (kw_keys c) \<in> fst ` set kws" "ses_timeout m' = ses_timeout m1"
    and rest: "\<forall>k. k \<notin> fst ` set kws \<longrightarrow> windows_of k m' = windows_of k m1" and IH':
    "hm_wf (ses_active_windows m1) \<longrightarrow> hm_wf (ses_active_windows m')"
    "ses_closed_windows m' = fold (bt_insert kw_end) (closes ms2) (ses_closed_windows m1)" by auto
  have "key_settled k wm (spanned (case map_of (kw # kws) k of Some ws \<Rightarrow> ws | None \<Rightarrow> [])) m m' (closes_for k ms)" for k
  proof (cases "k = key")
    case True
    have "closes_for key ms1 = closes ms1" "closes_for key ms2 = []"
      using one(3) IH(2) new(2) by (auto simp: closes_for_def filter_id_conv filter_empty_conv)
    with True one(2) rest new show ?thesis by (simp add: key_settled_def kw ms2(2))
  next
    case False
    have "closes_for k ms1 = []" using one(3) False by (auto simp: closes_for_def filter_empty_conv)
    with False s(2) IH(1) [rule_format, of k] show ?thesis by (simp add: key_settled_def kw ms2(2))
  qed
  moreover have "\<forall>c \<in> set (closes ms). combine_keys (kw_keys c) \<in> fst ` set (kw # kws)"
    using one(3) IH(2) by (auto simp: kw ms2(2))
  moreover have "\<forall>k. k \<notin> fst ` set (kw # kws) \<longrightarrow> windows_of k m' = windows_of k m"
    using rest s(2) by (simp add: kw)
  ultimately show ?case using IH(3) IH' s(7-9) ms2(2) by simp
qed

text \<open>A \<^verbatim>\<open>HashMap\<close> is iterated in some order: every entry once.\<close>

definition iterates :: "(('k, 'v) hashmap \<Rightarrow> ('k, 'v) hashmap) \<Rightarrow> bool" where
  "iterates order \<longleftrightarrow> (\<forall>m. mset (order m) = mset m)"

lemma iteratesD:
  assumes "iterates order" and "hm_wf m"
  shows "distinct (map fst (order m))" and "set (order m) = set m" and "hm_get (order m) = hm_get m"
proof -
  have eq: "mset (order m) = mset m" using assms(1) by (simp add: iterates_def)
  then have "mset (map fst (order m)) = mset (map fst m)" by simp
  then show d: "distinct (map fst (order m))"
    using assms(2) unfolding hm_wf_def by (rule mset_eq_imp_distinct_iff [THEN iffD2])
  show s: "set (order m) = set m" using eq by (rule mset_eq_setD)
  show "hm_get (order m) = hm_get m"
    using map_of_inject_set [OF d assms(2) [unfolded hm_wf_def]] s by simp
qed

lemma windows_of_set_active:
  assumes "hm_wf (ses_active_windows m)"
  shows "windows_of k (m\<lparr>ses_active_windows := hm_retain (\<lambda>_ ws. ws \<noteq> []) (hm_map_values f (ses_active_windows m))\<rparr>) =
    (case hm_get (ses_active_windows m) k of Some ws \<Rightarrow> f ws | None \<Rightarrow> [])"
  using assms by (auto simp: windows_of_def hm_get_retain split: option.splits)

lemma key_ok_filter: "key_ok key ws \<Longrightarrow> key_ok key (filter p ws)"
  by (auto simp: key_ok_def)

lemma session_close_spec:
  assumes "session_inv m" and "iterates order" and "session_close_windows order wm m = (m', ms)"
  shows "session_inv m' \<and>
    (\<forall>k. kw_end ` set (windows_of k m') = {e \<in> kw_end ` set (windows_of k m). wm < e} \<and>
      spanned (windows_of k m') \<union> spanned (closes_for k ms) = spanned (windows_of k m) \<and>
      (\<forall>c \<in> set (closes_for k ms). kw_end c \<le> wm \<and> (\<forall>a \<in> set (windows_of k m'). kw_end c \<le> kw_start a)) \<and>
      sorted_wrt (\<lambda>v w. kw_end v \<le> kw_start w) (closes_for k ms)) \<and>
    ses_closed_windows m' = fold (bt_insert kw_end) (closes ms) (ses_closed_windows m)"
proof -
  let ?exp = "\<lambda>ws. filter (\<lambda>w. kw_end w \<le> wm) ws" and ?act = "\<lambda>ws. filter (\<lambda>w. \<not> kw_end w \<le> wm) ws"
  let ?closed = "hm_retain (\<lambda>_ ws. ws \<noteq> []) (hm_map_values ?exp (ses_active_windows m))"
  let ?m = "m\<lparr>ses_active_windows := hm_retain (\<lambda>_ ws. ws \<noteq> []) (hm_map_values ?act (ses_active_windows m))\<rparr>"
  have wf: "hm_wf (ses_active_windows m)" and ok: "\<And>k. key_ok k (windows_of k m)"
    using assms(1) by (simp_all add: session_inv_def)
  have wfc: "hm_wf ?closed" using wf by simp
  note it = iteratesD [OF assms(2) wfc]
  have act: "windows_of k ?m = ?act (windows_of k m)" for k
    unfolding windows_of_set_active [OF wf] by (simp add: windows_of_def split: option.split)
  have exp: "(case hm_get (order ?closed) k of Some ws \<Rightarrow> ws | None \<Rightarrow> []) = ?exp (windows_of k m)" for k
    unfolding it(3) using wf by (auto simp: windows_of_def hm_get_retain split: option.splits)
  have run: "process_keys (order ?closed) ?m = (m', ms)"
    using assms(3) by (simp add: session_close_windows_def extract_expired_windows_def bt_extract_def)
  have "\<forall>(k, ws) \<in> set (order ?closed). key_ok k ws \<and> (\<forall>w \<in> set ws. kw_end w \<le> wm)"
  proof clarify
    fix k ws assume "(k, ws) \<in> set (order ?closed)"
    then have "hm_get (order ?closed) k = Some ws" using it(1,2) by (simp add: map_of_eq_Some_iff)
    with exp [of k] have ws: "ws = ?exp (windows_of k m)" by simp
    show "key_ok k ws \<and> (\<forall>w \<in> set ws. kw_end w \<le> wm)" unfolding ws using key_ok_filter [OF ok] by simp
  qed
  moreover have "\<forall>k. key_ok k (windows_of k ?m) \<and> (\<forall>a \<in> set (windows_of k ?m). wm < kw_end a)"
    unfolding act using key_ok_filter [OF ok] by simp
  ultimately have spec: "\<And>k. key_settled k wm (spanned (?exp (windows_of k m))) ?m m' (closes_for k ms)"
    "ses_timeout m' = ses_timeout ?m" "hm_wf (ses_active_windows ?m) \<longrightarrow> hm_wf (ses_active_windows m')"
    "ses_closed_windows m' = fold (bt_insert kw_end) (closes ms) (ses_closed_windows ?m)"
    using process_keys_settles [OF it(1) _ _ run, of wm] unfolding exp by auto
  have "spanned (?act ws) \<union> spanned (?exp ws) = spanned ws" for ws by (auto simp: spanned_def)
  moreover have "kw_end ` set (?act ws) = {e \<in> kw_end ` set ws. wm < e}" for ws by auto
  ultimately have per_key: "key_ok k (windows_of k m') \<and>
      kw_end ` set (windows_of k m') = {e \<in> kw_end ` set (windows_of k m). wm < e} \<and>
      spanned (windows_of k m') \<union> spanned (closes_for k ms) = spanned (windows_of k m) \<and>
      (\<forall>c \<in> set (closes_for k ms). kw_end c \<le> wm \<and> (\<forall>a \<in> set (windows_of k m'). kw_end c \<le> kw_start a)) \<and>
      sorted_wrt (\<lambda>v w. kw_end v \<le> kw_start w) (closes_for k ms)" for k
    using spec(1) [of k] unfolding key_settled_def act by simp
  have "bt_wf kw_end (ses_closed_windows m')"
    unfolding spec(4) using assms(1) by (simp add: session_inv_def set_fold_bt_insert(1))
  with per_key spec(2-4) wf assms(1) show ?thesis by (simp add: session_inv_def)
qed

section \<open>Assignment extends the sessions\<close>

text \<open>
  The one case in which an assignment loses part of a session: the window it grows gets the end of
  another active window of the key, and the set, ordered by the end alone, keeps only that one.
\<close>

definition session_clash :: "message \<Rightarrow> session_manager \<Rightarrow> bool" where
  "session_clash msg m \<longleftrightarrow>
     (case session_window_of msg m of
        None \<Rightarrow> False
      | Some n \<Rightarrow>
          (case find_window_to_merge (windows_of (combine_keys (msg_keys msg)) m) n of
             None \<Rightarrow> False
           | Some e \<Rightarrow> kw_end e < kw_end n \<and>
               bt_contains kw_end n (windows_of (combine_keys (msg_keys msg)) m)))"

lemma session_window_of_Some:
  assumes "session_window_of msg m = Some n"
  shows "n = \<lparr>kw_start = from_timestamp_millis (timestamp_millis (msg_event_time msg)),
    kw_end = from_timestamp_millis (timestamp_millis (msg_event_time msg) + dur_millis (ses_timeout m)),
    kw_keys = msg_keys msg\<rparr>"
  using assms
  by (auto simp: session_window_of_def Let_def checked_millis_def keyed_window_new_def bind_eq_Some_conv
    split: if_splits)

lemma session_window_proper: "session_inv m \<Longrightarrow> session_window_of msg m = Some n \<Longrightarrow> proper n"
  by (drule session_window_of_Some) (simp add: proper_def session_inv_def)

text \<open>Growing a window \<open>e\<close> of a key by a new one that overlaps it.\<close>

lemma grow_window:
  assumes "key_ok key ws" and "e \<in> set ws" and "overlap n e" and "proper n" and "combine_keys (kw_keys n) = key"
    and "kw_end e < kw_end n \<Longrightarrow> \<not> bt_contains kw_end n ws"
    and "x = keyed_window_new (min (kw_start n) (kw_start e)) (max (kw_end n) (kw_end e)) (kw_keys n)"
  shows "key_ok key (bt_insert kw_end x (bt_remove kw_end e ws)) \<and>
    spanned (bt_insert kw_end x (bt_remove kw_end e ws)) = spanned ws \<union> interval n \<and>
    kw_end ` set (bt_insert kw_end x (bt_remove kw_end e ws)) \<subseteq> insert (kw_end n) (kw_end ` set ws)"
proof -
  have wf: "bt_wf kw_end ws" and "proper e" using assms(1,2) by (auto simp: key_ok_def)
  have x: "proper x" "combine_keys (kw_keys x) = key" "interval x = interval n \<union> interval e"
    using assms(3-5,7) overlap_union [OF assms(3)] by (auto simp: keyed_window_new_def proper_def interval_def)
  have rest: "set (bt_remove kw_end e ws) = set ws - {e}"
    using bt_wf_inj [OF wf] assms(2) by (auto simp: inj_on_def)
  have "kw_end x \<notin> kw_end ` set (bt_remove kw_end e ws)"
  proof (cases "kw_end e < kw_end n")
    case True
    then have "kw_end x = kw_end n" using assms(7) by (simp add: keyed_window_new_def)
    with assms(6) [OF True] show ?thesis by auto
  next
    case False
    then have "kw_end x = kw_end e" using assms(7) by (simp add: keyed_window_new_def max_absorb2)
    then show ?thesis by auto
  qed
  then have set: "set (bt_insert kw_end x (bt_remove kw_end e ws)) = insert x (set ws - {e})"
    using set_bt_insert [of kw_end "bt_remove kw_end e ws" x] wf rest by (simp only: if_False bt_wf_remove)
  have "key_ok key (bt_insert kw_end x (bt_remove kw_end e ws))"
    using assms(1) set x(1,2) wf by (auto simp: key_ok_def)
  moreover have "spanned (bt_insert kw_end x (bt_remove kw_end e ws)) = spanned ws \<union> interval n"
    unfolding spanned_def set using x(3) assms(2) by auto
  moreover have "kw_end ` set (bt_insert kw_end x (bt_remove kw_end e ws)) \<subseteq> insert (kw_end n) (kw_end ` set ws)"
    unfolding set using assms(2,7) by (auto simp: keyed_window_new_def max_def)
  ultimately show ?thesis by blast
qed

lemma expand_window_iff:
  assumes "proper n" and "overlap n e"
  shows "expand_window_if_needed n e =
    (if interval n \<subseteq> interval e then None
     else Some (keyed_window_new (min (kw_start n) (kw_start e)) (max (kw_end n) (kw_end e)) (kw_keys n)))"
  using assms by (auto simp: expand_window_if_needed_def overlap_def interval_def proper_def)

lemma session_assign_spec:
  assumes "session_inv m" and "session_assign_windows msg m = Some (m', ms)" and "\<not> session_clash msg m"
    and "session_window_of msg m = Some n" and "key = combine_keys (msg_keys msg)"
  shows "session_inv m' \<and> closes ms = [] \<and> ses_timeout m' = ses_timeout m \<and>
    ses_closed_windows m' = ses_closed_windows m \<and> (\<forall>k. k \<noteq> key \<longrightarrow> windows_of k m' = windows_of k m) \<and>
    spanned (windows_of key m') = spanned (windows_of key m) \<union> interval n \<and>
    kw_end ` set (windows_of key m') \<subseteq> insert (kw_end n) (kw_end ` set (windows_of key m))"
proof -
  let ?ws = "windows_of key m"
  have ok: "key_ok key ?ws" and n: "proper n" "combine_keys (kw_keys n) = key"
    using assms(1,4,5) session_window_proper session_window_of_Some [OF assms(4)]
    by (auto simp: session_inv_def)
  have "\<exists>ws. m' = m\<lparr>ses_active_windows := hm_insert key ws (ses_active_windows m)\<rparr> \<and> closes ms = [] \<and>
    key_ok key ws \<and> spanned ws = spanned ?ws \<union> interval n \<and> kw_end ` set ws \<subseteq> insert (kw_end n) (kw_end ` set ?ws)"
  proof (cases "find_window_to_merge ?ws n")
    case None
    have res: "m' = m\<lparr>ses_active_windows := hm_insert key (bt_insert kw_end n ?ws) (ses_active_windows m)\<rparr>"
      "closes ms = []"
      using assms(2,4,5) None by (auto simp: session_assign_windows_def Let_def closes_def List.map_filter_def)
    have "kw_end n \<noteq> kw_end e" if "e \<in> set ?ws" for e
      using None n(1) ok that by (auto simp: find_window_None overlap_def proper_def key_ok_def)
    then have "set (bt_insert kw_end n ?ws) = insert n (set ?ws)"
      using set_bt_insert [of kw_end ?ws n] ok by (auto simp: key_ok_def)
    with res ok n show ?thesis
      by (intro exI [of _ "bt_insert kw_end n ?ws"]) (auto simp: key_ok_def spanned_def)
  next
    case (Some e)
    note e = find_window_Some [OF Some]
    let ?x = "keyed_window_new (min (kw_start n) (kw_start e)) (max (kw_end n) (kw_end e)) (kw_keys n)"
    have clash: "kw_end e < kw_end n \<Longrightarrow> \<not> bt_contains kw_end n ?ws"
      using assms(3,4,5) Some by (simp add: session_clash_def)
    show ?thesis
    proof (cases "interval n \<subseteq> interval e")
      case True
      then have "m' = m\<lparr>ses_active_windows := hm_insert key ?ws (ses_active_windows m)\<rparr>" "closes ms = []"
        using assms(2,4,5) Some expand_window_iff [OF n(1) e(2)]
        by (auto simp: session_assign_windows_def Let_def closes_def List.map_filter_def)
      with ok True e(1) show ?thesis by (intro exI [of _ ?ws]) (auto simp: spanned_def)
    next
      case False
      then have "m' = m\<lparr>ses_active_windows := hm_insert key (bt_insert kw_end ?x (bt_remove kw_end e ?ws))
          (ses_active_windows m)\<rparr>" "closes ms = []"
        using assms(2,4,5) Some expand_window_iff [OF n(1) e(2)]
        by (auto simp: session_assign_windows_def Let_def closes_def List.map_filter_def)
      with grow_window [OF ok e n clash refl] show ?thesis by blast
    qed
  qed
  then obtain ws where "m' = m\<lparr>ses_active_windows := hm_insert key ws (ses_active_windows m)\<rparr>" "closes ms = []"
    "key_ok key ws" "spanned ws = spanned ?ws \<union> interval n"
    "kw_end ` set ws \<subseteq> insert (kw_end n) (kw_end ` set ?ws)" by blast
  then show ?thesis using assms(1) by (simp add: session_inv_def)
qed

section \<open>Runs\<close>

text \<open>
  What happens to a manager over time: messages that are not late arrive, the watermark advances and
  closes windows, closed windows are collected. The log holds the operations sent to the reducer.
  An arrival that would hit the clash above is not part of a run.
\<close>

datatype session_event = Session_arrive message | Session_advance datetime | Session_delete keyed_window

inductive session_run ::
    "((string, keyed_window list) hashmap \<Rightarrow> (string, keyed_window list) hashmap) \<Rightarrow>
     datetime \<Rightarrow> session_manager \<Rightarrow> session_event list \<Rightarrow> datetime \<Rightarrow> session_manager \<Rightarrow>
     unaligned_window_message list \<Rightarrow> bool"
  for order where
  run_start: "session_run order wm m [] wm m []"
| run_arrive: "session_run order wm0 m0 es wm m log \<Longrightarrow> session_assign_windows msg m = Some (m', ops) \<Longrightarrow>
    wm \<le> msg_event_time msg \<Longrightarrow> \<not> session_clash msg m \<Longrightarrow>
    session_run order wm0 m0 (es @ [Session_arrive msg]) wm m' (log @ ops)"
| run_advance: "session_run order wm0 m0 es wm m log \<Longrightarrow> session_close_windows order wm' m = (m', ops) \<Longrightarrow>
    wm \<le> wm' \<Longrightarrow> session_run order wm0 m0 (es @ [Session_advance wm']) wm' m' (log @ ops)"
| run_delete: "session_run order wm0 m0 es wm m log \<Longrightarrow>
    session_run order wm0 m0 (es @ [Session_delete w]) wm (session_delete_window w m) log"

text \<open>The time a message keeps its session alive.\<close>

definition activity :: "duration \<Rightarrow> message \<Rightarrow> datetime set" where
  "activity timeout msg = {from_timestamp_millis (timestamp_millis (msg_event_time msg)) ..<
     from_timestamp_millis (timestamp_millis (msg_event_time msg) + dur_millis timeout)}"

definition arrived :: "string \<Rightarrow> session_event list \<Rightarrow> message set" where
  "arrived key es = {msg. Session_arrive msg \<in> set es \<and> combine_keys (msg_keys msg) = key}"

definition session_separated :: "datetime \<Rightarrow> session_manager \<Rightarrow> bool" where
  "session_separated wm m \<longleftrightarrow> (\<forall>k. \<forall>w \<in> set (windows_of k m). wm < kw_end w) \<and>
     (\<forall>w \<in> set (ses_closed_windows m). kw_end w \<le> wm)"

lemma session_new_inv: "0 < dur_millis timeout \<Longrightarrow> session_inv (session_new timeout)"
  by (simp add: session_inv_def session_new_def windows_of_def)

lemma activity_window:
  "session_window_of msg m = Some n \<Longrightarrow> interval n = activity (ses_timeout m) msg"
  by (drule session_window_of_Some) (simp add: activity_def interval_def)

lemma session_run_step_arrive:
  assumes "session_inv m" and "session_separated wm m" and "session_assign_windows msg m = Some (m', ms)"
    and "wm \<le> msg_event_time msg" and "\<not> session_clash msg m"
  shows "session_inv m' \<and> session_separated wm m' \<and> ses_timeout m' = ses_timeout m \<and> closes ms = [] \<and>
    (\<forall>k. spanned (windows_of k m') = spanned (windows_of k m) \<union>
       (if k = combine_keys (msg_keys msg) then activity (ses_timeout m) msg else {}))"
proof -
  obtain n where n: "session_window_of msg m = Some n"
    using assms(3) by (auto simp: session_assign_windows_def)
  note spec = session_assign_spec [OF assms(1,3,5) n refl]
  have "msg_event_time msg < kw_end n"
    using session_window_of_Some [OF n] assms(1) by (simp add: session_inv_def less_millis_iff)
  then have late: "wm < kw_end n" using assms(4) by simp
  have "wm < kw_end w" if w: "w \<in> set (windows_of k m')" for k w
  proof (cases "k = combine_keys (msg_keys msg)")
    case True
    with w spec have "kw_end w \<in> insert (kw_end n) (kw_end ` set (windows_of k m))" by blast
    with late assms(2) show ?thesis by (auto simp: session_separated_def)
  next
    case False
    with w spec assms(2) show ?thesis by (simp add: session_separated_def)
  qed
  then have "session_separated wm m'" using spec assms(2) by (simp add: session_separated_def)
  with spec activity_window [OF n] show ?thesis by simp
qed

lemma session_run_step_advance:
  assumes "session_inv m" and "session_separated wm m" and "iterates order"
    and "session_close_windows order wm' m = (m', ms)" and "wm \<le> wm'"
  shows "session_inv m' \<and> session_separated wm' m' \<and>
    (\<forall>k. spanned (windows_of k m') \<union> spanned (closes_for k ms) = spanned (windows_of k m) \<and>
       (\<forall>c \<in> set (closes_for k ms). kw_end c \<le> wm'))"
proof -
  note spec = session_close_spec [OF assms(1,3,4)]
  have active: "wm' < kw_end w" if "w \<in> set (windows_of k m')" for k w
  proof -
    have "kw_end w \<in> {e \<in> kw_end ` set (windows_of k m). wm' < e}" using that spec by blast
    then show ?thesis by simp
  qed
  have "kw_end c \<le> wm'" if c: "c \<in> set (ses_closed_windows m')" for c
  proof -
    have "c \<in> set (closes ms) \<union> set (ses_closed_windows m)"
      using c spec set_fold_bt_insert(2) [of kw_end "ses_closed_windows m" "closes ms"] assms(1)
      by (auto simp: session_inv_def)
    then consider "c \<in> set (closes_for (combine_keys (kw_keys c)) ms)" | "c \<in> set (ses_closed_windows m)"
      by (auto simp: closes_for_def)
    then show ?thesis
    proof cases
      case 1
      with spec show ?thesis by blast
    next
      case 2
      with assms(2,5) show ?thesis by (fastforce simp: session_separated_def)
    qed
  qed
  with active have "session_separated wm' m'" by (simp add: session_separated_def)
  with spec show ?thesis by blast
qed

lemma session_close_timeout:
  assumes "session_inv m" and "iterates order" and "session_close_windows order wm m = (m', ms)"
  shows "ses_timeout m' = ses_timeout m"
proof -
  have "ses_timeout (fst (close_or_merge key w m)) = ses_timeout m" for key w m
    by (simp add: close_or_merge_def move_to_closed_windows_def split: prod.split option.split)
  then have "ses_timeout (fst (process_close_window_group key g m)) = ses_timeout m" for key g m
    by (simp add: process_close_window_group_def split_beta split: list.split option.split)
  then have "ses_timeout (fst (process_groups key gs m)) = ses_timeout m" for key gs m
    by (induction gs arbitrary: m) (simp_all add: split_beta)
  then have "ses_timeout (fst (process_keys kws m)) = ses_timeout m" for kws m
    by (induction kws arbitrary: m) (auto simp: split_beta process_closed_windows_def)
  from this [of "order (snd (extract_expired_windows (ses_active_windows m) wm))"
      "m\<lparr>ses_active_windows := fst (extract_expired_windows (ses_active_windows m) wm)\<rparr>"]
  show ?thesis using assms(3) by (simp add: session_close_windows_def split_beta)
qed

lemma session_run_inv:
  assumes "session_run order wm0 m0 es wm m log" and "iterates order" and "session_inv m0"
    and "session_separated wm0 m0" and "\<And>k. windows_of k m0 = []"
  shows "session_inv m \<and> session_separated wm m \<and> ses_timeout m = ses_timeout m0 \<and>
    (\<forall>k. spanned (windows_of k m) \<union> spanned (closes_for k log) = (\<Union>msg \<in> arrived k es. activity (ses_timeout m0) msg))"
  using assms
proof (induction rule: session_run.induct)
  case (run_start wm m)
  then show ?case by (simp add: closes_for_def arrived_def)
next
  case (run_arrive wm0 m0 es wm m log msg m' ops)
  note IH = run_arrive.IH [OF run_arrive.prems]
  note spec = session_run_step_arrive [OF conjunct1 [OF IH] conjunct1 [OF conjunct2 [OF IH]] run_arrive.hyps(2,3,4)]
  have "spanned (windows_of k m') \<union> spanned (closes_for k (log @ ops)) =
      (\<Union>msg \<in> arrived k (es @ [Session_arrive msg]). activity (ses_timeout m0) msg)" for k
  proof -
    have "arrived k (es @ [Session_arrive msg]) =
        arrived k es \<union> (if k = combine_keys (msg_keys msg) then {msg} else {})" by (auto simp: arrived_def)
    moreover have "closes_for k (log @ ops) = closes_for k log" using spec by (simp add: closes_for_def)
    moreover have "spanned (windows_of k m) \<union> spanned (closes_for k log) = (\<Union>msg \<in> arrived k es. activity (ses_timeout m0) msg)"
      using IH by blast
    moreover have "spanned (windows_of k m') = spanned (windows_of k m) \<union>
        (if k = combine_keys (msg_keys msg) then activity (ses_timeout m0) msg else {})" using spec IH by simp
    ultimately show ?thesis by (auto simp del: UN_iff)
  qed
  with IH spec show ?case by simp
next
  case (run_advance wm0 m0 es wm m log wm' m' ops)
  note IH = run_advance.IH [OF run_advance.prems]
  note inv = conjunct1 [OF IH] conjunct1 [OF conjunct2 [OF IH]]
  note spec = session_run_step_advance [OF inv run_advance.prems(1) run_advance.hyps(2,3)]
  have same: "arrived k (es @ [Session_advance wm']) = arrived k es" for k by (auto simp: arrived_def)
  have "spanned (windows_of k m') \<union> spanned (closes_for k (log @ ops)) =
      (\<Union>msg \<in> arrived k es. activity (ses_timeout m0) msg)" for k
  proof -
    have "spanned (windows_of k m') \<union> spanned (closes_for k (log @ ops)) =
        (spanned (windows_of k m') \<union> spanned (closes_for k ops)) \<union> spanned (closes_for k log)" by (simp add: Un_ac)
    also have "\<dots> = spanned (windows_of k m) \<union> spanned (closes_for k log)" using spec by simp
    finally show ?thesis using IH by simp
  qed
  with IH spec same session_close_timeout [OF inv(1) run_advance.prems(1) run_advance.hyps(2)] show ?case by simp
next
  case (run_delete wm0 m0 es wm m log w)
  note IH = run_delete.IH [OF run_delete.prems]
  have "arrived k (es @ [Session_delete w]) = arrived k es" for k by (auto simp: arrived_def)
  with IH show ?case
    by (auto simp: session_delete_window_def session_inv_def session_separated_def)
qed

section \<open>The oldest window\<close>

definition window_ends :: "session_manager \<Rightarrow> datetime set" where
  "window_ends m = kw_end ` (set (ses_closed_windows m) \<union> (\<Union>k. set (windows_of k m)))"

lemma windows_of_values:
  assumes "hm_wf (ses_active_windows m)"
  shows "(\<Union>k. set (windows_of k m)) = (\<Union>ws \<in> set (hm_values (ses_active_windows m)). set ws)"
proof (intro equalityI subsetI)
  fix w assume "w \<in> (\<Union>k. set (windows_of k m))"
  then obtain k where "w \<in> set (windows_of k m)" by blast
  then obtain ws where "hm_get (ses_active_windows m) k = Some ws" "w \<in> set ws"
    by (cases "hm_get (ses_active_windows m) k") (auto simp: windows_of_def)
  then show "w \<in> (\<Union>ws \<in> set (hm_values (ses_active_windows m)). set ws)"
    by (force dest: hm_get_in_set)
next
  fix w assume "w \<in> (\<Union>ws \<in> set (hm_values (ses_active_windows m)). set ws)"
  then obtain k ws where kws: "(k, ws) \<in> set (ses_active_windows m)" "w \<in> set ws" by auto
  then have "windows_of k m = ws" using assms by (simp add: windows_of_def hm_get_iff [symmetric])
  with kws(2) show "w \<in> (\<Union>k. set (windows_of k m))" by blast
qed

lemma least_active_end:
  assumes "session_inv m"
  shows "(let t = iter_min (map kw_end (List.map_filter bt_first (hm_values (ses_active_windows m))))
    in (t = None \<longleftrightarrow> (\<Union>k. set (windows_of k m)) = {}) \<and>
      (\<forall>e. t = Some e \<longrightarrow> e \<in> kw_end ` (\<Union>k. set (windows_of k m)) \<and>
        (\<forall>w \<in> (\<Union>k. set (windows_of k m)). e \<le> kw_end w)))"
proof -
  let ?vals = "hm_values (ses_active_windows m)"
  let ?firsts = "List.map_filter bt_first ?vals"
  have wf: "hm_wf (ses_active_windows m)" using assms by (simp add: session_inv_def)
  note all = windows_of_values [OF wf]
  have firsts: "set ?firsts = {w. \<exists>ws \<in> set ?vals. bt_first ws = Some w}" by (rule set_map_filter_eq)
  have sorted: "bt_wf kw_end ws" if ws: "ws \<in> set ?vals" for ws
  proof -
    obtain k where "(k, ws) \<in> set (ses_active_windows m)" using ws by auto
    then have "windows_of k m = ws" using wf by (simp add: windows_of_def hm_get_iff [symmetric])
    with assms show ?thesis by (auto simp: session_inv_def key_ok_def)
  qed
  have below: "\<exists>v \<in> set ?firsts. kw_end v \<le> kw_end w" if w: "ws \<in> set ?vals" "w \<in> set ws" for ws w
  proof -
    obtain v where "bt_first ws = Some v" using w(2) by (cases ws) (auto simp: bt_first_def)
    with bt_first_least [OF sorted [OF w(1)] _ w(2)] firsts w(1) show ?thesis by blast
  qed
  have "?firsts = [] \<longleftrightarrow> (\<Union>k. set (windows_of k m)) = {}"
  proof
    assume none: "?firsts = []"
    have "w \<notin> set ws" if "ws \<in> set ?vals" for ws w using below [OF that, of w] none by auto
    then show "(\<Union>k. set (windows_of k m)) = {}" unfolding all by blast
  next
    assume none: "(\<Union>k. set (windows_of k m)) = {}"
    have "v \<notin> set ?firsts" for v
      using none bt_first_in [of _ v] unfolding all firsts by blast
    then show "?firsts = []" by (metis list.set_intros(1) neq_Nil_conv)
  qed
  moreover have "e \<in> kw_end ` (\<Union>k. set (windows_of k m)) \<and> (\<forall>w \<in> (\<Union>k. set (windows_of k m)). e \<le> kw_end w)"
    if e: "iter_min (map kw_end ?firsts) = Some e" for e
  proof
    from iter_min_in [OF e] obtain v where v: "v \<in> set ?firsts" "e = kw_end v" by auto
    then obtain ws where ws: "ws \<in> set ?vals" "bt_first ws = Some v" unfolding firsts by blast
    then have "v \<in> (\<Union>k. set (windows_of k m))" unfolding all using bt_first_in [OF ws(2)] by (intro UN_I)
    with v(2) show "e \<in> kw_end ` (\<Union>k. set (windows_of k m))" by (rule image_eqI)
    show "\<forall>w \<in> (\<Union>k. set (windows_of k m)). e \<le> kw_end w"
    proof
      fix w assume "w \<in> (\<Union>k. set (windows_of k m))"
      then obtain ws where "ws \<in> set ?vals" "w \<in> set ws" unfolding all by (elim UN_E)
      from below [OF this] obtain v where "v \<in> set ?firsts" "kw_end v \<le> kw_end w" by blast
      moreover have "e \<le> kw_end v" using iter_min_le [OF e] calculation(1) by simp
      ultimately show "e \<le> kw_end w" by simp
    qed
  qed
  ultimately show ?thesis by (simp add: Let_def)
qed

lemma session_oldest_spec:
  assumes "session_inv m" and "session_separated wm m"
  shows "(session_oldest_window_end_time m = None \<longleftrightarrow> window_ends m = {}) \<and>
    (\<forall>t. session_oldest_window_end_time m = Some t \<longrightarrow> t \<in> window_ends m \<and> (\<forall>e \<in> window_ends m. t \<le> e))"
proof (cases "bt_first (ses_closed_windows m)")
  case None
  then have "ses_closed_windows m = []" by simp
  with least_active_end [OF assms(1)] show ?thesis
    by (simp add: session_oldest_window_end_time_def window_ends_def bt_first_def Let_def)
next
  case (Some w)
  have w: "w \<in> set (ses_closed_windows m)" using Some by (rule bt_first_in)
  have "kw_end w \<le> kw_end v" if "v \<in> set (ses_closed_windows m)" for v
    using bt_first_least [of kw_end, OF _ Some that] assms(1) by (simp add: session_inv_def)
  moreover have "kw_end w \<le> kw_end v" if "v \<in> set (windows_of k m)" for k v
    using assms(2) w that by (fastforce simp: session_separated_def)
  ultimately have "\<forall>e \<in> window_ends m. kw_end w \<le> e" by (auto simp: window_ends_def)
  moreover have "kw_end w \<in> window_ends m" using w by (simp add: window_ends_def)
  ultimately show ?thesis using Some by (auto simp: session_oldest_window_end_time_def)
qed

section \<open>Properties\<close>

definition example_msg :: "i64 \<Rightarrow> message" where
  "example_msg t = (message_default (from_timestamp_millis t))\<lparr>msg_keys := [''a'']\<rparr>"

definition example_window :: "i64 \<Rightarrow> i64 \<Rightarrow> keyed_window" where
  "example_window s e = \<lparr>kw_start = from_timestamp_millis s, kw_end = from_timestamp_millis e, kw_keys = [''a'']\<rparr>"

definition example_session :: "keyed_window list \<Rightarrow> session_manager" where
  "example_session ws = \<lparr>ses_timeout = 10000000, ses_active_windows = [(''a'', ws)], ses_closed_windows = []\<rparr>"

lemma example_timeout: "dur_millis 10000000 = 10"
  by (simp add: duration_ok_def i64_MAX_def)

lemma example_windows_of: "windows_of k (example_session ws) = (if k = ''a'' then ws else [])"
  by (simp add: example_session_def windows_of_def)

lemma example_window_simps [simp]:
  "kw_start (example_window s e) = from_timestamp_millis s" "kw_end (example_window s e) = from_timestamp_millis e"
  "kw_keys (example_window s e) = [''a'']"
  by (simp_all add: example_window_def)

lemma example_session_inv:
  "bt_wf kw_end ws \<Longrightarrow> \<forall>w \<in> set ws. proper w \<and> kw_keys w = [''a''] \<Longrightarrow> session_inv (example_session ws)"
  by (simp add: session_inv_def example_windows_of key_ok_def)
    (simp add: example_session_def hm_wf_def example_timeout)

lemma iterates_id: "iterates (\<lambda>m. m)"
  by (simp add: iterates_def)







text \<open>
  The order by end time alone loses a window. With a timeout of 10 ms, events of one key at 0, 20,
  12, 5, 14 and 20 ms leave a manager that no longer covers the first events of the session: the
  window grown by the last event gets the end of the other active window and is dropped.
\<close>

fun session_assign_all :: "message list \<Rightarrow> session_manager \<Rightarrow> session_manager option" where
  "session_assign_all [] m = Some m"
| "session_assign_all (msg # msgs) m = Option.bind (session_assign_windows msg m) (\<lambda>(m', _). session_assign_all msgs m')"

lemmas session_eval = session_assign_windows_def session_window_of_def windows_of_def example_timeout
  example_msg_def message_default_def checked_millis_def representable_def find_window_to_merge_def
  expand_window_if_needed_def keyed_window_new_def bt_remove_def Let_def from_timestamp_millis_def
  timestamp_millis_def example_window_def example_session_def

lemma session_clash_loses:
  "\<exists>m m' ms. session_assign_all (map example_msg [0, 20, 12, 5, 14]) (session_new 10000000) = Some m \<and>
    session_assign_windows (example_msg 20) m = Some (m', ms) \<and> session_clash (example_msg 20) m \<and>
    windows_of ''a'' m = [example_window 0 24, example_window 12 30] \<and>
    windows_of ''a'' m' = [example_window 12 30]"
proof -
  have "session_assign_all (map example_msg [0, 20, 12, 5, 14]) (session_new 10000000) =
      Some (example_session [example_window 0 24, example_window 12 30])"
    by (simp add: session_eval session_new_def)
  then show ?thesis by (simp add: session_eval session_clash_def)
qed

text \<open>
  The closed windows of all keys share one set ordered by the end time, so of two sessions of
  different keys that end together only one is kept, and collecting one forgets the other.
\<close>

lemma session_closed_collision:
  assumes "kw_end v = kw_end w" and "ses_closed_windows m = []"
  shows "ses_closed_windows (move_to_closed_windows w (move_to_closed_windows v m)) = [v]"
    and "ses_closed_windows (session_delete_window w (move_to_closed_windows v m)) = []"
  using assms by (simp_all add: move_to_closed_windows_def session_delete_window_def bt_remove_def)

end
