(* ===== verification/AccumulatorWindows.thy ===== *)
theory AccumulatorWindows
  imports UnalignedWindows
begin

text \<open>
  Accumulator windows (\<^verbatim>\<open>numaflow-core/src/reduce/reducer/unaligned/windower/accumulator.rs\<close>): one window
  per key that never ends by itself, the event times still pending in it, and its closing after a
  time without messages. A \<^verbatim>\<open>BTreeSet\<close> of times is an ascending list. The state behind the shared
  locks of a \<^verbatim>\<open>WindowState\<close> is part of the entry of its map. \<open>None\<close> is a panic on a time or duration
  outside the range of \<^verbatim>\<open>chrono\<close>.
\<close>

section \<open>The state of a window\<close>

definition MAX_UTC :: datetime where
  "MAX_UTC = 8210266876799999999999"

lemma MAX_UTC_greatest: "representable t \<Longrightarrow> t \<le> MAX_UTC"
  unfolding representable_def MAX_UTC_def by arith

record window_state =
  ws_window :: keyed_window
  ws_message_timestamps :: "datetime list"
  ws_max_event_time :: datetime

definition window_state_new :: "keyed_window \<Rightarrow> window_state" where
  "window_state_new w =
     \<lparr>ws_window = w, ws_message_timestamps = [], ws_max_event_time = from_timestamp_millis 0\<rparr>"

definition append_timestamp :: "datetime \<Rightarrow> window_state \<Rightarrow> window_state" where
  "append_timestamp event_time st =
     st\<lparr>ws_message_timestamps := bt_insert (\<lambda>t. t) event_time (ws_message_timestamps st),
        ws_max_event_time := (if event_time > ws_max_event_time st then event_time else ws_max_event_time st)\<rparr>"

definition delete_timestamps_before :: "datetime \<Rightarrow> window_state \<Rightarrow> window_state \<times> bool" where
  "delete_timestamps_before end_time st =
     (let ts = filter (\<lambda>t. t \<ge> end_time) (ws_message_timestamps st)
      in (st\<lparr>ws_message_timestamps := ts\<rparr>, ts = []))"

definition oldest_timestamp :: "window_state \<Rightarrow> datetime option" where
  "oldest_timestamp st = bt_first (ws_message_timestamps st)"

section \<open>The manager\<close>

record accumulator_manager =
  acc_timeout :: duration
  acc_active_windows :: "(string, window_state) hashmap"
  acc_closed_windows :: "(string, window_state) hashmap"

definition accumulator_new :: "duration \<Rightarrow> accumulator_manager" where
  "accumulator_new timeout = \<lparr>acc_timeout = timeout, acc_active_windows = [], acc_closed_windows = []\<rparr>"

definition accumulator_assign_windows ::
    "message \<Rightarrow> accumulator_manager \<Rightarrow> accumulator_manager \<times> unaligned_window_message list" where
  "accumulator_assign_windows msg m =
     (let key = combine_keys (msg_keys msg); event_time = msg_event_time msg
      in case hm_get (acc_active_windows m) key of
           Some st \<Rightarrow>
             (m\<lparr>acc_active_windows := hm_insert key (append_timestamp event_time st) (acc_active_windows m)\<rparr>,
              [on_shared_slot (Append_window msg (ws_window st))])
         | None \<Rightarrow>
             let w = keyed_window_new event_time MAX_UTC (msg_keys msg);
                 st = append_timestamp event_time (window_state_new w)
             in (m\<lparr>acc_active_windows := hm_insert key st (acc_active_windows m)\<rparr>,
                 [on_shared_slot (Open_window msg w)]))"

text \<open>\<^verbatim>\<open>chrono::Duration::from_std\<close> refuses more than \<open>i64::MAX\<close> milliseconds.\<close>

definition duration_from_std :: "duration \<Rightarrow> int option" where
  "duration_from_std d = (if int d \<le> i64_MAX * 1000000 then Some (int d) else None)"

definition accumulator_close_windows ::
    "datetime \<Rightarrow> accumulator_manager \<Rightarrow> (accumulator_manager \<times> unaligned_window_message list) option" where
  "accumulator_close_windows watermark m =
     Option.bind (duration_from_std (acc_timeout m)) (\<lambda>timeout.
       if \<exists>st \<in> set (hm_values (acc_active_windows m)). \<not> representable (ws_max_event_time st + timeout)
       then None
       else
         let idle = (\<lambda>_ st. watermark > ws_max_event_time st + timeout);
             expired = hm_retain idle (acc_active_windows m)
         in Some (m\<lparr>acc_active_windows := hm_retain (\<lambda>k st. \<not> idle k st) (acc_active_windows m),
                    acc_closed_windows := fold (\<lambda>(key, st). hm_insert key st) expired (acc_closed_windows m)\<rparr>,
                  map (\<lambda>(key, st). on_shared_slot (Close_window (keyed_window_new (kw_start (ws_window st))
                    (ws_max_event_time st + timeout) (kw_keys (ws_window st))))) expired))"

definition accumulator_delete_window :: "keyed_window \<Rightarrow> accumulator_manager \<Rightarrow> accumulator_manager" where
  "accumulator_delete_window w m =
     (let key = combine_keys (kw_keys w);
          active = (case hm_get (acc_active_windows m) key of
              Some st \<Rightarrow> hm_insert key (fst (delete_timestamps_before (kw_end w) st)) (acc_active_windows m)
            | None \<Rightarrow> acc_active_windows m);
          closed = (case hm_get (acc_closed_windows m) key of
              Some st \<Rightarrow>
                (case delete_timestamps_before (kw_end w) st of
                   (st', drained) \<Rightarrow> if drained then hm_remove key (acc_closed_windows m)
                                    else hm_insert key st' (acc_closed_windows m))
            | None \<Rightarrow> acc_closed_windows m)
      in m\<lparr>acc_active_windows := active, acc_closed_windows := closed\<rparr>)"

definition accumulator_oldest_window_end_time :: "accumulator_manager \<Rightarrow> datetime option" where
  "accumulator_oldest_window_end_time m =
     iter_min (List.map_filter oldest_timestamp (hm_values (acc_active_windows m) @ hm_values (acc_closed_windows m)))"

definition accumulator_active_window_count :: "accumulator_manager \<Rightarrow> nat" where
  "accumulator_active_window_count m = length (acc_active_windows m)"

definition accumulator_closed_window_count :: "accumulator_manager \<Rightarrow> nat" where
  "accumulator_closed_window_count m = length (acc_closed_windows m)"

section \<open>The pending event times\<close>

definition acc_inv :: "accumulator_manager \<Rightarrow> bool" where
  "acc_inv m \<longleftrightarrow> hm_wf (acc_active_windows m) \<and> hm_wf (acc_closed_windows m) \<and>
     (\<forall>k st. hm_get (acc_active_windows m) k = Some st \<or> hm_get (acc_closed_windows m) k = Some st \<longrightarrow>
        bt_wf (\<lambda>t. t) (ws_message_timestamps st))"

definition entries_pending :: "(string, window_state) hashmap \<Rightarrow> (string \<times> datetime) set" where
  "entries_pending h = {(k, t). \<exists>st. hm_get h k = Some st \<and> t \<in> set (ws_message_timestamps st)}"

definition pending :: "accumulator_manager \<Rightarrow> (string \<times> datetime) set" where
  "pending m = entries_pending (acc_active_windows m) \<union> entries_pending (acc_closed_windows m)"

text \<open>
  A second close of a key replaces the closed state of the first. When that one still has pending
  times, they are forgotten.
\<close>

definition overwrites :: "datetime \<Rightarrow> accumulator_manager \<Rightarrow> bool" where
  "overwrites wm m \<longleftrightarrow> (\<exists>(k, st) \<in> set (acc_active_windows m).
     wm > ws_max_event_time st + int (acc_timeout m) \<and>
     (\<exists>old. hm_get (acc_closed_windows m) k = Some old \<and> ws_message_timestamps old \<noteq> []))"

lemma entries_pending_insert:
  "entries_pending (hm_insert k st h) =
     {(j, t). j = k \<and> t \<in> set (ws_message_timestamps st)} \<union> {(j, t) \<in> entries_pending h. j \<noteq> k}"
  by (auto simp: entries_pending_def split: if_splits)

lemma entries_pending_remove: "entries_pending (hm_remove k h) = {(j, t) \<in> entries_pending h. j \<noteq> k}"
  by (auto simp: entries_pending_def split: if_splits)

lemma set_bt_insert_id: "bt_wf (\<lambda>t. t) ts \<Longrightarrow> set (bt_insert (\<lambda>t. t) t ts) = insert t (set ts)"
  by (auto simp: set_bt_insert)

lemma fold_hm_insert:
  assumes "distinct (map fst xs)"
  shows "hm_get (fold (\<lambda>(k, v). hm_insert k v) xs h) j = (case map_of xs j of Some v \<Rightarrow> Some v | None \<Rightarrow> hm_get h j)"
    and "hm_wf h \<Longrightarrow> hm_wf (fold (\<lambda>(k, v). hm_insert k v) xs h)"
  using assms
proof (induction xs arbitrary: h)
  case (Cons x xs)
  obtain k v where x: "x = (k, v)" by fastforce
  {
    case 1
    then have "map_of xs k = None" using x by (simp add: map_of_eq_None_iff)
    with 1 x Cons.IH(1) [of "hm_insert k v h"] show ?case by (simp split: option.split)
  next
    case 2
    with x Cons.IH(2) [of "hm_insert k v h"] show ?case by simp
  }
qed simp_all

lemma assign_pending:
  assumes "acc_inv m" and "accumulator_assign_windows msg m = (m', ms)"
  shows "acc_inv m'" and "pending m' = insert (combine_keys (msg_keys msg), msg_event_time msg) (pending m)"
    and "acc_timeout m' = acc_timeout m"
proof -
  let ?key = "combine_keys (msg_keys msg)" and ?t = "msg_event_time msg"
  obtain st where st: "m' = m\<lparr>acc_active_windows := hm_insert ?key (append_timestamp ?t st) (acc_active_windows m)\<rparr>"
    "hm_get (acc_active_windows m) ?key = Some st \<or>
     hm_get (acc_active_windows m) ?key = None \<and> ws_message_timestamps st = []"
    using assms(2)
    by (cases "hm_get (acc_active_windows m) ?key")
      (auto simp: accumulator_assign_windows_def Let_def window_state_new_def)
  then have wf: "bt_wf (\<lambda>t. t) (ws_message_timestamps st)" using assms(1) by (auto simp: acc_inv_def)
  then show "acc_inv m'" using assms(1) st(1) by (auto simp: acc_inv_def append_timestamp_def split: if_splits)
  have "{(j, t). j = ?key \<and> t \<in> set (ws_message_timestamps (append_timestamp ?t st))} =
      insert (?key, ?t) {(j, t). j = ?key \<and> t \<in> set (ws_message_timestamps st)}"
    using set_bt_insert_id [OF wf] by (auto simp: append_timestamp_def)
  moreover have "{(j, t). j = ?key \<and> t \<in> set (ws_message_timestamps st)} =
      {(j, t) \<in> entries_pending (acc_active_windows m). j = ?key}"
    using st(2) by (auto simp: entries_pending_def)
  ultimately show "pending m' = insert (?key, ?t) (pending m)"
    unfolding pending_def st(1) by (auto simp: entries_pending_insert)
  show "acc_timeout m' = acc_timeout m" using st(1) by simp
qed

lemma delete_pending:
  assumes "acc_inv m"
  shows "acc_inv (accumulator_delete_window w m)"
    and "pending (accumulator_delete_window w m) =
      pending m - {(k, t). k = combine_keys (kw_keys w) \<and> t < kw_end w}"
    and "acc_timeout (accumulator_delete_window w m) = acc_timeout m"
proof -
  let ?key = "combine_keys (kw_keys w)" and ?gone = "{combine_keys (kw_keys w)} \<times> {t. t < kw_end w}"
  let ?cut = "\<lambda>st. st\<lparr>ws_message_timestamps := filter (\<lambda>t. t \<ge> kw_end w) (ws_message_timestamps st)\<rparr>"
  have cut: "entries_pending (hm_insert ?key (?cut st) h) = entries_pending h - ?gone"
    if "hm_get h ?key = Some st" for h st
    using that unfolding entries_pending_insert by (auto simp: entries_pending_def)
  have drop: "entries_pending (hm_remove ?key h) = entries_pending h - ?gone"
    if "hm_get h ?key = Some st" "filter (\<lambda>t. t \<ge> kw_end w) (ws_message_timestamps st) = []" for h st
    using that unfolding entries_pending_remove by (auto simp: entries_pending_def filter_empty_conv not_le)
  have keep: "entries_pending h - ?gone = entries_pending h" if "hm_get h ?key = None" for h
    using that by (auto simp: entries_pending_def)
  have "{(k, t). k = ?key \<and> t < kw_end w} = ?gone" by auto
  moreover have "pending (accumulator_delete_window w m) = pending m - ?gone"
    unfolding pending_def Un_Diff accumulator_delete_window_def delete_timestamps_before_def Let_def
    by (cases "hm_get (acc_active_windows m) ?key"; cases "hm_get (acc_closed_windows m) ?key")
      (simp_all add: cut drop keep)
  ultimately show "pending (accumulator_delete_window w m) = pending m - {(k, t). k = ?key \<and> t < kw_end w}"
    by (simp only:)
  show "acc_inv (accumulator_delete_window w m)"
    using assms unfolding acc_inv_def accumulator_delete_window_def delete_timestamps_before_def Let_def
    by (auto split: option.splits if_splits)
  show "acc_timeout (accumulator_delete_window w m) = acc_timeout m"
    by (simp add: accumulator_delete_window_def Let_def)
qed

lemma close_pending:
  assumes "acc_inv m" and "accumulator_close_windows wm m = Some (m', ms)" and "\<not> overwrites wm m"
  shows "acc_inv m'" and "pending m' = pending m" and "acc_timeout m' = acc_timeout m"
proof -
  let ?idle = "\<lambda>k st. wm > ws_max_event_time st + int (acc_timeout m)"
  let ?act = "acc_active_windows m" and ?clo = "acc_closed_windows m"
  let ?exp = "hm_retain ?idle ?act"
  have m': "m' = m\<lparr>acc_active_windows := hm_retain (\<lambda>k st. \<not> ?idle k st) ?act,
      acc_closed_windows := fold (\<lambda>(key, st). hm_insert key st) ?exp ?clo\<rparr>"
    using assms(2)
    by (auto simp: accumulator_close_windows_def bind_eq_Some_conv duration_from_std_def Let_def split: if_splits)
  have wf: "hm_wf ?act" "hm_wf ?clo" using assms(1) by (simp_all add: acc_inv_def)
  then have d: "distinct (map fst ?exp)" using hm_wf_retain [of ?act ?idle] by (simp add: hm_wf_def)
  note fold = fold_hm_insert [OF d] and ret = hm_get_retain [OF wf(1)]
  have clo: "hm_get (acc_closed_windows m') k = (case hm_get ?act k of
      Some st \<Rightarrow> if ?idle k st then Some st else hm_get ?clo k | None \<Rightarrow> hm_get ?clo k)" for k
    unfolding m' by (simp add: fold(1) ret split: option.split)
  have act: "hm_get (acc_active_windows m') k = (case hm_get ?act k of
      Some st \<Rightarrow> if ?idle k st then None else Some st | None \<Rightarrow> None)" for k
    unfolding m' by (simp add: ret split: option.split)
  show "acc_inv m'"
    using assms(1) wf fold(2) [of ?clo] clo act unfolding acc_inv_def
    by (auto simp: m' split: option.splits if_splits)
  have "(k, t) \<in> pending m' \<longleftrightarrow> (k, t) \<in> pending m" for k t
  proof (cases "hm_get ?act k")
    case None
    then show ?thesis by (simp add: pending_def entries_pending_def act clo)
  next
    case (Some st)
    have "ws_message_timestamps old = []" if "?idle k st" "hm_get ?clo k = Some old" for old
      using assms(3) that hm_get_in_set [OF Some] by (auto simp: overwrites_def)
    with Some show ?thesis
      by (cases "?idle k st") (auto simp: pending_def entries_pending_def act clo)
  qed
  then show "pending m' = pending m" by auto
  show "acc_timeout m' = acc_timeout m" by (simp add: m')
qed

lemma values_get: "hm_wf h \<Longrightarrow> st \<in> set (hm_values h) \<longleftrightarrow> (\<exists>k. hm_get h k = Some st)"
  by (force simp: hm_get_iff)

lemma oldest_pending:
  assumes "acc_inv m"
  shows "(accumulator_oldest_window_end_time m = None \<longleftrightarrow> pending m = {}) \<and>
    (\<forall>t. accumulator_oldest_window_end_time m = Some t \<longrightarrow> t \<in> snd ` pending m \<and> (\<forall>(k, u) \<in> pending m. t \<le> u))"
proof -
  let ?vals = "hm_values (acc_active_windows m) @ hm_values (acc_closed_windows m)"
  let ?firsts = "List.map_filter oldest_timestamp ?vals"
  have vals: "st \<in> set ?vals \<longleftrightarrow> (\<exists>k. hm_get (acc_active_windows m) k = Some st \<or> hm_get (acc_closed_windows m) k = Some st)" for st
  proof -
    have wf: "hm_wf (acc_active_windows m)" "hm_wf (acc_closed_windows m)"
      using assms by (simp_all add: acc_inv_def)
    show ?thesis unfolding set_append Un_iff values_get [OF wf(1)] values_get [OF wf(2)] by blast
  qed
  then have sorted: "bt_wf (\<lambda>t. t) (ws_message_timestamps st)" if "st \<in> set ?vals" for st
    using that assms by (auto simp: acc_inv_def)
  have pend: "snd ` pending m = (\<Union>st \<in> set ?vals. set (ws_message_timestamps st))"
  proof (intro equalityI subsetI)
    fix u assume "u \<in> snd ` pending m"
    then obtain k where "(k, u) \<in> pending m" by auto
    then have "\<exists>st. (hm_get (acc_active_windows m) k = Some st \<or> hm_get (acc_closed_windows m) k = Some st) \<and>
      u \<in> set (ws_message_timestamps st)" by (auto simp: pending_def entries_pending_def)
    with vals show "u \<in> (\<Union>st \<in> set ?vals. set (ws_message_timestamps st))" by blast
  next
    fix u assume "u \<in> (\<Union>st \<in> set ?vals. set (ws_message_timestamps st))"
    then obtain k st where "hm_get (acc_active_windows m) k = Some st \<or> hm_get (acc_closed_windows m) k = Some st"
      "u \<in> set (ws_message_timestamps st)" using vals by blast
    then have "(k, u) \<in> pending m" by (auto simp: pending_def entries_pending_def)
    then show "u \<in> snd ` pending m" by force
  qed
  have firsts: "set ?firsts = {t. \<exists>st \<in> set ?vals. oldest_timestamp st = Some t}" by (rule set_map_filter_eq)
  have sub: "set ?firsts \<subseteq> snd ` pending m"
    unfolding firsts pend by (auto simp: oldest_timestamp_def dest: bt_first_in)
  have below: "\<exists>v \<in> set ?firsts. v \<le> u" if u: "u \<in> snd ` pending m" for u
  proof -
    obtain st where st: "st \<in> set ?vals" "u \<in> set (ws_message_timestamps st)" using u unfolding pend by blast
    then obtain v where v: "oldest_timestamp st = Some v"
      by (cases "ws_message_timestamps st") (auto simp: oldest_timestamp_def bt_first_def)
    then have "v \<le> u" using bt_first_least [OF sorted [OF st(1)] _ st(2)] by (simp add: oldest_timestamp_def)
    with v st(1) show ?thesis unfolding firsts by blast
  qed
  have "?firsts = [] \<longleftrightarrow> pending m = {}"
  proof
    assume "?firsts = []"
    then have "u \<notin> snd ` pending m" for u using below by auto
    then show "pending m = {}" by auto
  qed (use sub in auto)
  moreover have "t \<in> snd ` pending m \<and> (\<forall>(k, u) \<in> pending m. t \<le> u)" if t: "iter_min ?firsts = Some t" for t
  proof
    show "t \<in> snd ` pending m" using iter_min_in [OF t] sub by blast
    have "t \<le> u" if u: "u \<in> snd ` pending m" for u
    proof -
      obtain v where "v \<in> set ?firsts" "v \<le> u" using below [OF u] by blast
      with iter_min_le [OF t, of v] show ?thesis by simp
    qed
    then show "\<forall>(k, u) \<in> pending m. t \<le> u" by force
  qed
  ultimately show ?thesis by (simp add: accumulator_oldest_window_end_time_def)
qed

section \<open>Runs\<close>

datatype accumulator_event =
  Accumulator_arrive message | Accumulator_advance datetime | Accumulator_delete keyed_window

text \<open>A run of the manager. A close that would overwrite pending times is not part of a run.\<close>

inductive accumulator_run ::
    "accumulator_manager \<Rightarrow> accumulator_event list \<Rightarrow> accumulator_manager \<Rightarrow> bool" where
  acc_start: "accumulator_run m [] m"
| acc_arrive: "accumulator_run m0 es m \<Longrightarrow> accumulator_assign_windows msg m = (m', ops) \<Longrightarrow>
    accumulator_run m0 (es @ [Accumulator_arrive msg]) m'"
| acc_advance: "accumulator_run m0 es m \<Longrightarrow> accumulator_close_windows wm m = Some (m', ops) \<Longrightarrow>
    \<not> overwrites wm m \<Longrightarrow> accumulator_run m0 (es @ [Accumulator_advance wm]) m'"
| acc_delete: "accumulator_run m0 es m \<Longrightarrow>
    accumulator_run m0 (es @ [Accumulator_delete w]) (accumulator_delete_window w m)"

text \<open>The abstract state is a set of pending events; closing does not touch it.\<close>

fun pending_after :: "accumulator_event list \<Rightarrow> (string \<times> datetime) set \<Rightarrow> (string \<times> datetime) set" where
  "pending_after [] P = P"
| "pending_after (Accumulator_arrive msg # es) P =
     pending_after es (insert (combine_keys (msg_keys msg), msg_event_time msg) P)"
| "pending_after (Accumulator_advance wm # es) P = pending_after es P"
| "pending_after (Accumulator_delete w # es) P =
     pending_after es (P - {(k, t). k = combine_keys (kw_keys w) \<and> t < kw_end w})"

lemma pending_after_append: "pending_after (es @ fs) P = pending_after fs (pending_after es P)"
  by (induction es P rule: pending_after.induct) simp_all

lemma accumulator_run_inv:
  assumes "accumulator_run m0 es m" and "acc_inv m0"
  shows "acc_inv m \<and> pending m = pending_after es (pending m0)"
  using assms
proof (induction rule: accumulator_run.induct)
  case (acc_arrive m0 es m msg m' ops)
  then have "acc_inv m" "pending m = pending_after es (pending m0)" by simp_all
  with assign_pending(1,2) [OF this(1) acc_arrive.hyps(2)] show ?case by (simp add: pending_after_append)
next
  case (acc_advance m0 es m wm m' ops)
  then have "acc_inv m" "pending m = pending_after es (pending m0)" by simp_all
  with close_pending(1,2) [OF this(1) acc_advance.hyps(2,3)] show ?case by (simp add: pending_after_append)
next
  case (acc_delete m0 es m w)
  then have "acc_inv m" "pending m = pending_after es (pending m0)" by simp_all
  with delete_pending(1,2) [OF this(1)] show ?case by (simp add: pending_after_append)
qed simp

lemma accumulator_new_inv [simp]: "acc_inv (accumulator_new timeout)" "pending (accumulator_new timeout) = {}"
  by (simp_all add: acc_inv_def accumulator_new_def pending_def entries_pending_def hm_wf_def)

section \<open>Properties\<close>



text \<open>
  Closing a key again before its first close is collected forgets the times that were pending: the
  watermark is no longer held back by them.
\<close>

lemma second_close_overwrites:
  assumes "hm_get (acc_closed_windows m) k = Some old" and "acc_active_windows m = [(k, st)]"
    and "wm > ws_max_event_time st + int (acc_timeout m)" and "int (acc_timeout m) \<le> i64_MAX * 1000000"
    and "representable (ws_max_event_time st + int (acc_timeout m))"
  shows "\<exists>m' ms. accumulator_close_windows wm m = Some (m', ms) \<and> hm_get (acc_closed_windows m') k = Some st"
  using assms by (auto simp: accumulator_close_windows_def duration_from_std_def hm_retain_def Let_def)

end
