(* ===== verification/AlignedReducer.thy ===== *)
theory AlignedReducer
  imports AlignedWindows
begin

text \<open>
  The aligned reducer (\<^verbatim>\<open>numaflow-core/src/reduce/reducer/aligned/reducer.rs\<close>): the main loop that drops
  late messages, closes windows and assigns messages, the actor that feeds the reduce task of each
  window, and the end of a task, which collects its window. The loop and the actor are separate
  tasks joined by a channel and share the window manager; a step relation interleaves them.

  The user-defined reduce function and the writer are outside: of a task the model keeps the window
  and the messages it was sent, and how it ended is an argument. Parameter: \<open>trunc\<close> as in the window
  managers. \<open>None\<close> is a panic of the main loop.
\<close>

section \<open>The main loop\<close>

definition DEFAULT_KEY_FOR_NON_KEYED_STREAM :: string where
  "DEFAULT_KEY_FOR_NON_KEYED_STREAM = ''NON_KEYED_STREAM''"

record 'e aligned_reducer =
  ar_window_manager :: aligned_window_manager
  ar_final_result :: "'e + unit"
  ar_shutting_down_on_err :: bool
  ar_allowed_lateness :: duration
  ar_current_watermark :: datetime
  ar_keyed :: bool

definition aligned_reducer_new ::
    "aligned_window_manager \<Rightarrow> duration \<Rightarrow> bool \<Rightarrow> 'e aligned_reducer" where
  "aligned_reducer_new mgr allowed_lateness keyed =
     \<lparr>ar_window_manager = mgr, ar_final_result = Inr (), ar_shutting_down_on_err = False,
      ar_allowed_lateness = allowed_lateness, ar_current_watermark = from_timestamp_millis (-1),
      ar_keyed = keyed\<rparr>"

text \<open>The second component tells whether the cancellation token is triggered.\<close>

definition handle_error :: "'e \<Rightarrow> 'e aligned_reducer \<Rightarrow> 'e aligned_reducer \<times> bool" where
  "handle_error e r =
     (case ar_final_result r of
        Inr () \<Rightarrow> (r\<lparr>ar_final_result := Inl e, ar_shutting_down_on_err := True\<rparr>, True)
      | Inl _ \<Rightarrow> (r, False))"

definition checked_sub :: "datetime \<Rightarrow> duration \<Rightarrow> datetime option" where
  "checked_sub t d = (if representable (t - int d) then Some (t - int d) else None)"

definition close_windows_with_watermark ::
    "datetime \<Rightarrow> 'e aligned_reducer \<Rightarrow> ('e aligned_reducer \<times> aligned_window_message list) option" where
  "close_windows_with_watermark watermark r =
     map_option (\<lambda>wm. case close_windows wm (ar_window_manager r) of
         (mgr, ops) \<Rightarrow> (r\<lparr>ar_window_manager := mgr\<rparr>, ops))
       (checked_sub watermark (ar_allowed_lateness r))"

definition next_watermark :: "message \<Rightarrow> 'e aligned_reducer \<Rightarrow> datetime" where
  "next_watermark msg r = max (ar_current_watermark r)
     (case msg_watermark msg of Some wm \<Rightarrow> wm | None \<Rightarrow> from_timestamp_millis (-1))"

definition assign_and_close_windows ::
    "(datetime \<Rightarrow> int \<Rightarrow> datetime option) \<Rightarrow> message \<Rightarrow> 'e aligned_reducer \<Rightarrow>
     ('e aligned_reducer \<times> aligned_window_message list) option" where
  "assign_and_close_windows trunc msg r0 =
     (let current = next_watermark msg r0;
          r = r0\<lparr>ar_current_watermark := current\<rparr>;
          assign = (if current > msg_event_time msg then Some (r, [])
            else Option.bind (close_windows_with_watermark current r) (\<lambda>(r', closes).
              map_option (\<lambda>(mgr, ops). (r'\<lparr>ar_window_manager := mgr\<rparr>, closes @ ops))
                (assign_windows trunc msg (ar_window_manager r'))))
      in if msg_is_late msg then
           if timestamp_millis current = -1 then Some (r, [])
           else Option.bind (checked_sub current (ar_allowed_lateness r)) (\<lambda>limit.
             if msg_event_time msg < limit then Some (r, []) else assign)
         else assign)"

definition read_message ::
    "(datetime \<Rightarrow> int \<Rightarrow> datetime option) \<Rightarrow> message \<Rightarrow> 'e aligned_reducer \<Rightarrow>
     ('e aligned_reducer \<times> aligned_window_message list) option" where
  "read_message trunc msg r =
     (if ar_shutting_down_on_err r then Some (r, [])
      else if msg_typ msg = WMB_message then
        (case msg_watermark msg of
           None \<Rightarrow> Some (r, [])
         | Some idle_watermark \<Rightarrow>
             if idle_watermark > ar_current_watermark r
             then close_windows_with_watermark idle_watermark (r\<lparr>ar_current_watermark := idle_watermark\<rparr>)
             else Some (r, []))
      else assign_and_close_windows trunc
        (if ar_keyed r then msg else msg\<lparr>msg_keys := [DEFAULT_KEY_FOR_NON_KEYED_STREAM]\<rparr>) r)"

section \<open>The actor and its tasks\<close>

record reduce_task =
  rt_window :: window
  rt_received :: "message list"

datatype task_result = Task_cancelled | Task_failed | Task_written

text \<open>
  The actor: the running tasks by slot, the tasks that ended with what they were sent, and the
  events sent to the log of collected windows.
\<close>

record reduce_actor =
  ra_active_streams :: "(string, reduce_task) hashmap"
  ra_ended :: "reduce_task list"
  ra_gc_wal :: bool
  ra_gc_events :: "gc_event list"

definition reduce_actor_new :: "bool \<Rightarrow> reduce_actor" where
  "reduce_actor_new gc_wal = \<lparr>ra_active_streams = [], ra_ended = [], ra_gc_wal = gc_wal, ra_gc_events = []\<rparr>"

text \<open>
  The end of a task: only when its results are written is the window collected. Without an oldest
  window the task panics, which ends the task alone.
\<close>

definition finish_task ::
    "task_result \<Rightarrow> reduce_task \<Rightarrow> reduce_actor \<times> aligned_window_manager \<Rightarrow> reduce_actor \<times> aligned_window_manager" where
  "finish_task result task s =
     (case s of (a, mgr) \<Rightarrow>
        let a' = a\<lparr>ra_ended := ra_ended a @ [task]\<rparr>
        in if result \<noteq> Task_written then (a', mgr)
           else (case oldest_window mgr of
                   None \<Rightarrow> (a', mgr)
                 | Some oldest \<Rightarrow>
                     let event = (case mgr of
                           Sliding _ \<Rightarrow> window_to_gc_event \<lparr>win_start = win_start oldest, win_end = win_start oldest\<rparr>
                         | Fixed _ \<Rightarrow> window_to_gc_event (rt_window task))
                     in (if ra_gc_wal a' then a'\<lparr>ra_gc_events := ra_gc_events a' @ [event]\<rparr> else a',
                         gc_window (rt_window task) mgr)))"

definition window_open :: "message \<Rightarrow> window \<Rightarrow> string \<Rightarrow> reduce_actor \<Rightarrow> reduce_actor" where
  "window_open msg w slot a =
     (let task = \<lparr>rt_window = w, rt_received = [msg]\<rparr>;
          a' = (case hm_get (ra_active_streams a) slot of
              None \<Rightarrow> a | Some old \<Rightarrow> a\<lparr>ra_ended := ra_ended a @ [old]\<rparr>)
      in a'\<lparr>ra_active_streams := hm_insert slot task (ra_active_streams a)\<rparr>)"

definition window_append :: "message \<Rightarrow> window \<Rightarrow> string \<Rightarrow> reduce_actor \<Rightarrow> reduce_actor" where
  "window_append msg w slot a =
     (case hm_get (ra_active_streams a) slot of
        None \<Rightarrow> window_open msg w slot a
      | Some task \<Rightarrow>
          a\<lparr>ra_active_streams := hm_insert slot (task\<lparr>rt_received := rt_received task @ [msg]\<rparr>)
              (ra_active_streams a)\<rparr>)"

definition window_close ::
    "task_result \<Rightarrow> string \<Rightarrow> reduce_actor \<times> aligned_window_manager \<Rightarrow> reduce_actor \<times> aligned_window_manager" where
  "window_close result slot s =
     (case s of (a, mgr) \<Rightarrow>
        case hm_get (ra_active_streams a) slot of
          None \<Rightarrow> (a, mgr)
        | Some task \<Rightarrow>
            finish_task result task (a\<lparr>ra_active_streams := hm_remove slot (ra_active_streams a)\<rparr>, mgr))"

definition handle_window_message ::
    "task_result \<Rightarrow> aligned_window_message \<Rightarrow> reduce_actor \<times> aligned_window_manager \<Rightarrow>
     reduce_actor \<times> aligned_window_manager" where
  "handle_window_message result m s =
     (case awm_operation m of
        Open msg w \<Rightarrow> (window_open msg w (awm_pnf_slot m) (fst s), snd s)
      | Append msg w \<Rightarrow> (window_append msg w (awm_pnf_slot m) (fst s), snd s)
      | Close w \<Rightarrow> window_close result (awm_pnf_slot m) s)"

section \<open>The reducer as a whole\<close>

text \<open>
  The accepted message of an input: the message that is assigned to windows, with its key
  normalised. It is neither a control message nor late nor behind the watermark.
\<close>

definition in_time :: "message \<Rightarrow> 'e aligned_reducer \<Rightarrow> bool" where
  "in_time msg r \<longleftrightarrow> next_watermark msg r \<le> msg_event_time msg \<and>
     (msg_is_late msg \<longrightarrow> timestamp_millis (next_watermark msg r) \<noteq> -1 \<and>
        next_watermark msg r - int (ar_allowed_lateness r) \<le> msg_event_time msg)"

definition accepted_input :: "message \<Rightarrow> 'e aligned_reducer \<Rightarrow> message list" where
  "accepted_input msg r =
     (if ar_shutting_down_on_err r \<or> msg_typ msg = WMB_message \<or> \<not> in_time msg r then []
      else [if ar_keyed r then msg else msg\<lparr>msg_keys := [DEFAULT_KEY_FOR_NON_KEYED_STREAM]\<rparr>])"

record 'e reduce_system =
  rs_reducer :: "'e aligned_reducer"
  rs_channel :: "aligned_window_message list"
  rs_actor :: reduce_actor

text \<open>
  Runs of the system, with the messages accepted so far and the operations the actor has handled.
\<close>

inductive reduce_run ::
    "(datetime \<Rightarrow> int \<Rightarrow> datetime option) \<Rightarrow> 'e reduce_system \<Rightarrow> message list \<Rightarrow>
     aligned_window_message list \<Rightarrow> 'e reduce_system \<Rightarrow> bool"
  for trunc s0 where
  reduce_start: "reduce_run trunc s0 [] [] s0"
| reduce_read: "reduce_run trunc s0 acc handled s \<Longrightarrow> read_message trunc msg (rs_reducer s) = Some (r', ops) \<Longrightarrow>
    reduce_run trunc s0 (acc @ accepted_input msg (rs_reducer s)) handled
      (s\<lparr>rs_reducer := r', rs_channel := rs_channel s @ ops\<rparr>)"
| reduce_error: "reduce_run trunc s0 acc handled s \<Longrightarrow> handle_error e (rs_reducer s) = (r', c) \<Longrightarrow>
    reduce_run trunc s0 acc handled (s\<lparr>rs_reducer := r'\<rparr>)"
| reduce_handle: "reduce_run trunc s0 acc handled s \<Longrightarrow> rs_channel s = m # rest \<Longrightarrow>
    handle_window_message result m (rs_actor s, ar_window_manager (rs_reducer s)) = (a', mgr') \<Longrightarrow>
    reduce_run trunc s0 acc (handled @ [m])
      (s\<lparr>rs_reducer := (rs_reducer s)\<lparr>ar_window_manager := mgr'\<rparr>, rs_channel := rest, rs_actor := a'\<rparr>)"

definition reduce_system_new :: "aligned_window_manager \<Rightarrow> duration \<Rightarrow> bool \<Rightarrow> bool \<Rightarrow> 'e reduce_system" where
  "reduce_system_new mgr lateness keyed gc_wal =
     \<lparr>rs_reducer = aligned_reducer_new mgr lateness keyed, rs_channel = [], rs_actor = reduce_actor_new gc_wal\<rparr>"

section \<open>Assignment on the grid of a manager\<close>

definition grid :: "aligned_window_manager \<Rightarrow> window set" where
  "grid mgr = (case mgr of
     Fixed m \<Rightarrow> {window_at (dur_millis (fw_window_length m)) s | s. dur_millis (fw_window_length m) dvd s}
   | Sliding m \<Rightarrow> {window_at (dur_millis (sw_window_length m)) s | s. dur_millis (sw_slide m) dvd s})"

text \<open>Everything the sliding manager has collected ended by \<open>b\<close>.\<close>

definition collected_by :: "datetime \<Rightarrow> aligned_window_manager \<Rightarrow> bool" where
  "collected_by b mgr \<longleftrightarrow> (case mgr of
     Fixed m \<Rightarrow> True | Sliding m \<Rightarrow> from_timestamp_millis (sw_max_deleted_window_end_time m) \<le> b)"

lemma collected_by_mono: "collected_by b mgr \<Longrightarrow> b \<le> c \<Longrightarrow> collected_by c mgr"
  by (cases mgr) (auto simp: collected_by_def)

lemma eligible_on_time:
  assumes "from_timestamp_millis (sw_max_deleted_window_end_time m) \<le> t"
    and "holds (window_at (dur_millis (sw_window_length m)) s) t"
  shows "eligible m (window_at (dur_millis (sw_window_length m)) s)"
proof -
  have "t < from_timestamp_millis (s + dur_millis (sw_window_length m))"
    using assms(2) by (simp add: holds_def window_at_def window_new_def)
  with assms(1) have "from_timestamp_millis (sw_max_deleted_window_end_time m) <
      from_timestamp_millis (s + dur_millis (sw_window_length m))" by (rule le_less_trans)
  then show ?thesis by (simp add: eligible_def window_at_def window_new_def)
qed

lemma assign_on_grid:
  assumes "aligned_inv trunc mgr" and "collected_by b mgr" and "b \<le> msg_event_time msg"
  shows "\<exists>mgr' ws. assign_windows trunc msg mgr = Some (mgr', map (assign_message (active_windows mgr) msg) ws) \<and>
    distinct ws \<and> set ws = {w \<in> grid mgr. holds w (msg_event_time msg)} \<and>
    set (active_windows mgr') = set (active_windows mgr) \<union> set ws \<and>
    closed_windows mgr' = closed_windows mgr \<and> grid mgr' = grid mgr \<and> collected_by b mgr'"
proof (cases mgr)
  case (Fixed m)
  let ?len = "dur_millis (fw_window_length m)"
  have "rounds_down trunc" "fixed_inv m" using assms(1) Fixed by (simp_all add: aligned_inv_def)
  from fixed_assign_exact_lemma [OF this, of msg] obtain w m' s where
    w: "fixed_assign_windows trunc msg m = Some (m', [assign_message (fw_active_windows m) msg w])"
      "holds w (msg_event_time msg)" "?len dvd s" "w = window_at ?len s"
      "\<forall>s. ?len dvd s \<and> holds (window_at ?len s) (msg_event_time msg) \<longrightarrow> window_at ?len s = w"
      "set (fw_active_windows m') = insert w (set (fw_active_windows m))"
      "fw_closed_windows m' = fw_closed_windows m" "fw_window_length m' = fw_window_length m" by blast
  have "set [w] = {w \<in> grid mgr. holds w (msg_event_time msg)}"
    using w(2-5) Fixed by (auto simp: grid_def)
  moreover have "assign_windows trunc msg mgr = Some (Fixed m', map (assign_message (active_windows mgr) msg) [w])"
    "set (active_windows (Fixed m')) = set (active_windows mgr) \<union> set [w]"
    "closed_windows (Fixed m') = closed_windows mgr" "grid (Fixed m') = grid mgr" "collected_by b (Fixed m')"
    using w(1,6,7,8) Fixed
    by (simp_all add: assign_windows_def active_windows_def closed_windows_def grid_def collected_by_def)
  moreover have "distinct [w]" by simp
  ultimately show ?thesis by blast
next
  case (Sliding m)
  let ?len = "dur_millis (sw_window_length m)" and ?slide = "dur_millis (sw_slide m)"
  have "rounds_down trunc" "sliding_inv m" using assms(1) Sliding by (simp_all add: aligned_inv_def)
  from sliding_assign_exact_lemma [OF this, of msg] obtain m' ws where
    ws: "sliding_assign_windows trunc msg m = Some (m', map (assign_message (sw_active_windows m) msg) (filter (eligible m) ws))"
      "sorted_wrt (\<lambda>v w. win_end w < win_end v) ws"
      "set ws = {window_at ?len s | s. ?slide dvd s \<and> holds (window_at ?len s) (msg_event_time msg)}"
      "set (sw_active_windows m') = set (sw_active_windows m) \<union> set (filter (eligible m) ws)"
      "sw_closed_windows m' = sw_closed_windows m" "sw_window_length m' = sw_window_length m"
      "sw_slide m' = sw_slide m" "sw_max_deleted_window_end_time m' = sw_max_deleted_window_end_time m" by blast
  have "from_timestamp_millis (sw_max_deleted_window_end_time m) \<le> msg_event_time msg"
    using assms(2,3) Sliding by (simp add: collected_by_def)
  from eligible_on_time [OF this] have "\<forall>w \<in> set ws. eligible m w" unfolding ws(3) by blast
  then have all: "filter (eligible m) ws = ws" by (simp add: filter_id_conv)
  have "set ws = {w \<in> grid mgr. holds w (msg_event_time msg)}" using ws(3) Sliding by (auto simp: grid_def)
  moreover have "distinct ws" using ws(2) by (induction ws) auto
  moreover have "assign_windows trunc msg mgr = Some (Sliding m', map (assign_message (active_windows mgr) msg) ws)"
    "set (active_windows (Sliding m')) = set (active_windows mgr) \<union> set ws"
    "closed_windows (Sliding m') = closed_windows mgr" "grid (Sliding m') = grid mgr" "collected_by b (Sliding m')"
    using ws(1,4-8) all assms(2) Sliding
    by (simp_all add: assign_windows_def active_windows_def closed_windows_def grid_def collected_by_def)
  ultimately show ?thesis by blast
qed

lemma close_keeps_grid: "grid (fst (close_windows wm mgr)) = grid mgr \<and>
    (collected_by b (fst (close_windows wm mgr)) \<longleftrightarrow> collected_by b mgr)"
  by (cases mgr) (simp_all add: close_windows_def fixed_close_windows_def sliding_close_windows_def
    bt_extract_def grid_def collected_by_def)

lemma gc_keeps_grid: "grid (gc_window w mgr) = grid mgr"
  by (cases mgr) (simp_all add: gc_window_def fixed_gc_window_def sliding_gc_window_def grid_def)

lemma gc_collected_by: "collected_by b mgr \<Longrightarrow> win_end w \<le> b \<Longrightarrow> collected_by b (gc_window w mgr)"
  using from_timestamp_millis_floor [of "win_end w"]
  by (cases mgr) (auto simp: gc_window_def sliding_gc_window_def collected_by_def max_def)

lemma active_contains:
  assumes "aligned_inv trunc mgr" and "w \<in> grid mgr"
  shows "bt_contains win_end w (active_windows mgr) \<longleftrightarrow> w \<in> set (active_windows mgr)"
proof (cases mgr)
  case (Fixed m)
  then obtain s where "w = window_at (dur_millis (fw_window_length m)) s" "dur_millis (fw_window_length m) dvd s"
    using assms(2) by (auto simp: grid_def)
  moreover have "aligned (dur_millis (fw_window_length m)) (dur_millis (fw_window_length m)) (fw_active_windows m)"
    using assms(1) Fixed by (auto simp: aligned_inv_def fixed_inv_def aligned_def)
  ultimately show ?thesis using aligned_contains Fixed by (simp add: active_windows_def del: bt_contains_iff)
next
  case (Sliding m)
  then obtain s where "w = window_at (dur_millis (sw_window_length m)) s" "dur_millis (sw_slide m) dvd s"
    using assms(2) by (auto simp: grid_def)
  moreover have "aligned (dur_millis (sw_window_length m)) (dur_millis (sw_slide m)) (sw_active_windows m)"
    using assms(1) Sliding by (auto simp: aligned_inv_def sliding_inv_def aligned_def)
  ultimately show ?thesis using aligned_contains Sliding by (simp add: active_windows_def del: bt_contains_iff)
qed

text \<open>The slot of a window on the grid names it.\<close>

lemma slot_inject:
  assumes "v \<in> grid mgr" and "w \<in> grid mgr"
  shows "window_to_pnf_slot v = window_to_pnf_slot w \<longleftrightarrow> v = w"
proof
  assume "window_to_pnf_slot v = window_to_pnf_slot w"
  then have "timestamp_millis (win_start v) = timestamp_millis (win_start w)"
    unfolding window_to_pnf_slot_def using show_int_pair_inject by simp
  with assms show "v = w"
    by (cases mgr) (auto simp: grid_def window_at_def window_new_def)
qed simp

section \<open>The life of a window\<close>

text \<open>
  The operations of one window are an opening message, appended messages and at most one close. The
  state is the messages sent and whether the window is closed; any other order has no next state.
\<close>

fun life_step :: "message list \<times> bool \<Rightarrow> aligned_window_operation \<Rightarrow> (message list \<times> bool) option" where
  "life_step (M, c) (Open msg w) = (if M = [] \<and> \<not> c then Some ([msg], False) else None)"
| "life_step (M, c) (Append msg w) = (if M \<noteq> [] \<and> \<not> c then Some (M @ [msg], False) else None)"
| "life_step (M, c) (Close w) = (if M \<noteq> [] \<and> \<not> c then Some (M, True) else None)"

fun life :: "message list \<times> bool \<Rightarrow> aligned_window_message list \<Rightarrow> (message list \<times> bool) option" where
  "life s [] = Some s"
| "life s (x # xs) = Option.bind (life_step s (awm_operation x)) (\<lambda>s'. life s' xs)"

definition ops_of :: "window \<Rightarrow> aligned_window_message list \<Rightarrow> aligned_window_message list" where
  "ops_of w ops = filter (\<lambda>x. operation_window (awm_operation x) = w) ops"

lemma life_append: "life s (xs @ ys) = Option.bind (life s xs) (\<lambda>s'. life s' ys)"
  by (induction s xs rule: life.induct) (simp_all split: bind_splits)

lemma life_closed: "life (M, True) xs = Some s \<Longrightarrow> xs = []"
proof (cases xs)
  case (Cons x ys)
  assume "life (M, True) xs = Some s"
  with Cons show ?thesis by (cases "awm_operation x") simp_all
qed

lemma ops_of_simps [simp]:
  "ops_of w [] = []" "ops_of w (xs @ ys) = ops_of w xs @ ops_of w ys"
  "ops_of w (x # xs) = (if operation_window (awm_operation x) = w then x # ops_of w xs else ops_of w xs)"
  by (simp_all add: ops_of_def)

lemma ops_of_closes:
  "distinct ws \<Longrightarrow> ops_of w (map close_message ws) = (if w \<in> set ws then [close_message w] else [])"
  by (induction ws) (auto simp: close_message_def)

lemma operation_window_assign [simp]: "operation_window (awm_operation (assign_message as msg w)) = w"
  by (simp add: assign_message_def)

lemma ops_of_assigns:
  "distinct ws \<Longrightarrow> ops_of w (map (assign_message as msg) ws) = (if w \<in> set ws then [assign_message as msg w] else [])"
  by (induction ws) auto

definition of_window :: "window \<Rightarrow> message list \<Rightarrow> message list" where
  "of_window w acc = filter (\<lambda>m. holds w (msg_event_time m)) acc"

text \<open>
  The main loop against the accepted messages and the operations it has emitted: every window of
  the grid has been sent exactly the accepted messages it holds, is active until closed, and is
  closed only when it ends by the watermark.
\<close>

definition loop_inv ::
    "(datetime \<Rightarrow> int \<Rightarrow> datetime option) \<Rightarrow> window set \<Rightarrow> message list \<Rightarrow> aligned_window_message list \<Rightarrow>
     'e aligned_reducer \<Rightarrow> bool" where
  "loop_inv trunc G acc ops r \<longleftrightarrow>
     aligned_inv trunc (ar_window_manager r) \<and> grid (ar_window_manager r) = G \<and>
     collected_by (ar_current_watermark r) (ar_window_manager r) \<and>
     set (active_windows (ar_window_manager r)) \<subseteq> G \<and>
     (\<forall>x \<in> set ops. operation_window (awm_operation x) \<in> G \<and>
        awm_pnf_slot x = window_to_pnf_slot (operation_window (awm_operation x))) \<and>
     (\<forall>w \<in> G. life ([], False) (ops_of w ops) =
          Some (of_window w acc, of_window w acc \<noteq> [] \<and> w \<notin> set (active_windows (ar_window_manager r))) \<and>
        (w \<in> set (active_windows (ar_window_manager r)) \<longrightarrow> of_window w acc \<noteq> []) \<and>
        (of_window w acc \<noteq> [] \<longrightarrow> w \<in> set (active_windows (ar_window_manager r)) \<or>
           win_end w \<le> ar_current_watermark r))"

lemma loop_inv_watermark:
  assumes "loop_inv trunc G acc ops r" and "ar_current_watermark r \<le> wm"
  shows "loop_inv trunc G acc ops (r\<lparr>ar_current_watermark := wm\<rparr>)"
proof -
  have "of_window w acc \<noteq> [] \<longrightarrow> w \<in> set (active_windows (ar_window_manager r)) \<or> win_end w \<le> wm" if "w \<in> G" for w
    using assms that unfolding loop_inv_def by fastforce
  with assms collected_by_mono show ?thesis by (auto simp: loop_inv_def)
qed

lemma loop_inv_close:
  assumes "loop_inv trunc G acc ops r" and "close_windows_with_watermark (ar_current_watermark r) r = Some (r', closes)"
  shows "loop_inv trunc G acc (ops @ closes) r'" and "ar_current_watermark r' = ar_current_watermark r"
proof -
  let ?mgr = "ar_window_manager r" and ?wm = "ar_current_watermark r - int (ar_allowed_lateness r)"
  obtain mgr' where cl: "close_windows ?wm ?mgr = (mgr', closes)" "r' = r\<lparr>ar_window_manager := mgr'\<rparr>"
    using assms(2) by (auto simp: close_windows_with_watermark_def checked_sub_def split: if_splits prod.splits)
  then show "ar_current_watermark r' = ar_current_watermark r" by simp
  have inv: "aligned_inv trunc ?mgr" "grid ?mgr = G" "collected_by (ar_current_watermark r) ?mgr"
    "set (active_windows ?mgr) \<subseteq> G" using assms(1) by (simp_all add: loop_inv_def)
  note law = close_law [OF inv(1) cl(1)]
  let ?out = "filter (\<lambda>w. win_end w \<le> ?wm) (active_windows ?mgr)"
  have "distinct (active_windows ?mgr)" using awm.ordered [OF inv(1)] bt_wf_distinct [of win_end] by blast
  then have "distinct ?out" by simp
  then have ops: "ops_of w closes = (if w \<in> set ?out then [close_message w] else [])" for w
    using law ops_of_closes by simp
  have act: "set (active_windows mgr') = set (active_windows ?mgr) - set ?out" using law by auto
  have early: "win_end w \<le> ar_current_watermark r" if "w \<in> set ?out" for w using that by auto
  have "life ([], False) (ops_of w (ops @ closes)) =
        Some (of_window w acc, of_window w acc \<noteq> [] \<and> w \<notin> set (active_windows mgr')) \<and>
      (w \<in> set (active_windows mgr') \<longrightarrow> of_window w acc \<noteq> []) \<and>
      (of_window w acc \<noteq> [] \<longrightarrow> w \<in> set (active_windows mgr') \<or> win_end w \<le> ar_current_watermark r)"
    if "w \<in> G" for w
  proof -
    have old: "life ([], False) (ops_of w ops) =
          Some (of_window w acc, of_window w acc \<noteq> [] \<and> w \<notin> set (active_windows ?mgr))"
      "w \<in> set (active_windows ?mgr) \<longrightarrow> of_window w acc \<noteq> []"
      "of_window w acc \<noteq> [] \<longrightarrow> w \<in> set (active_windows ?mgr) \<or> win_end w \<le> ar_current_watermark r"
      using assms(1) that by (simp_all add: loop_inv_def)
    show ?thesis
    proof (cases "w \<in> set ?out")
      case True
      then have "w \<in> set (active_windows ?mgr)" by simp
      with old True early [OF True] show ?thesis
        unfolding act ops_of_simps ops life_append by (simp add: close_message_def)
    next
      case False
      then have "ops_of w closes = []" unfolding ops by (rule if_not_P)
      moreover have "w \<in> set (active_windows mgr') \<longleftrightarrow> w \<in> set (active_windows ?mgr)"
        unfolding act using False by blast
      ultimately show ?thesis using old by (simp add: life_append)
    qed
  qed
  moreover have "\<forall>x \<in> set closes. operation_window (awm_operation x) \<in> G \<and>
      awm_pnf_slot x = window_to_pnf_slot (operation_window (awm_operation x))"
    using law inv(4) by (auto simp: close_message_def)
  moreover have "grid mgr' = G" "collected_by (ar_current_watermark r) mgr'"
    using close_keeps_grid [of ?wm ?mgr] cl(1) inv(2,3) by simp_all
  moreover have "set (active_windows mgr') \<subseteq> G" using act inv(4) by blast
  ultimately show "loop_inv trunc G acc (ops @ closes) r'"
    using assms(1) law cl(2) by (auto simp: loop_inv_def)
qed

lemma loop_inv_assign:
  assumes "loop_inv trunc G acc ops r" and "ar_current_watermark r \<le> msg_event_time msg"
    and "assign_windows trunc msg (ar_window_manager r) = Some (mgr', new)"
  shows "loop_inv trunc G (acc @ [msg]) (ops @ new) (r\<lparr>ar_window_manager := mgr'\<rparr>)"
proof -
  let ?mgr = "ar_window_manager r"
  have inv: "aligned_inv trunc ?mgr" "grid ?mgr = G" "collected_by (ar_current_watermark r) ?mgr"
    "set (active_windows ?mgr) \<subseteq> G" using assms(1) by (simp_all add: loop_inv_def)
  from assign_on_grid [OF inv(1,3) assms(2)] assms(3) inv(2) obtain ws where
    ws: "new = map (assign_message (active_windows ?mgr) msg) ws" "distinct ws"
      "set ws = {w \<in> G. holds w (msg_event_time msg)}"
      "set (active_windows mgr') = set (active_windows ?mgr) \<union> set ws"
      "grid mgr' = G" "collected_by (ar_current_watermark r) mgr'" by auto
  note new = ops_of_assigns [OF ws(2), of _ "active_windows ?mgr" msg, folded ws(1)]
  have "life ([], False) (ops_of w (ops @ new)) =
        Some (of_window w (acc @ [msg]), of_window w (acc @ [msg]) \<noteq> [] \<and> w \<notin> set (active_windows mgr')) \<and>
      (w \<in> set (active_windows mgr') \<longrightarrow> of_window w (acc @ [msg]) \<noteq> []) \<and>
      (of_window w (acc @ [msg]) \<noteq> [] \<longrightarrow> w \<in> set (active_windows mgr') \<or> win_end w \<le> ar_current_watermark r)"
    if w: "w \<in> G" for w
  proof -
    have old: "life ([], False) (ops_of w ops) =
          Some (of_window w acc, of_window w acc \<noteq> [] \<and> w \<notin> set (active_windows ?mgr))"
      "w \<in> set (active_windows ?mgr) \<longrightarrow> of_window w acc \<noteq> []"
      "of_window w acc \<noteq> [] \<longrightarrow> w \<in> set (active_windows ?mgr) \<or> win_end w \<le> ar_current_watermark r"
      using assms(1) w by (simp_all add: loop_inv_def)
    show ?thesis
    proof (cases "w \<in> set ws")
      case True
      then have holds: "holds w (msg_event_time msg)" using ws(3) by blast
      then have "of_window w (acc @ [msg]) = of_window w acc @ [msg]" by (simp add: of_window_def)
      moreover have active: "of_window w acc \<noteq> [] \<longleftrightarrow> w \<in> set (active_windows ?mgr)"
        using old(2,3) holds assms(2) by (auto simp: holds_def)
      moreover have "bt_contains win_end w (active_windows ?mgr) \<longleftrightarrow> w \<in> set (active_windows ?mgr)"
        using active_contains [OF inv(1)] w inv(2) by blast
      ultimately show ?thesis
        using True old(1) unfolding ws(4) ops_of_simps new life_append
        by (cases "w \<in> set (active_windows ?mgr)") (simp_all add: assign_message_def)
    next
      case False
      then have "of_window w (acc @ [msg]) = of_window w acc" using w ws(3) by (simp add: of_window_def)
      with False old show ?thesis unfolding ws(4) ops_of_simps new life_append by simp
    qed
  qed
  moreover have "\<forall>x \<in> set new. operation_window (awm_operation x) \<in> G \<and>
      awm_pnf_slot x = window_to_pnf_slot (operation_window (awm_operation x))"
    using ws(1,3) by (auto simp: assign_message_def)
  moreover have "aligned_inv trunc mgr'" using assign_law [OF inv(1) assms(3)] by blast
  moreover have "set (active_windows mgr') \<subseteq> G" using ws(3,4) inv(4) by blast
  ultimately show ?thesis
    using assms(1) ws(5,6) by (auto simp: loop_inv_def)
qed

lemma loop_inv_assign_and_close:
  assumes "loop_inv trunc G acc ops r" and "assign_and_close_windows trunc msg r = Some (r', new)"
  shows "loop_inv trunc G (acc @ (if in_time msg r then [msg] else [])) (ops @ new) r'"
proof -
  let ?r = "r\<lparr>ar_current_watermark := next_watermark msg r\<rparr>"
  have inv: "loop_inv trunc G acc ops ?r"
    using assms(1) by (rule loop_inv_watermark) (simp add: next_watermark_def)
  show ?thesis
  proof (cases "in_time msg r")
    case False
    then have "r' = ?r" "new = []"
      using assms(2) unfolding assign_and_close_windows_def Let_def in_time_def
      by (auto simp: checked_sub_def split: if_splits)
    with False inv show ?thesis by simp
  next
    case True
    then obtain r1 closes mgr opened where cl: "close_windows_with_watermark (next_watermark msg r) ?r = Some (r1, closes)"
      and asg: "assign_windows trunc msg (ar_window_manager r1) = Some (mgr, opened)"
      and res: "r' = r1\<lparr>ar_window_manager := mgr\<rparr>" "new = closes @ opened"
      using assms(2) unfolding assign_and_close_windows_def Let_def in_time_def
      by (auto simp: checked_sub_def bind_eq_Some_conv split: if_splits)
    have r1: "loop_inv trunc G acc (ops @ closes) r1" "ar_current_watermark r1 = next_watermark msg r"
      using loop_inv_close [OF inv, of r1 closes] cl by simp_all
    have "ar_current_watermark r1 \<le> msg_event_time msg" using True r1(2) by (simp add: in_time_def)
    from loop_inv_assign [OF r1(1) this asg] True res show ?thesis by simp
  qed
qed

lemma loop_inv_read:
  assumes "loop_inv trunc G acc ops r" and "read_message trunc msg r = Some (r', new)"
  shows "loop_inv trunc G (acc @ accepted_input msg r) (ops @ new) r'"
proof -
  consider (stopping) "ar_shutting_down_on_err r"
    | (idle) "\<not> ar_shutting_down_on_err r" "msg_typ msg = WMB_message"
    | (data) "\<not> ar_shutting_down_on_err r" "msg_typ msg \<noteq> WMB_message" by blast
  then show ?thesis
  proof cases
    case stopping
    with assms show ?thesis by (simp add: read_message_def accepted_input_def)
  next
    case idle
    then have none: "accepted_input msg r = []" by (simp add: accepted_input_def)
    show ?thesis
    proof (cases "msg_watermark msg")
      case (Some wm)
      show ?thesis
      proof (cases "wm > ar_current_watermark r")
        case True
        then have "loop_inv trunc G acc ops (r\<lparr>ar_current_watermark := wm\<rparr>)"
          using loop_inv_watermark [OF assms(1)] by simp
        from loop_inv_close(1) [OF this, of r' new] assms(2) idle Some True none
        show ?thesis by (simp add: read_message_def)
      qed (use assms idle Some none in \<open>simp add: read_message_def\<close>)
    qed (use assms idle none in \<open>simp add: read_message_def\<close>)
  next
    case data
    let ?msg = "if ar_keyed r then msg else msg\<lparr>msg_keys := [DEFAULT_KEY_FOR_NON_KEYED_STREAM]\<rparr>"
    have "assign_and_close_windows trunc ?msg r = Some (r', new)"
      using assms(2) data by (simp add: read_message_def)
    moreover have "in_time ?msg r \<longleftrightarrow> in_time msg r" by (simp add: in_time_def next_watermark_def)
    ultimately show ?thesis
      using loop_inv_assign_and_close [OF assms(1), of ?msg r' new] data
      by (cases "in_time msg r"; cases "ar_keyed r") (simp_all add: accepted_input_def)
  qed
qed

section \<open>The actor follows the life of each window\<close>

definition actor_inv :: "window set \<Rightarrow> aligned_window_message list \<Rightarrow> reduce_actor \<Rightarrow> bool" where
  "actor_inv G handled a \<longleftrightarrow> (\<forall>t \<in> set (ra_ended a). rt_window t \<in> G) \<and>
     (\<forall>w \<in> G. \<exists>M c. life ([], False) (ops_of w handled) = Some (M, c) \<and>
        hm_get (ra_active_streams a) (window_to_pnf_slot w) =
          (if M = [] \<or> c then None else Some \<lparr>rt_window = w, rt_received = M\<rparr>) \<and>
        filter (\<lambda>t. rt_window t = w) (ra_ended a) = (if c then [\<lparr>rt_window = w, rt_received = M\<rparr>] else []))"

lemma finish_task_ended [simp]:
  "ra_ended (fst (finish_task result t (a, mgr))) = ra_ended a @ [t]"
  "ra_active_streams (fst (finish_task result t (a, mgr))) = ra_active_streams a"
  by (simp_all add: finish_task_def Let_def split: option.split)

lemma finish_task_manager:
  "snd (finish_task result t (a, mgr)) = mgr \<or> snd (finish_task result t (a, mgr)) = gc_window (rt_window t) mgr"
  by (simp add: finish_task_def Let_def split: option.split)

lemma actor_inv_handle:
  assumes "actor_inv G handled a" and "handle_window_message result x (a, mgr) = (a', mgr')"
    and "operation_window (awm_operation x) = v" and "v \<in> G"
    and "awm_pnf_slot x = window_to_pnf_slot v"
    and "\<And>u w. u \<in> G \<Longrightarrow> w \<in> G \<Longrightarrow> window_to_pnf_slot u = window_to_pnf_slot w \<longleftrightarrow> u = w"
    and "life ([], False) (ops_of v (handled @ [x])) \<noteq> None"
  shows "actor_inv G (handled @ [x]) a'"
    and "mgr' = mgr \<or> mgr' = gc_window v mgr \<and> awm_operation x = Close v"
proof -
  obtain M c where old: "life ([], False) (ops_of v handled) = Some (M, c)"
    "hm_get (ra_active_streams a) (window_to_pnf_slot v) =
      (if M = [] \<or> c then None else Some \<lparr>rt_window = v, rt_received = M\<rparr>)"
    "filter (\<lambda>t. rt_window t = v) (ra_ended a) = (if c then [\<lparr>rt_window = v, rt_received = M\<rparr>] else [])"
    using assms(1,4) unfolding actor_inv_def by blast
  have step: "life_step (M, c) (awm_operation x) \<noteq> None"
    using assms(3,7) old(1) by (auto simp: life_append split: bind_splits)
  let ?slot = "window_to_pnf_slot v"
  have "(\<exists>t. ra_active_streams a' = hm_insert ?slot t (ra_active_streams a) \<or>
        ra_active_streams a' = hm_remove ?slot (ra_active_streams a)) \<and>
      (\<exists>ts. ra_ended a' = ra_ended a @ ts \<and> (\<forall>t \<in> set ts. rt_window t = v)) \<and>
      (\<exists>M' c'. life_step (M, c) (awm_operation x) = Some (M', c') \<and>
        hm_get (ra_active_streams a') ?slot = (if M' = [] \<or> c' then None else Some \<lparr>rt_window = v, rt_received = M'\<rparr>) \<and>
        filter (\<lambda>t. rt_window t = v) (ra_ended a') = (if c' then [\<lparr>rt_window = v, rt_received = M'\<rparr>] else [])) \<and>
      (mgr' = mgr \<or> mgr' = gc_window v mgr \<and> awm_operation x = Close v)"
  proof (cases "awm_operation x")
    case (Open msg w)
    then have "M = []" "\<not> c" "w = v" using step assms(3) by (auto split: if_splits)
    moreover have "a' = window_open msg v ?slot a" "mgr' = mgr"
      using assms(2,3,5) Open by (auto simp: handle_window_message_def)
    ultimately show ?thesis using Open old by (auto simp: window_open_def)
  next
    case (Append msg w)
    then have "M \<noteq> []" "\<not> c" "w = v" using step assms(3) by (auto split: if_splits)
    moreover have "a' = window_append msg v ?slot a" "mgr' = mgr"
      using assms(2,3,5) Append by (auto simp: handle_window_message_def)
    ultimately show ?thesis using Append old by (auto simp: window_append_def)
  next
    case (Close w)
    then have c: "M \<noteq> []" "\<not> c" "w = v" using step assms(3) by (auto split: if_splits)
    let ?t = "\<lparr>rt_window = v, rt_received = M\<rparr>"
    let ?a = "a\<lparr>ra_active_streams := hm_remove ?slot (ra_active_streams a)\<rparr>"
    have "(a', mgr') = finish_task result ?t (?a, mgr)"
      using assms(2,5) Close c old(2) by (simp add: handle_window_message_def window_close_def)
    then have "a' = fst (finish_task result ?t (?a, mgr))" "mgr' = snd (finish_task result ?t (?a, mgr))"
      by (metis fst_conv, metis snd_conv)
    with finish_task_manager [of result ?t ?a mgr] Close c old show ?thesis by auto
  qed
  then have streams: "\<And>s. s \<noteq> ?slot \<Longrightarrow> hm_get (ra_active_streams a') s = hm_get (ra_active_streams a) s"
    and ended: "\<exists>ts. ra_ended a' = ra_ended a @ ts \<and> (\<forall>t \<in> set ts. rt_window t = v)"
    and new: "\<exists>M' c'. life_step (M, c) (awm_operation x) = Some (M', c') \<and>
        hm_get (ra_active_streams a') ?slot = (if M' = [] \<or> c' then None else Some \<lparr>rt_window = v, rt_received = M'\<rparr>) \<and>
        filter (\<lambda>t. rt_window t = v) (ra_ended a') = (if c' then [\<lparr>rt_window = v, rt_received = M'\<rparr>] else [])"
    and "mgr' = mgr \<or> mgr' = gc_window v mgr \<and> awm_operation x = Close v" by auto
  then show "mgr' = mgr \<or> mgr' = gc_window v mgr \<and> awm_operation x = Close v" by blast
  obtain ts where ts: "ra_ended a' = ra_ended a @ ts" "\<forall>t \<in> set ts. rt_window t = v" using ended by blast
  show "actor_inv G (handled @ [x]) a'"
    unfolding actor_inv_def
  proof (intro conjI ballI)
    fix t assume "t \<in> set (ra_ended a')"
    with ts assms(1,4) show "rt_window t \<in> G" by (auto simp: actor_inv_def)
  next
    fix w assume w: "w \<in> G"
    show "\<exists>M c. life ([], False) (ops_of w (handled @ [x])) = Some (M, c) \<and>
        hm_get (ra_active_streams a') (window_to_pnf_slot w) =
          (if M = [] \<or> c then None else Some \<lparr>rt_window = w, rt_received = M\<rparr>) \<and>
        filter (\<lambda>t. rt_window t = w) (ra_ended a') = (if c then [\<lparr>rt_window = w, rt_received = M\<rparr>] else [])"
    proof (cases "w = v")
      case True
      from new obtain M' c' where n: "life_step (M, c) (awm_operation x) = Some (M', c')"
        "hm_get (ra_active_streams a') ?slot = (if M' = [] \<or> c' then None else Some \<lparr>rt_window = v, rt_received = M'\<rparr>)"
        "filter (\<lambda>t. rt_window t = v) (ra_ended a') = (if c' then [\<lparr>rt_window = v, rt_received = M'\<rparr>] else [])" by blast
      have "life ([], False) (ops_of v (handled @ [x])) = Some (M', c')"
        using assms(3) old(1) n(1) by (simp add: life_append)
      with n True show ?thesis by blast
    next
      case False
      then have "ops_of w (handled @ [x]) = ops_of w handled" using assms(3) by simp
      moreover have "filter (\<lambda>t. rt_window t = w) (ra_ended a') = filter (\<lambda>t. rt_window t = w) (ra_ended a)"
        using ts False by (auto simp: filter_empty_conv)
      moreover have "hm_get (ra_active_streams a') (window_to_pnf_slot w) =
          hm_get (ra_active_streams a) (window_to_pnf_slot w)"
        using streams assms(6) [OF w assms(4)] False by blast
      ultimately show ?thesis using assms(1) w by (simp add: actor_inv_def)
    qed
  qed
qed

section \<open>Runs keep both invariants\<close>

definition system_inv ::
    "(datetime \<Rightarrow> int \<Rightarrow> datetime option) \<Rightarrow> window set \<Rightarrow> message list \<Rightarrow> aligned_window_message list \<Rightarrow>
     'e reduce_system \<Rightarrow> bool" where
  "system_inv trunc G acc handled s \<longleftrightarrow>
     loop_inv trunc G acc (handled @ rs_channel s) (rs_reducer s) \<and> actor_inv G handled (rs_actor s)"

lemma loop_inv_gc:
  assumes "loop_inv trunc G acc ops r" and "win_end v \<le> ar_current_watermark r"
  shows "loop_inv trunc G acc ops (r\<lparr>ar_window_manager := gc_window v (ar_window_manager r)\<rparr>)"
  using assms gc_law [of trunc "ar_window_manager r" v] gc_collected_by gc_keeps_grid
  by (auto simp: loop_inv_def)

lemma system_inv_handle:
  assumes "system_inv trunc G acc handled s" and "rs_channel s = m # rest"
    and "handle_window_message result m (rs_actor s, ar_window_manager (rs_reducer s)) = (a', mgr')"
  shows "system_inv trunc G acc (handled @ [m])
    (s\<lparr>rs_reducer := (rs_reducer s)\<lparr>ar_window_manager := mgr'\<rparr>, rs_channel := rest, rs_actor := a'\<rparr>)"
proof -
  let ?v = "operation_window (awm_operation m)" and ?r = "rs_reducer s"
  have loop: "loop_inv trunc G acc (handled @ m # rest) ?r" and act: "actor_inv G handled (rs_actor s)"
    using assms(1,2) by (simp_all add: system_inv_def)
  have v: "?v \<in> G" "awm_pnf_slot m = window_to_pnf_slot ?v" and grid: "grid (ar_window_manager ?r) = G"
    using loop by (auto simp: loop_inv_def)
  have inj: "\<And>u w. u \<in> G \<Longrightarrow> w \<in> G \<Longrightarrow> window_to_pnf_slot u = window_to_pnf_slot w \<longleftrightarrow> u = w"
    using slot_inject grid by metis
  have life: "life ([], False) (ops_of ?v (handled @ m # rest)) =
      Some (of_window ?v acc, of_window ?v acc \<noteq> [] \<and> ?v \<notin> set (active_windows (ar_window_manager ?r)))"
    using loop v(1) unfolding loop_inv_def by blast
  then have prefix: "life ([], False) (ops_of ?v (handled @ [m])) \<noteq> None"
    by (auto simp: life_append split: bind_splits)
  note step = actor_inv_handle [OF act assms(3) refl v inj prefix]
  have "loop_inv trunc G acc (handled @ m # rest) (?r\<lparr>ar_window_manager := mgr'\<rparr>)"
    using step(2)
  proof
    assume "mgr' = gc_window ?v (ar_window_manager ?r) \<and> awm_operation m = Close ?v"
    then have gc: "mgr' = gc_window ?v (ar_window_manager ?r)" and "\<exists>w. awm_operation m = Close w" by blast+
    then obtain w where close: "awm_operation m = Close w" by blast
    obtain M c where old: "life ([], False) (ops_of ?v handled) = Some (M, c)"
      using prefix by (auto simp: life_append split: bind_splits)
    have "life_step (M, c) (awm_operation m) \<noteq> None"
      using prefix old by (auto simp: life_append split: bind_splits)
    then have "life_step (M, c) (awm_operation m) = Some (M, True)" unfolding close by (simp split: if_splits)
    with life old have "life (M, True) (ops_of ?v rest) =
        Some (of_window ?v acc, of_window ?v acc \<noteq> [] \<and> ?v \<notin> set (active_windows (ar_window_manager ?r)))"
      by (simp add: life_append)
    with life_closed [OF this] have "of_window ?v acc \<noteq> []" "?v \<notin> set (active_windows (ar_window_manager ?r))" by auto
    then have "win_end ?v \<le> ar_current_watermark ?r" using loop v(1) unfolding loop_inv_def by blast
    with loop_inv_gc [OF loop] gc show ?thesis by simp
  next
    assume "mgr' = ar_window_manager ?r"
    then have "?r\<lparr>ar_window_manager := mgr'\<rparr> = ?r" by simp
    with loop show ?thesis by simp
  qed
  with step(1) show ?thesis by (simp add: system_inv_def)
qed

lemma handle_error_keeps:
  assumes "handle_error e r = (r', c)"
  shows "ar_window_manager r' = ar_window_manager r" and "ar_current_watermark r' = ar_current_watermark r"
  using assms by (auto simp: handle_error_def split: sum.splits unit.splits)

lemma reduce_run_inv:
  assumes "reduce_run trunc s0 acc handled s" and "system_inv trunc G [] [] s0"
  shows "system_inv trunc G acc handled s"
  using assms
proof (induction rule: reduce_run.induct)
  case (reduce_read acc handled s msg r' ops)
  then show ?case using loop_inv_read [of trunc G acc "handled @ rs_channel s" "rs_reducer s" msg r' ops]
    by (simp add: system_inv_def)
next
  case (reduce_error acc handled s e r' c)
  note same = handle_error_keeps [OF reduce_error.hyps(2)]
  have "loop_inv trunc G acc (handled @ rs_channel s) (rs_reducer s) \<longleftrightarrow>
      loop_inv trunc G acc (handled @ rs_channel s) r'" unfolding loop_inv_def same ..
  with reduce_error show ?case by (simp add: system_inv_def)
next
  case (reduce_handle acc handled s m rest result a' mgr')
  then show ?case by (intro system_inv_handle) simp_all
qed

lemma reduce_system_new_inv:
  assumes "aligned_inv trunc mgr" and "active_windows mgr = []" and "collected_by (from_timestamp_millis (-1)) mgr"
  shows "system_inv trunc (grid mgr) [] [] (reduce_system_new mgr lateness keyed gc_wal)"
  using assms
  by (simp add: system_inv_def loop_inv_def actor_inv_def reduce_system_new_def aligned_reducer_new_def
    reduce_actor_new_def of_window_def exI [of _ False])

section \<open>A run of one window\<close>

definition example_input :: message where
  "example_input = message_default 61000000000"

definition example_idle :: message where
  "example_idle = (message_default 0)\<lparr>msg_typ := WMB_message, msg_watermark := Some 120000000000\<rparr>"

definition example_window :: window where
  "example_window = window_at 60000 60000"

definition example_system :: "unit reduce_system" where
  "example_system = reduce_system_new (Fixed example_fixed) 0 True False"

definition example_reading :: "unit aligned_reducer" where
  "example_reading = aligned_reducer_new (Fixed (example_fixed\<lparr>fw_active_windows := [example_window]\<rparr>)) 0 True"

definition example_closing :: "unit aligned_reducer" where
  "example_closing = example_reading\<lparr>ar_window_manager := Fixed (example_fixed\<lparr>fw_closed_windows := [example_window]\<rparr>),
     ar_current_watermark := 120000000000\<rparr>"

definition example_ended :: "unit reduce_system" where
  "example_ended = \<lparr>rs_reducer = example_closing\<lparr>ar_window_manager := Fixed example_fixed\<rparr>, rs_channel = [],
     rs_actor = (reduce_actor_new False)\<lparr>ra_ended := [\<lparr>rt_window = example_window, rt_received = [example_input]\<rparr>]\<rparr>\<rparr>"

lemma example_read:
  "read_message example_trunc example_input (rs_reducer example_system) =
     Some (example_reading, [assign_message [] example_input example_window])"
  "read_message example_trunc example_idle example_reading = Some (example_closing, [close_message example_window])"
proof -
  have "create_window example_trunc example_input example_fixed = Some example_window"
    by (simp add: create_window_def example_fixed_def fixed_new_def example_durations message_default_def
      truncate_floor [OF example_trunc] timestamp_millis_def window_at_def example_input_def example_window_def)
  then show "read_message example_trunc example_input (rs_reducer example_system) =
      Some (example_reading, [assign_message [] example_input example_window])"
    by (simp add: read_message_def assign_and_close_windows_def next_watermark_def close_windows_with_watermark_def
      checked_sub_def aligned_reducer_new_def representable_def example_input_def message_default_def Let_def
      from_timestamp_millis_def close_windows_def fixed_close_windows_def bt_extract_def example_fixed_def
      fixed_new_def assign_windows_def fixed_assign_windows_def example_reading_def assign_message_def
      example_system_def reduce_system_new_def)
  show "read_message example_trunc example_idle example_reading = Some (example_closing, [close_message example_window])"
    by (simp add: read_message_def close_windows_with_watermark_def example_closing_def example_window_def
      checked_sub_def aligned_reducer_new_def representable_def example_idle_def message_default_def
      from_timestamp_millis_def close_windows_def fixed_close_windows_def bt_extract_def example_fixed_def
      fixed_new_def example_reading_def window_at_def window_new_def close_message_def)
qed

lemma example_reduce_run:
  "reduce_run example_trunc example_system [example_input]
     [assign_message [] example_input example_window, close_message example_window] example_ended"
proof -
  let ?open = "assign_message [] example_input example_window" and ?close = "close_message example_window"
  let ?a0 = "rs_actor example_system"
  let ?a1 = "?a0\<lparr>ra_active_streams := [(window_to_pnf_slot example_window,
      \<lparr>rt_window = example_window, rt_received = [example_input]\<rparr>)]\<rparr>"
  have "accepted_input example_input (rs_reducer example_system) = [example_input]"
    by (simp add: accepted_input_def in_time_def next_watermark_def example_input_def message_default_def
      example_system_def reduce_system_new_def aligned_reducer_new_def from_timestamp_millis_def)
  with reduce_read [OF reduce_start example_read(1), simplified]
  have 1: "reduce_run example_trunc example_system [example_input] []
      (example_system\<lparr>rs_reducer := example_reading, rs_channel := [?open]\<rparr>)"
    by (simp add: example_system_def reduce_system_new_def)
  have "accepted_input example_idle example_reading = []" by (simp add: accepted_input_def example_idle_def)
  with reduce_read [OF 1, of example_idle example_closing "[?close]"] example_read(2)
  have 2: "reduce_run example_trunc example_system [example_input] []
      (example_system\<lparr>rs_reducer := example_closing, rs_channel := [?open, ?close]\<rparr>)" by simp
  have "handle_window_message Task_written ?open (?a0, m) = (?a1, m)" for m
    by (simp add: handle_window_message_def assign_message_def window_open_def example_system_def
      reduce_system_new_def reduce_actor_new_def)
  with reduce_handle [OF 2, of ?open "[?close]" Task_written ?a1 "ar_window_manager example_closing"]
  have 3: "reduce_run example_trunc example_system [example_input] [?open]
      (example_system\<lparr>rs_reducer := example_closing, rs_channel := [?close], rs_actor := ?a1\<rparr>)"
    by (simp add: example_closing_def example_reading_def aligned_reducer_new_def)
  have "handle_window_message Task_written ?close (?a1, ar_window_manager example_closing) =
      (rs_actor example_ended, Fixed example_fixed)"
    by (simp add: handle_window_message_def close_message_def window_close_def example_closing_def example_ended_def
      finish_task_def oldest_window_def fixed_oldest_window_def example_system_def reduce_system_new_def
      reduce_actor_new_def gc_window_def fixed_gc_window_def example_fixed_def fixed_new_def
      closed_windows_def active_windows_def bt_first_def bt_remove_def Let_def)
  with reduce_handle [OF 3, of ?close "[]" Task_written "rs_actor example_ended" "Fixed example_fixed"] show ?thesis
    by (simp add: example_ended_def example_system_def reduce_system_new_def)
qed

section \<open>Properties\<close>

lemma distinct_if_unique_filter:
  assumes "\<forall>t \<in> set ts. filter (\<lambda>u. f u = f t) ts = [t]"
  shows "distinct (map f ts)"
proof -
  have "distinct (map f us)" if "\<forall>t \<in> set us. length (filter (\<lambda>u. f u = f t) us) \<le> 1" for us
    using that
  proof (induction us)
    case (Cons u us)
    have "f u \<notin> f ` set us" using Cons.prems by (fastforce simp: filter_empty_conv)
    moreover have "\<forall>t \<in> set us. length (filter (\<lambda>v. f v = f t) us) \<le> 1"
      using Cons.prems by (fastforce split: if_splits)
    ultimately show ?case using Cons.IH by simp
  qed simp
  with assms show ?thesis by simp
qed

lemma ended_exact:
  assumes "system_inv trunc G acc handled s" and "t \<in> set (ra_ended (rs_actor s))"
  shows "rt_received t = of_window (rt_window t) acc"
    and "filter (\<lambda>u. rt_window u = rt_window t) (ra_ended (rs_actor s)) = [t]"
proof -
  let ?w = "rt_window t"
  have loop: "loop_inv trunc G acc (handled @ rs_channel s) (rs_reducer s)" and act: "actor_inv G handled (rs_actor s)"
    using assms(1) by (simp_all add: system_inv_def)
  have w: "?w \<in> G" using act assms(2) by (auto simp: actor_inv_def)
  from act w obtain M c where M: "life ([], False) (ops_of ?w handled) = Some (M, c)"
    "filter (\<lambda>u. rt_window u = ?w) (ra_ended (rs_actor s)) = (if c then [\<lparr>rt_window = ?w, rt_received = M\<rparr>] else [])"
    unfolding actor_inv_def by blast
  have "t \<in> set (filter (\<lambda>u. rt_window u = ?w) (ra_ended (rs_actor s)))" using assms(2) by simp
  with M(2) have c: "c" "t = \<lparr>rt_window = ?w, rt_received = M\<rparr>" by (auto split: if_splits)
  then show "filter (\<lambda>u. rt_window u = ?w) (ra_ended (rs_actor s)) = [t]" using M(2) by simp
  have "life ([], False) (ops_of ?w (handled @ rs_channel s)) =
      Some (of_window ?w acc, of_window ?w acc \<noteq> [] \<and> ?w \<notin> set (active_windows (ar_window_manager (rs_reducer s))))"
    using loop w unfolding loop_inv_def by blast
  then have after: "life (M, True) (ops_of ?w (rs_channel s)) =
      Some (of_window ?w acc, of_window ?w acc \<noteq> [] \<and> ?w \<notin> set (active_windows (ar_window_manager (rs_reducer s))))"
    using M(1) c(1) by (simp add: life_append)
  from life_closed [OF after] after have "M = of_window ?w acc" by simp
  then show "rt_received t = of_window ?w acc" using c(2) by (metis reduce_task.select_convs(2))
qed

lemma drained_exact:
  assumes "system_inv trunc G acc handled s" and "rs_channel s = []" and "w \<in> G" and "of_window w acc \<noteq> []"
  shows "if w \<in> set (active_windows (ar_window_manager (rs_reducer s)))
    then hm_get (ra_active_streams (rs_actor s)) (window_to_pnf_slot w) = Some \<lparr>rt_window = w, rt_received = of_window w acc\<rparr>
    else \<lparr>rt_window = w, rt_received = of_window w acc\<rparr> \<in> set (ra_ended (rs_actor s))"
proof -
  have loop: "loop_inv trunc G acc handled (rs_reducer s)" and act: "actor_inv G handled (rs_actor s)"
    using assms(1,2) by (simp_all add: system_inv_def)
  have life: "life ([], False) (ops_of w handled) =
      Some (of_window w acc, of_window w acc \<noteq> [] \<and> w \<notin> set (active_windows (ar_window_manager (rs_reducer s))))"
    using loop assms(3) unfolding loop_inv_def by blast
  from act assms(3) obtain M c where M: "life ([], False) (ops_of w handled) = Some (M, c)"
    "hm_get (ra_active_streams (rs_actor s)) (window_to_pnf_slot w) =
      (if M = [] \<or> c then None else Some \<lparr>rt_window = w, rt_received = M\<rparr>)"
    "filter (\<lambda>t. rt_window t = w) (ra_ended (rs_actor s)) = (if c then [\<lparr>rt_window = w, rt_received = M\<rparr>] else [])"
    unfolding actor_inv_def by blast
  then have Mc: "M = of_window w acc" "c \<longleftrightarrow> w \<notin> set (active_windows (ar_window_manager (rs_reducer s)))"
    using life assms(4) by auto
  show ?thesis
  proof (cases "w \<in> set (active_windows (ar_window_manager (rs_reducer s)))")
    case True
    with M(2) Mc assms(4) show ?thesis by simp
  next
    case False
    then have "\<lparr>rt_window = w, rt_received = of_window w acc\<rparr> \<in> set (filter (\<lambda>t. rt_window t = w) (ra_ended (rs_actor s)))"
      using M(3) Mc by simp
    with False show ?thesis by simp
  qed
qed





text \<open>
  A message behind the current watermark is dropped whatever the allowed lateness, although the
  lateness is meant to admit it.
\<close>

lemma late_message_dropped:
  assumes "msg_typ msg \<noteq> WMB_message" and "msg_event_time msg < ar_current_watermark r"
    and "read_message trunc msg r = Some (r', ops)"
  shows "ops = [] \<and> ar_window_manager r' = ar_window_manager r"
proof -
  have "msg_event_time msg < next_watermark msg r" using assms(2) by (simp add: next_watermark_def)
  then show ?thesis using assms(1,3)
    by (auto simp: read_message_def assign_and_close_windows_def Let_def next_watermark_def checked_sub_def
      split: if_splits)
qed

end
