(* ===== verification/Floats.thy ===== *)
theory Floats
  imports Complex_Main
begin

text \<open>
  The floating-point arithmetic of the language, as far as the sources use it: \<^verbatim>\<open>f32\<close> and \<^verbatim>\<open>f64\<close>
  with IEEE rounding to nearest, ties to even, overflow to infinity, subnormal numbers, and the
  saturating casts to integers. Finite values are rationals; the sign of a zero is not kept, which
  only a division by a negative zero could tell, and no divisor in the sources is one.
\<close>

section \<open>Formats and rounding\<close>

datatype fp = NaN | PInf | NInf | Fin rat

record fp_format =
  fp_prec :: nat
  fp_emin :: int
  fp_emax :: int

definition f32 :: fp_format where
  "f32 = \<lparr>fp_prec = 24, fp_emin = -149, fp_emax = 128\<rparr>"

definition f64 :: fp_format where
  "f64 = \<lparr>fp_prec = 53, fp_emin = -1074, fp_emax = 1024\<rparr>"

definition pow2 :: "int \<Rightarrow> rat" where
  "pow2 k = (if 0 \<le> k then 2 ^ nat k else 1 / 2 ^ nat (- k))"

fun log2 :: "nat \<Rightarrow> nat" where
  "log2 n = (if n < 2 then 0 else Suc (log2 (n div 2)))"

declare log2.simps [simp del]

definition floor_log2 :: "rat \<Rightarrow> int" where
  "floor_log2 x =
     (let (a, b) = quotient_of x; k = int (log2 (nat a)) - int (log2 (nat b))
      in if pow2 k \<le> x then k else k - 1)"

definition round_even :: "rat \<Rightarrow> int" where
  "round_even x =
     (let d = x - of_int \<lfloor>x\<rfloor>
      in if d < 1 / 2 \<or> d = 1 / 2 \<and> even \<lfloor>x\<rfloor> then \<lfloor>x\<rfloor> else \<lfloor>x\<rfloor> + 1)"

definition quantum :: "fp_format \<Rightarrow> rat \<Rightarrow> rat" where
  "quantum f x = pow2 (max (floor_log2 \<bar>x\<bar> - int (fp_prec f - 1)) (fp_emin f))"

definition rnd :: "fp_format \<Rightarrow> rat \<Rightarrow> fp" where
  "rnd f x =
     (if x = 0 then Fin 0
      else let r = of_int (round_even (x / quantum f x)) * quantum f x
           in if \<bar>r\<bar> < pow2 (fp_emax f) then Fin r else if 0 < x then PInf else NInf)"

section \<open>Operations\<close>

definition fp_of_nat :: "fp_format \<Rightarrow> nat \<Rightarrow> fp" where
  "fp_of_nat f n = rnd f (of_nat n)"

fun fp_neg :: "fp \<Rightarrow> fp" where
  "fp_neg NaN = NaN" | "fp_neg PInf = NInf" | "fp_neg NInf = PInf" | "fp_neg (Fin a) = Fin (- a)"

fun fp_add :: "fp_format \<Rightarrow> fp \<Rightarrow> fp \<Rightarrow> fp" where
  "fp_add f (Fin a) (Fin b) = rnd f (a + b)"
| "fp_add f NaN _ = NaN" | "fp_add f _ NaN = NaN"
| "fp_add f PInf NInf = NaN" | "fp_add f NInf PInf = NaN"
| "fp_add f PInf _ = PInf" | "fp_add f NInf _ = NInf"
| "fp_add f _ PInf = PInf" | "fp_add f _ NInf = NInf"

definition fp_sub :: "fp_format \<Rightarrow> fp \<Rightarrow> fp \<Rightarrow> fp" where
  "fp_sub f a b = fp_add f a (fp_neg b)"

definition fp_sgn :: "fp \<Rightarrow> rat" where
  "fp_sgn a = (case a of NaN \<Rightarrow> 0 | PInf \<Rightarrow> 1 | NInf \<Rightarrow> -1 | Fin x \<Rightarrow> sgn x)"

definition fp_inf :: "rat \<Rightarrow> fp" where
  "fp_inf s = (if s = 0 then NaN else if 0 < s then PInf else NInf)"

definition fp_mul :: "fp_format \<Rightarrow> fp \<Rightarrow> fp \<Rightarrow> fp" where
  "fp_mul f a b =
     (case (a, b) of
        (Fin x, Fin y) \<Rightarrow> rnd f (x * y)
      | (NaN, _) \<Rightarrow> NaN
      | (_, NaN) \<Rightarrow> NaN
      | _ \<Rightarrow> fp_inf (fp_sgn a * fp_sgn b))"

definition fp_div :: "fp_format \<Rightarrow> fp \<Rightarrow> fp \<Rightarrow> fp" where
  "fp_div f a b =
     (case (a, b) of
        (Fin x, Fin y) \<Rightarrow> if y = 0 then fp_inf (sgn x) else rnd f (x / y)
      | (NaN, _) \<Rightarrow> NaN
      | (_, NaN) \<Rightarrow> NaN
      | (Fin _, _) \<Rightarrow> Fin 0
      | (_, Fin y) \<Rightarrow> fp_inf (fp_sgn a * (if y < 0 then -1 else 1))
      | _ \<Rightarrow> NaN)"

fun fp_le :: "fp \<Rightarrow> fp \<Rightarrow> bool" where
  "fp_le (Fin a) (Fin b) \<longleftrightarrow> a \<le> b"
| "fp_le NaN _ \<longleftrightarrow> False" | "fp_le _ NaN \<longleftrightarrow> False"
| "fp_le NInf _ \<longleftrightarrow> True" | "fp_le _ PInf \<longleftrightarrow> True"
| "fp_le _ _ \<longleftrightarrow> False"

definition fp_less :: "fp \<Rightarrow> fp \<Rightarrow> bool" where
  "fp_less a b \<longleftrightarrow> fp_le a b \<and> \<not> fp_le b a"

text \<open>\<^verbatim>\<open>min\<close> and \<^verbatim>\<open>max\<close> ignore a value that is not a number.\<close>

definition fp_min :: "fp \<Rightarrow> fp \<Rightarrow> fp" where
  "fp_min a b = (if a = NaN then b else if b = NaN then a else if fp_le a b then a else b)"

definition fp_max :: "fp \<Rightarrow> fp \<Rightarrow> fp" where
  "fp_max a b = (if a = NaN then b else if b = NaN then a else if fp_le a b then b else a)"

text \<open>\<^verbatim>\<open>round\<close> rounds halves away from zero; the result is an integer the format holds.\<close>

definition fp_round :: "fp \<Rightarrow> fp" where
  "fp_round a = (case a of Fin x \<Rightarrow> Fin (of_int (if 0 \<le> x then \<lfloor>x + 1 / 2\<rfloor> else \<lceil>x - 1 / 2\<rceil>)) | _ \<Rightarrow> a)"

definition usize_MAX :: nat where
  "usize_MAX = 2 ^ 64 - 1"

definition fp_to_usize :: "fp \<Rightarrow> nat" where
  "fp_to_usize a =
     (case a of NaN \<Rightarrow> 0 | NInf \<Rightarrow> 0 | PInf \<Rightarrow> usize_MAX | Fin x \<Rightarrow> min (nat \<lfloor>x\<rfloor>) usize_MAX)"

section \<open>Rounding keeps small integers apart\<close>

lemma pow2_pos [simp]: "0 < pow2 k"
  by (simp add: pow2_def)

lemma pow2_powi: "pow2 k = 2 powi k"
  by (simp add: pow2_def power_int_def power_divide)

lemma pow2_add: "pow2 (j + k) = pow2 j * pow2 k"
  by (simp add: pow2_powi power_int_add)

lemma pow2_mono: "j \<le> k \<Longrightarrow> pow2 j \<le> pow2 k"
  by (simp add: pow2_powi power_int_increasing)

lemma pow2_less_iff: "pow2 j < pow2 k \<longleftrightarrow> j < k"
proof
  show "j < k \<Longrightarrow> pow2 j < pow2 k" by (simp add: pow2_powi power_int_strict_increasing)
  show "pow2 j < pow2 k \<Longrightarrow> j < k" using pow2_mono [of k j] by linarith
qed

lemma pow2_nat: "pow2 (int n) = 2 ^ n"
  by (simp add: pow2_def)

lemma pow2_diff: "pow2 (j - k) = pow2 j / pow2 k"
  by (simp add: pow2_powi power_int_diff)

lemma log2_bounds: "0 < n \<Longrightarrow> 2 ^ log2 n \<le> n \<and> n < 2 ^ Suc (log2 n)"
proof (induction n rule: log2.induct)
  case (1 n)
  show ?case
  proof (cases "n < 2")
    case True
    with 1 show ?thesis by (simp add: log2.simps)
  next
    case False
    then have "2 ^ log2 (n div 2) \<le> n div 2" "n div 2 < 2 ^ Suc (log2 (n div 2))" using 1 by simp_all
    moreover have "log2 n = Suc (log2 (n div 2))" using False by (subst log2.simps) simp
    ultimately show ?thesis by (simp only: power_Suc) linarith
  qed
qed

lemma floor_log2_bounds:
  assumes "0 < x"
  shows "pow2 (floor_log2 x) \<le> x" and "x < pow2 (floor_log2 x + 1)"
proof -
  obtain a b where q: "quotient_of x = (a, b)" by fastforce
  have x: "x = of_int a / of_int b" and b: "0 < b" using quotient_of_div [OF q] quotient_of_denom_pos [OF q] by simp_all
  then have a: "0 < a" using assms by (simp add: zero_less_divide_iff)
  let ?i = "log2 (nat a)" and ?j = "log2 (nat b)"
  have "2 ^ ?i \<le> nat a" "nat a < 2 ^ Suc ?i" "2 ^ ?j \<le> nat b" "nat b < 2 ^ Suc ?j"
    using log2_bounds [of "nat a"] log2_bounds [of "nat b"] a b by auto
  then have ints: "2 ^ ?i \<le> a" "a < 2 ^ Suc ?i" "2 ^ ?j \<le> b" "b < 2 ^ Suc ?j"
    using a b by (simp_all add: nat_less_iff le_nat_iff)
  have "rat_of_int (2 ^ ?i) \<le> of_int a" "rat_of_int a < of_int (2 ^ Suc ?i)"
    "rat_of_int (2 ^ ?j) \<le> of_int b" "rat_of_int b < of_int (2 ^ Suc ?j)"
    using ints by (simp_all only: of_int_le_iff of_int_less_iff)
  then have ab: "pow2 (int ?i) \<le> of_int a" "of_int a < pow2 (int ?i + 1)"
    "pow2 (int ?j) \<le> of_int b" "of_int b < pow2 (int ?j + 1)"
    by (simp_all add: pow2_nat pow2_add) (simp_all add: pow2_def)
  have "x < pow2 (int ?i + 1) / pow2 (int ?j)"
    unfolding x using ab a b by (intro frac_less) auto
  then have up: "x < pow2 (int ?i - int ?j + 1)" by (simp add: pow2_diff [symmetric] algebra_simps)
  have "pow2 (int ?i) / pow2 (int ?j + 1) \<le> x"
    unfolding x using ab a b by (intro frac_le) auto
  then have lo: "pow2 (int ?i - int ?j - 1) \<le> x" by (simp add: pow2_diff [symmetric] algebra_simps)
  show "pow2 (floor_log2 x) \<le> x" "x < pow2 (floor_log2 x + 1)"
    using up lo by (simp_all add: floor_log2_def q Let_def not_le)
qed

lemma floor_log2_less:
  assumes "0 < x" and "x < pow2 k"
  shows "floor_log2 x < k"
  using floor_log2_bounds(1) [OF assms(1)] assms(2) pow2_less_iff [of "floor_log2 x" k] by linarith

lemma round_even_ge:
  assumes "of_int n \<le> x"
  shows "n \<le> round_even x"
proof -
  have "n \<le> \<lfloor>x\<rfloor>" using assms by (simp add: le_floor_iff)
  then show ?thesis by (simp add: round_even_def Let_def)
qed

lemma round_even_le:
  assumes "x \<le> of_int n"
  shows "round_even x \<le> n"
proof (cases "x = of_int n")
  case True
  then show ?thesis by (simp add: round_even_def)
next
  case False
  with assms have "\<lfloor>x\<rfloor> < n" by (simp add: floor_less_iff)
  then show ?thesis by (simp add: round_even_def Let_def)
qed

text \<open>The quantum of a value below \<open>2 ^ p\<close> divides one.\<close>

lemma quantum_small:
  assumes "0 < x" and "x < pow2 (int (fp_prec f))" and "0 < fp_prec f" and "fp_emin f \<le> 0"
  obtains k :: nat where "quantum f x = 1 / 2 ^ k"
proof -
  let ?e = "max (floor_log2 \<bar>x\<bar> - int (fp_prec f - 1)) (fp_emin f)"
  have "floor_log2 x < int (fp_prec f)" using floor_log2_less [OF assms(1,2)] .
  then have "?e \<le> 0" using assms by (simp add: of_nat_diff)
  then have "pow2 ?e = 1 / 2 ^ nat (- ?e)" by (cases "?e = 0") (simp_all add: pow2_def)
  with that [of "nat (- ?e)"] show ?thesis by (simp add: quantum_def)
qed

lemma quantum_pos [simp]: "0 < quantum f x"
  by (simp add: quantum_def)

abbreviation rounded :: "fp_format \<Rightarrow> rat \<Rightarrow> rat" where
  "rounded f x \<equiv> of_int (round_even (x / quantum f x)) * quantum f x"

definition good_format :: "fp_format \<Rightarrow> bool" where
  "good_format f \<longleftrightarrow> 0 < fp_prec f \<and> fp_emin f \<le> 0 \<and> int (fp_prec f) < fp_emax f"

lemma good_formats [simp]: "good_format f32" "good_format f64"
  by (simp_all add: good_format_def f32_def f64_def)

lemma rounded_ge:
  assumes "good_format f" and "n \<le> 2 ^ fp_prec f" and "of_nat n \<le> x" and "0 < x"
  shows "of_nat n \<le> rounded f x"
proof (cases "x < pow2 (int (fp_prec f))")
  case True
  with assms obtain k where k: "quantum f x = 1 / 2 ^ k" by (auto simp: good_format_def elim: quantum_small)
  have "of_int (int n * 2 ^ k) \<le> x / quantum f x" using assms(3) k by (simp add: mult_right_mono)
  from round_even_ge [OF this] have "rat_of_int (int n * 2 ^ k) \<le> of_int (round_even (x / quantum f x))"
    by (simp only: of_int_le_iff)
  then show ?thesis unfolding k by (simp add: pos_le_divide_eq)
next
  case False
  let ?p = "fp_prec f" and ?e = "floor_log2 x"
  have le: "int ?p \<le> ?e" using False floor_log2_bounds(2) [OF assms(4)] pow2_less_iff [of "int ?p" "?e + 1"] by linarith
  have p: "0 < ?p" "fp_emin f \<le> 0" using assms(1) by (simp_all add: good_format_def)
  then have q: "quantum f x = pow2 (?e - int (?p - 1))" using le assms(4) by (simp add: quantum_def max_def)
  have "pow2 (int (?p - 1)) * quantum f x \<le> x"
    using floor_log2_bounds(1) [OF assms(4)] q by (simp add: pow2_add [symmetric])
  then have "of_int (2 ^ (?p - 1)) \<le> x / quantum f x" by (simp add: pow2_nat pos_le_divide_eq)
  from round_even_ge [OF this] have "rat_of_int (2 ^ (?p - 1)) \<le> of_int (round_even (x / quantum f x))"
    by (simp only: of_int_le_iff)
  then have "pow2 (int (?p - 1)) * quantum f x \<le> rounded f x" by (simp add: pow2_nat mult_right_mono less_imp_le)
  moreover have "pow2 (int (?p - 1)) * quantum f x = pow2 ?e" using q by (simp add: pow2_add [symmetric])
  moreover have "pow2 (int ?p) \<le> pow2 ?e" using le by (rule pow2_mono)
  moreover have "rat_of_nat n \<le> pow2 (int ?p)" using assms(2) by (simp add: pow2_nat)
  ultimately show ?thesis by linarith
qed

lemma rounded_le:
  assumes "good_format f" and "n \<le> 2 ^ fp_prec f" and "x \<le> of_nat n" and "0 < x"
  shows "rounded f x \<le> of_nat n"
proof (cases "x < pow2 (int (fp_prec f))")
  case True
  with assms obtain k where k: "quantum f x = 1 / 2 ^ k" by (auto simp: good_format_def elim: quantum_small)
  have "x / quantum f x \<le> of_int (int n * 2 ^ k)" using assms(3) k by (simp add: mult_right_mono)
  from round_even_le [OF this] have "rat_of_int (round_even (x / quantum f x)) \<le> of_int (int n * 2 ^ k)"
    by (simp only: of_int_le_iff)
  then show ?thesis unfolding k by (simp add: pos_divide_le_eq)
next
  case False
  let ?p = "fp_prec f"
  have "rat_of_nat n \<le> pow2 (int ?p)" using assms(2) by (simp add: pow2_nat)
  with False assms(3) have x: "x = pow2 (int ?p)" "rat_of_nat n = pow2 (int ?p)" by linarith+
  have "floor_log2 x = int ?p"
    using floor_log2_bounds [OF assms(4)] x pow2_less_iff [of "int ?p" "floor_log2 x + 1"]
      pow2_less_iff [of "int ?p" "floor_log2 x"] by linarith
  moreover have p: "0 < ?p" "fp_emin f \<le> 0" using assms(1) by (simp_all add: good_format_def)
  ultimately have q: "quantum f x = pow2 1" using assms(4) by (simp add: quantum_def of_nat_diff max_def)
  have two: "pow2 (int ?p) = 2 * 2 ^ (?p - 1)" "pow2 1 = 2"
    using p(1) by (simp_all add: pow2_nat power_eq_if) (simp add: pow2_def)
  then have "x / quantum f x = of_int (2 ^ (?p - 1))" using q x(1) by simp
  then have "round_even (x / quantum f x) = 2 ^ (?p - 1)"
    using round_even_ge [of "2 ^ (?p - 1)" "x / quantum f x"] round_even_le [of "x / quantum f x" "2 ^ (?p - 1)"] by simp
  then show ?thesis using q x two by simp
qed

lemma rnd_nat [simp]:
  assumes "good_format f" and "n \<le> 2 ^ fp_prec f"
  shows "rnd f (of_nat n) = Fin (of_nat n)"
proof (cases "n = 0")
  case False
  then have "rounded f (of_nat n) = of_nat n"
    using rounded_ge [OF assms, of "of_nat n"] rounded_le [OF assms, of "of_nat n"] by simp
  moreover have "rat_of_nat n \<le> pow2 (int (fp_prec f))" using assms(2) by (simp add: pow2_nat)
  moreover have "pow2 (int (fp_prec f)) < pow2 (fp_emax f)" using assms(1) by (simp add: pow2_less_iff good_format_def)
  ultimately show ?thesis using False by (simp add: rnd_def)
qed (simp add: rnd_def)

lemma rnd_ge:
  assumes "good_format f" and "n \<le> 2 ^ fp_prec f" and "of_nat n \<le> x"
  shows "rnd f x = PInf \<or> (\<exists>r. rnd f x = Fin r \<and> of_nat n \<le> r)"
proof (cases "x = 0")
  case True
  then show ?thesis using assms(3) by (simp add: rnd_def)
next
  case False
  then have "0 < x" using assms(3) by (metis less_eq_rat_def of_nat_0_le_iff order_trans)
  then show ?thesis using rounded_ge [OF assms] by (auto simp: rnd_def Let_def)
qed

lemma rnd_le:
  assumes "good_format f" and "n \<le> 2 ^ fp_prec f" and "x \<le> of_nat n"
  shows "rnd f x = NInf \<or> (\<exists>r. rnd f x = Fin r \<and> r \<le> of_nat n)"
proof (cases "0 < x")
  case True
  have "rat_of_nat n \<le> pow2 (int (fp_prec f))" using assms(2) by (simp add: pow2_nat)
  moreover have "pow2 (int (fp_prec f)) < pow2 (fp_emax f)" using assms(1) by (simp add: pow2_less_iff good_format_def)
  moreover have "0 \<le> rounded f x" using rounded_ge [OF assms(1), of 0 x] True by simp
  ultimately show ?thesis using rounded_le [OF assms True] True by (simp add: rnd_def Let_def)
next
  case False
  have "x / quantum f x \<le> of_int 0" using False by (simp add: divide_nonpos_pos)
  from round_even_le [OF this] have "rounded f x \<le> 0" by (simp add: mult_nonpos_nonneg less_imp_le)
  then have "rounded f x \<le> of_nat n" using of_nat_0_le_iff [of n, where 'a = rat] by linarith
  then show ?thesis using False by (auto simp: rnd_def Let_def)
qed

section \<open>Operations within bounds\<close>

text \<open>At least, or at most, a number, unless not a number at all.\<close>

definition above :: "nat \<Rightarrow> fp \<Rightarrow> bool" where
  "above n v \<longleftrightarrow> v = NaN \<or> v = PInf \<or> (\<exists>r. v = Fin r \<and> of_nat n \<le> r)"

definition below :: "nat \<Rightarrow> fp \<Rightarrow> bool" where
  "below n v \<longleftrightarrow> v = NaN \<or> v = NInf \<or> (\<exists>r. v = Fin r \<and> r \<le> of_nat n)"

definition in_range :: "nat \<Rightarrow> nat \<Rightarrow> fp \<Rightarrow> bool" where
  "in_range m n v \<longleftrightarrow> (\<exists>r. v = Fin r \<and> of_nat m \<le> r \<and> r \<le> of_nat n)"

lemma above_rnd: "good_format f \<Longrightarrow> n \<le> 2 ^ fp_prec f \<Longrightarrow> of_nat n \<le> x \<Longrightarrow> above n (rnd f x)"
  using rnd_ge [of f n x] by (auto simp: above_def)

lemma below_rnd: "good_format f \<Longrightarrow> n \<le> 2 ^ fp_prec f \<Longrightarrow> x \<le> of_nat n \<Longrightarrow> below n (rnd f x)"
  using rnd_le [of f n x] by (auto simp: below_def)

lemma above_add:
  assumes "good_format f" and "n \<le> 2 ^ fp_prec f" and "of_nat n \<le> x" and "above 0 v"
  shows "above n (fp_add f (Fin x) v)"
  using assms above_rnd [OF assms(1,2)] by (cases v) (auto simp: above_def)

lemma below_sub:
  assumes "good_format f" and "n \<le> 2 ^ fp_prec f" and "x \<le> of_nat n" and "above 0 v"
  shows "below n (fp_sub f (Fin x) v)"
  using assms below_rnd [OF assms(1,2)] by (cases v) (auto simp: above_def below_def fp_sub_def)

lemma above_mul: "good_format f \<Longrightarrow> above 0 a \<Longrightarrow> above 0 b \<Longrightarrow> above 0 (fp_mul f a b)"
  using above_rnd [of f 0]
  by (cases a; cases b) (auto simp: above_def fp_mul_def fp_inf_def fp_sgn_def sgn_if)

lemma above_div: "good_format f \<Longrightarrow> above 0 a \<Longrightarrow> above 0 b \<Longrightarrow> above 0 (fp_div f a b)"
  using above_rnd [of f 0]
  by (cases a; cases b) (auto simp: above_def fp_div_def fp_inf_def fp_sgn_def sgn_if)

lemma in_range_min: "above m v \<Longrightarrow> m \<le> n \<Longrightarrow> in_range m n (fp_min v (Fin (of_nat n)))"
  by (cases v) (auto simp: above_def in_range_def fp_min_def)

lemma in_range_max: "below n v \<Longrightarrow> m \<le> n \<Longrightarrow> in_range m n (fp_max v (Fin (of_nat m)))"
  by (cases v) (auto simp: below_def in_range_def fp_max_def)

lemma in_range_clamp: "m \<le> n \<Longrightarrow> in_range m n (fp_min (fp_max v (Fin (of_nat m))) (Fin (of_nat n)))"
  by (cases v) (auto simp: in_range_def fp_min_def fp_max_def)

lemma in_range_usize:
  assumes "in_range m n v" and "n \<le> usize_MAX"
  shows "m \<le> fp_to_usize v \<and> fp_to_usize v \<le> n"
proof -
  obtain r where r: "v = Fin r" "of_nat m \<le> r" "r \<le> of_nat n" using assms(1) by (auto simp: in_range_def)
  have "int m \<le> \<lfloor>r\<rfloor>" using r(2) by (simp add: le_floor_iff)
  moreover have "\<lfloor>r\<rfloor> \<le> int n" using r(3) by (simp add: floor_le_iff)
  ultimately have "m \<le> nat \<lfloor>r\<rfloor>" "nat \<lfloor>r\<rfloor> \<le> n" by simp_all
  with r(1) assms(2) show ?thesis by (simp add: fp_to_usize_def)
qed

lemma rnd_numeral [simp]:
  assumes "good_format f" and "numeral k \<le> (2 :: nat) ^ fp_prec f"
  shows "rnd f (numeral k) = Fin (numeral k)"
  using rnd_nat [OF assms] by simp

lemma quantum_eq:
  assumes "pow2 k \<le> x" and "x < pow2 (k + 1)"
  shows "quantum f x = pow2 (max (k - int (fp_prec f - 1)) (fp_emin f))"
proof -
  have pos: "0 < x" using assms(1) pow2_pos [of k] by linarith
  have "floor_log2 x = k"
    using floor_log2_bounds [OF pos] assms pow2_less_iff [of k "floor_log2 x + 1"]
      pow2_less_iff [of "floor_log2 x" "k + 1"] by linarith
  with pos show ?thesis by (simp add: quantum_def)
qed

lemma fp_precs [simp]: "fp_prec f32 = 24" "fp_prec f64 = 53"
  by (simp_all add: f32_def f64_def)

lemma rnd_0 [simp]: "rnd f 0 = Fin 0"
  by (simp add: rnd_def)

end
