(* ===== verification/RateLimiter.thy ===== *)
theory RateLimiter
  imports Prelude Floats
begin

text \<open>
  The rate limiter (\<^verbatim>\<open>numaflow-throttling/src/lib.rs\<close>): a token pool refilled once per second within
  bounds that ramp from a minimum to a maximum in one of four modes, and its two front ends, for a
  single processor and for a pool of processors that share the budget.

  The clock is outside: an operation gets the current second, and waiting with a timeout gets the
  seconds at which the waiting task wakes up before the timeout. Atomic counters are numbers below
  \<open>2 ^ 64\<close>; an addition wraps.
\<close>

section \<open>Configuration\<close>

record go_back_n_config =
  gbn_cool_down_period :: nat
  gbn_ramp_down_percentage :: nat
  gbn_utilization_threshold :: nat

definition go_back_n_config_new :: "nat \<Rightarrow> nat \<Rightarrow> nat \<Rightarrow> go_back_n_config" where
  "go_back_n_config_new cool_down_period ramp_down_percentage utilization_threshold =
     \<lparr>gbn_cool_down_period = cool_down_period, gbn_ramp_down_percentage = ramp_down_percentage,
      gbn_utilization_threshold = utilization_threshold\<rparr>"

datatype mode = Scheduled | Relaxed | OnlyIfUsed nat | GoBackN go_back_n_config

record token_calc_bounds =
  tcb_slope :: fp
  tcb_max :: nat
  tcb_min :: nat
  tcb_mode :: mode

definition token_calc_bounds_default :: token_calc_bounds where
  "token_calc_bounds_default = \<lparr>tcb_slope = Fin 1, tcb_max = 1, tcb_min = 1, tcb_mode = Relaxed\<rparr>"

text \<open>\<^verbatim>\<open>Duration::as_secs_f32\<close>.\<close>

definition as_secs_f32 :: "duration \<Rightarrow> fp" where
  "as_secs_f32 d =
     fp_add f32 (fp_of_nat f32 (d div 1000000000))
       (fp_div f32 (fp_of_nat f32 (d mod 1000000000)) (fp_of_nat f32 1000000000))"

definition token_calc_bounds_new :: "nat \<Rightarrow> nat \<Rightarrow> duration \<Rightarrow> mode \<Rightarrow> token_calc_bounds" where
  "token_calc_bounds_new mx mn d m =
     \<lparr>tcb_slope = fp_div f32 (fp_of_nat f32 (nat ((int mx - int mn) mod 2 ^ 64))) (as_secs_f32 d),
      tcb_max = mx, tcb_min = mn, tcb_mode = m\<rparr>"

record 'w rate_limit =
  rl_token_calc_bounds :: token_calc_bounds
  rl_token :: nat
  rl_max_ever_filled :: fp
  rl_last_queried_epoch :: nat
  rl_state :: 'w

datatype token_availability = Available nat | Exhausted | Recompute

section \<open>Refilling\<close>

definition relaxed_slope_increase :: "token_calc_bounds \<Rightarrow> fp \<Rightarrow> fp \<times> nat" where
  "relaxed_slope_increase b max_ever_filled =
     (if fp_le (fp_of_nat f32 (tcb_max b)) max_ever_filled then (max_ever_filled, tcb_max b)
      else let refill = fp_add f32 max_ever_filled (tcb_slope b);
               capped_refill = fp_min refill (fp_of_nat f32 (tcb_max b))
           in (capped_refill, fp_to_usize capped_refill))"

text \<open>The seconds since the last refill, \<^verbatim>\<open>cur_epoch.saturating_sub(prev_epoch) as f32\<close>.\<close>

definition epochs_since :: "nat \<Rightarrow> nat \<Rightarrow> fp" where
  "epochs_since prev_epoch cur_epoch = fp_of_nat f32 (cur_epoch - prev_epoch)"

definition scheduled_slope_increase :: "token_calc_bounds \<Rightarrow> nat \<Rightarrow> nat \<Rightarrow> fp \<Rightarrow> fp \<times> nat" where
  "scheduled_slope_increase b prev_epoch cur_epoch max_ever_filled =
     (if fp_le (fp_of_nat f32 (tcb_max b)) max_ever_filled then (max_ever_filled, tcb_max b)
      else let time_diff = epochs_since prev_epoch cur_epoch;
               refill = fp_add f32 max_ever_filled (fp_mul f32 (tcb_slope b) time_diff);
               capped_refill = fp_min refill (fp_of_nat f32 (tcb_max b))
           in (capped_refill, fp_to_usize capped_refill))"

definition only_if_used_slope_increase :: "token_calc_bounds \<Rightarrow> fp \<Rightarrow> nat \<Rightarrow> nat \<Rightarrow> fp \<times> nat" where
  "only_if_used_slope_increase b max_ever_filled used_token_percentage used_threshold_percentage =
     (if used_token_percentage \<ge> used_threshold_percentage then relaxed_slope_increase b max_ever_filled
      else (max_ever_filled, fp_to_usize max_ever_filled))"

definition go_back_n_slope_increase ::
    "token_calc_bounds \<Rightarrow> fp \<Rightarrow> nat \<Rightarrow> go_back_n_config \<Rightarrow> nat \<Rightarrow> nat \<Rightarrow> fp \<times> nat" where
  "go_back_n_slope_increase b max_ever_filled used_token_percentage c prev_epoch cur_epoch =
     (let time_diff = epochs_since prev_epoch cur_epoch
      in if fp_less (fp_of_nat f32 (gbn_cool_down_period c)) time_diff then
           let reduced_refill = fp_sub f32 max_ever_filled
                 (fp_mul f32 (fp_mul f32 (fp_div f32 (fp_of_nat f32 (gbn_ramp_down_percentage c)) (Fin 100))
                    (tcb_slope b)) (fp_sub f32 time_diff (Fin 1)));
               capped_refill = fp_min (fp_max reduced_refill (fp_of_nat f32 (tcb_min b)))
                 (fp_of_nat f32 (tcb_max b))
           in (capped_refill, fp_to_usize capped_refill)
         else if used_token_percentage \<ge> gbn_utilization_threshold c then relaxed_slope_increase b max_ever_filled
         else
           let reduced_refill = fp_sub f32 max_ever_filled (tcb_slope b);
               m = fp_max reduced_refill (fp_of_nat f32 (tcb_min b))
           in (m, fp_to_usize m))"

text \<open>The percentage of the last budget that was used, raised by the share one slope makes of it.\<close>

definition used_percentage :: "token_calc_bounds \<Rightarrow> nat \<Rightarrow> fp \<Rightarrow> nat" where
  "used_percentage b token max_ever_filled =
     (let unused_tokens = fp_of_nat f32 token;
          used = fp_to_usize (fp_round (fp_mul f32
            (fp_sub f32 (Fin 1) (fp_div f32 unused_tokens max_ever_filled)) (Fin 100)));
          floor_normalization = fp_to_usize (fp_round (fp_mul f32
            (fp_div f32 (tcb_slope b) max_ever_filled) (Fin 100)))
      in min ((used + floor_normalization) mod 2 ^ 64) 100)"

definition compute_refill :: "nat \<Rightarrow> 'w rate_limit \<Rightarrow> 'w rate_limit \<times> nat" where
  "compute_refill cur_epoch r =
     (let b = rl_token_calc_bounds r;
          m = rl_max_ever_filled r;
          used_token_percentage = used_percentage b (rl_token r) m;
          (m', tokens) = (case tcb_mode b of
             Relaxed \<Rightarrow> relaxed_slope_increase b m
           | Scheduled \<Rightarrow> scheduled_slope_increase b (rl_last_queried_epoch r) cur_epoch m
           | OnlyIfUsed threshold_percentage \<Rightarrow>
               only_if_used_slope_increase b m used_token_percentage (min threshold_percentage 100)
           | GoBackN c \<Rightarrow>
               go_back_n_slope_increase b m used_token_percentage c (rl_last_queried_epoch r) cur_epoch)
      in (r\<lparr>rl_max_ever_filled := m'\<rparr>, tokens))"

section \<open>A single processor\<close>

definition rate_limit_new :: "token_calc_bounds \<Rightarrow> unit rate_limit" where
  "rate_limit_new b =
     \<lparr>rl_token_calc_bounds = b, rl_token = tcb_min b, rl_max_ever_filled = fp_of_nat f32 (tcb_min b),
      rl_last_queried_epoch = 0, rl_state = ()\<rparr>"

definition get_tokens :: "nat option \<Rightarrow> nat \<Rightarrow> unit rate_limit \<Rightarrow> unit rate_limit \<times> token_availability" where
  "get_tokens n cur_epoch r =
     (if rl_last_queried_epoch r < cur_epoch then (r, Recompute)
      else
        let current = rl_token r
        in if current = 0 then (r, Exhausted)
           else
             (r\<lparr>rl_token := (case n of
                 None \<Rightarrow> 0
               | Some requested \<Rightarrow> if current \<ge> requested then current - requested else 0)\<rparr>,
              Available (case n of None \<Rightarrow> current | Some requested \<Rightarrow> min current requested)))"

text \<open>Storing a new budget for a second.\<close>

definition refill :: "nat \<Rightarrow> 'w rate_limit \<Rightarrow> 'w rate_limit" where
  "refill cur_epoch r =
     (case compute_refill cur_epoch r of
        (r', new_token_count) \<Rightarrow> r'\<lparr>rl_token := new_token_count, rl_last_queried_epoch := cur_epoch\<rparr>)"

definition attempt_acquire_n :: "nat option \<Rightarrow> nat \<Rightarrow> unit rate_limit \<Rightarrow> unit rate_limit \<times> nat" where
  "attempt_acquire_n n cur_epoch r =
     (case get_tokens n cur_epoch r of
        (r', Available t) \<Rightarrow> (r', t)
      | (r', Exhausted) \<Rightarrow> (r', 0)
      | (r', Recompute) \<Rightarrow>
          (case get_tokens n cur_epoch (refill cur_epoch r') of
             (r'', Available t) \<Rightarrow> (r'', t)
           | (r'', _) \<Rightarrow> (r'', 0)))"

definition attempt_deposit_unused :: "nat \<Rightarrow> nat \<Rightarrow> unit rate_limit \<Rightarrow> unit rate_limit" where
  "attempt_deposit_unused n cur_epoch r =
     (if cur_epoch \<noteq> rl_last_queried_epoch r then r
      else r\<lparr>rl_token := (rl_token r + n) mod 2 ^ 64\<rparr>)"

text \<open>
  Waiting: the task wakes at the start of each second of \<open>wakes\<close> and gives up, with no token, when
  the timeout comes first.
\<close>

fun acquisition_loop :: "(nat \<Rightarrow> 'r \<Rightarrow> 'r \<times> nat) \<Rightarrow> nat list \<Rightarrow> 'r \<Rightarrow> 'r \<times> nat" where
  "acquisition_loop attempt [] r = (r, 0)"
| "acquisition_loop attempt (epoch # wakes) r =
     (case attempt epoch r of (r', t) \<Rightarrow> if t > 0 then (r', t) else acquisition_loop attempt wakes r')"

definition acquire_with :: "(nat \<Rightarrow> 'r \<Rightarrow> 'r \<times> nat) \<Rightarrow> nat \<Rightarrow> nat list option \<Rightarrow> 'r \<Rightarrow> 'r \<times> nat" where
  "acquire_with attempt now timeout r =
     (case attempt now r of (r', t) \<Rightarrow>
        if t > 0 then (r', t)
        else (case timeout of None \<Rightarrow> (r', 0) | Some wakes \<Rightarrow> acquisition_loop attempt wakes r'))"

definition acquire_n :: "nat option \<Rightarrow> nat \<Rightarrow> nat list option \<Rightarrow> unit rate_limit \<Rightarrow> unit rate_limit \<times> nat" where
  "acquire_n n now timeout r = acquire_with (attempt_acquire_n n) now timeout r"

definition noop_acquire_n :: "nat option \<Rightarrow> nat" where
  "noop_acquire_n n = (case n of None \<Rightarrow> usize_MAX | Some k \<Rightarrow> k)"

section \<open>A pool of processors\<close>

record limiter_state =
  ls_valid_till_epoch :: nat
  ls_known_pool_size :: nat
  ls_desired_pool_size :: nat
  ls_prev_max_filled :: fp

text \<open>\<^verbatim>\<open>clamp\<close> panics, \<open>None\<close>, when the minimum exceeds the maximum.\<close>

definition rate_limit_with_state_new ::
    "token_calc_bounds \<Rightarrow> limiter_state \<Rightarrow> bool \<Rightarrow> limiter_state rate_limit option" where
  "rate_limit_with_state_new b st resume_ramp_up =
     (if resume_ramp_up \<and> tcb_min b > tcb_max b then None
      else
        let burst = (if resume_ramp_up
              then min (max (fp_to_usize (ls_prev_max_filled st)) (tcb_min b)) (tcb_max b) else tcb_min b)
        in Some \<lparr>rl_token_calc_bounds = b, rl_token = burst, rl_max_ever_filled = fp_of_nat f32 burst,
             rl_last_queried_epoch = 0, rl_state = st\<rparr>)"

definition pool_get_tokens ::
    "nat option \<Rightarrow> nat \<Rightarrow> limiter_state rate_limit \<Rightarrow> limiter_state rate_limit \<times> token_availability" where
  "pool_get_tokens n cur_epoch r =
     (if rl_last_queried_epoch r < cur_epoch then (r, Recompute)
      else
        let pool = max (ls_known_pool_size (rl_state r)) 1;
            current = rl_token r;
            processor_tokens = current div pool
        in if current = 0 \<or> processor_tokens = 0 then (r, Exhausted)
           else
             let tokens_to_acquire = (case n of None \<Rightarrow> processor_tokens
                   | Some requested \<Rightarrow> min processor_tokens requested)
             in (r\<lparr>rl_token := current - tokens_to_acquire * pool\<rparr>,
                 Available (case n of None \<Rightarrow> current div pool
                   | Some requested \<Rightarrow> min (current div pool) requested)))"

definition pool_attempt_acquire_n ::
    "nat option \<Rightarrow> nat \<Rightarrow> limiter_state rate_limit \<Rightarrow> limiter_state rate_limit \<times> nat" where
  "pool_attempt_acquire_n n cur_epoch r =
     (case pool_get_tokens n cur_epoch r of
        (r', Available t) \<Rightarrow> (r', t)
      | (r', Exhausted) \<Rightarrow> (r', 0)
      | (r', Recompute) \<Rightarrow>
          (case pool_get_tokens n cur_epoch (refill cur_epoch r') of
             (r'', Available t) \<Rightarrow> (r'', t)
           | (r'', _) \<Rightarrow> (r'', 0)))"

definition pool_attempt_deposit_unused :: "nat \<Rightarrow> nat \<Rightarrow> limiter_state rate_limit \<Rightarrow> limiter_state rate_limit" where
  "pool_attempt_deposit_unused n cur_epoch r =
     (if cur_epoch \<noteq> rl_last_queried_epoch r then r
      else r\<lparr>rl_token := (rl_token r + n * ls_known_pool_size (rl_state r)) mod 2 ^ 64\<rparr>)"

definition pool_acquire_n ::
    "nat option \<Rightarrow> nat \<Rightarrow> nat list option \<Rightarrow> limiter_state rate_limit \<Rightarrow> limiter_state rate_limit \<times> nat" where
  "pool_acquire_n n now timeout r = acquire_with (pool_attempt_acquire_n n) now timeout r"

section \<open>The budget stays within its bounds\<close>

text \<open>
  Sensible bounds: the minimum is at most the maximum, both are counts an \<^verbatim>\<open>f32\<close> holds exactly, and
  the slope is not negative.
\<close>

definition bounds_ok :: "token_calc_bounds \<Rightarrow> bool" where
  "bounds_ok b \<longleftrightarrow> tcb_min b \<le> tcb_max b \<and> tcb_max b \<le> 2 ^ 24 \<and> above 0 (tcb_slope b)"

abbreviation fill_ok :: "token_calc_bounds \<Rightarrow> fp \<Rightarrow> bool" where
  "fill_ok b \<equiv> in_range (tcb_min b) (tcb_max b)"



lemma fp_of_nat_exact [simp]: "n \<le> 2 ^ 24 \<Longrightarrow> fp_of_nat f32 n = Fin (of_nat n)"
  by (simp add: fp_of_nat_def)

lemma above_of_nat [simp]: "above 0 (fp_of_nat f n)" if "good_format f"
  using above_rnd [OF that, of 0 "of_nat n"] by (simp add: fp_of_nat_def)

lemma bounds_okD:
  assumes "bounds_ok b"
  shows "fp_of_nat f32 (tcb_min b) = Fin (of_nat (tcb_min b))" "fp_of_nat f32 (tcb_max b) = Fin (of_nat (tcb_max b))"
    "tcb_min b \<le> tcb_max b" "tcb_min b \<le> 2 ^ 24" "tcb_max b \<le> 2 ^ 24" "above 0 (tcb_slope b)" "tcb_max b \<le> usize_MAX"
  using assms by (auto simp: bounds_ok_def usize_MAX_def)

lemma bounds_ok_new:
  assumes "mn \<le> mx" and "mx \<le> 2 ^ 24"
  shows "bounds_ok (token_calc_bounds_new mx mn d m)"
proof -
  have "above 0 (as_secs_f32 d)"
  proof -
    obtain v where v: "fp_of_nat f32 (d div 1000000000) = v" "above 0 v" by (metis above_of_nat good_formats(1))
    have w: "above 0 (fp_div f32 (fp_of_nat f32 (d mod 1000000000)) (fp_of_nat f32 1000000000))"
      by (intro above_div above_of_nat) simp_all
    show ?thesis
    proof (cases v)
      case (Fin x)
      then show ?thesis using v above_add [of f32 0 x, OF _ _ _ w] by (simp add: as_secs_f32_def above_def)
    qed (use v w in \<open>auto simp: as_secs_f32_def above_def\<close>)
  qed
  then have "above 0 (fp_div f32 (fp_of_nat f32 k) (as_secs_f32 d))" for k
    by (intro above_div above_of_nat) simp_all
  with assms show ?thesis by (simp add: bounds_ok_def token_calc_bounds_new_def del: fp_of_nat_exact)
qed

lemma relaxed_ok:
  assumes "bounds_ok b" and "fill_ok b m" and "relaxed_slope_increase b m = (m', t)"
  shows "fill_ok b m' \<and> tcb_min b \<le> t \<and> t \<le> tcb_max b"
proof -
  obtain x where x: "m = Fin x" "of_nat (tcb_min b) \<le> x" using assms(2) by (auto simp: in_range_def)
  note b = bounds_okD [OF assms(1)]
  have "fill_ok b (fp_min (fp_add f32 m (tcb_slope b)) (Fin (of_nat (tcb_max b))))"
    unfolding x(1) using b x(2) by (intro in_range_min above_add) simp_all
  with assms b in_range_usize [OF this b(7)] show ?thesis
    by (auto simp: relaxed_slope_increase_def Let_def split: if_splits)
qed

lemma scheduled_ok:
  assumes "bounds_ok b" and "fill_ok b m" and "scheduled_slope_increase b p e m = (m', t)"
  shows "fill_ok b m' \<and> tcb_min b \<le> t \<and> t \<le> tcb_max b"
proof -
  obtain x where x: "m = Fin x" "of_nat (tcb_min b) \<le> x" using assms(2) by (auto simp: in_range_def)
  note b = bounds_okD [OF assms(1)]
  have "fill_ok b (fp_min (fp_add f32 m (fp_mul f32 (tcb_slope b) (epochs_since p e))) (Fin (of_nat (tcb_max b))))"
    unfolding x(1) using b x(2) by (intro in_range_min above_add above_mul) (simp_all add: epochs_since_def)
  with assms b in_range_usize [OF this b(7)] show ?thesis
    by (auto simp: scheduled_slope_increase_def Let_def split: if_splits)
qed

lemma go_back_n_ok:
  assumes "bounds_ok b" and "fill_ok b m" and "go_back_n_slope_increase b m u c p e = (m', t)"
  shows "fill_ok b m' \<and> tcb_min b \<le> t \<and> t \<le> tcb_max b"
proof -
  obtain x where x: "m = Fin x" "x \<le> of_nat (tcb_max b)" using assms(2) by (auto simp: in_range_def)
  note b = bounds_okD [OF assms(1)]
  have down: "fill_ok b (fp_max (fp_sub f32 m (tcb_slope b)) (Fin (of_nat (tcb_min b))))"
    unfolding x(1) using b x(2) by (intro in_range_max below_sub) simp_all
  have clamp: "fill_ok b (fp_min (fp_max v (Fin (of_nat (tcb_min b)))) (Fin (of_nat (tcb_max b))))" for v
    using b(3) by (rule in_range_clamp)
  show ?thesis
    using assms(3) b in_range_usize [OF clamp b(7)] in_range_usize [OF down b(7)] clamp down
      relaxed_ok [OF assms(1,2)]
    by (auto simp: go_back_n_slope_increase_def Let_def split: if_splits)
qed

lemma only_if_used_ok:
  assumes "bounds_ok b" and "fill_ok b m" and "only_if_used_slope_increase b m u h = (m', t)"
  shows "fill_ok b m' \<and> tcb_min b \<le> t \<and> t \<le> tcb_max b"
  using assms relaxed_ok in_range_usize [OF assms(2) bounds_okD(7) [OF assms(1)]]
  by (auto simp: only_if_used_slope_increase_def split: if_splits)

lemma compute_refill_ok:
  assumes "bounds_ok (rl_token_calc_bounds r)" and "fill_ok (rl_token_calc_bounds r) (rl_max_ever_filled r)"
    and "compute_refill e r = (r', t)"
  shows "fill_ok (rl_token_calc_bounds r) (rl_max_ever_filled r') \<and> tcb_min (rl_token_calc_bounds r) \<le> t \<and>
    t \<le> tcb_max (rl_token_calc_bounds r) \<and> r' = r\<lparr>rl_max_ever_filled := rl_max_ever_filled r'\<rparr>"
  using assms(3) relaxed_ok [OF assms(1,2)] scheduled_ok [OF assms(1,2)] go_back_n_ok [OF assms(1,2)]
    only_if_used_ok [OF assms(1,2)]
  by (auto simp: compute_refill_def Let_def split: mode.splits prod.splits)

section \<open>One processor is a pool of one\<close>

definition with_state :: "limiter_state \<Rightarrow> unit rate_limit \<Rightarrow> limiter_state rate_limit" where
  "with_state st r =
     \<lparr>rl_token_calc_bounds = rl_token_calc_bounds r, rl_token = rl_token r,
      rl_max_ever_filled = rl_max_ever_filled r, rl_last_queried_epoch = rl_last_queried_epoch r, rl_state = st\<rparr>"

lemma with_state_simps [simp]:
  "rl_token_calc_bounds (with_state st r) = rl_token_calc_bounds r" "rl_token (with_state st r) = rl_token r"
  "rl_max_ever_filled (with_state st r) = rl_max_ever_filled r"
  "rl_last_queried_epoch (with_state st r) = rl_last_queried_epoch r" "rl_state (with_state st r) = st"
  "(with_state st r)\<lparr>rl_token := k\<rparr> = with_state st (r\<lparr>rl_token := k\<rparr>)"
  "(with_state st r)\<lparr>rl_max_ever_filled := m\<rparr> = with_state st (r\<lparr>rl_max_ever_filled := m\<rparr>)"
  "(with_state st r)\<lparr>rl_last_queried_epoch := e\<rparr> = with_state st (r\<lparr>rl_last_queried_epoch := e\<rparr>)"
  by (simp_all add: with_state_def)

lemma refill_with_state: "refill e (with_state st r) = with_state st (refill e r)"
  by (simp add: refill_def compute_refill_def Let_def split: prod.split mode.split)

lemma get_tokens_with_state:
  assumes "ls_known_pool_size st = 1"
  shows "pool_get_tokens n e (with_state st r) = map_prod (with_state st) id (get_tokens n e r)"
  using assms by (auto simp: pool_get_tokens_def get_tokens_def Let_def split: option.split)

lemma attempt_with_state:
  assumes "ls_known_pool_size st = 1"
  shows "pool_attempt_acquire_n n e (with_state st r) = map_prod (with_state st) id (attempt_acquire_n n e r)"
  by (auto simp: pool_attempt_acquire_n_def attempt_acquire_n_def get_tokens_with_state [OF assms]
    refill_with_state split: prod.split token_availability.split)

lemma acquire_with_map:
  assumes "\<And>e r. attempt' e (h r) = map_prod h id (attempt e r)"
  shows "acquire_with attempt' now timeout (h r) = map_prod h id (acquire_with attempt now timeout r)"
proof -
  have "acquisition_loop attempt' wakes (h r) = map_prod h id (acquisition_loop attempt wakes r)" for wakes r
    by (induction wakes arbitrary: r) (auto simp: assms split: prod.split)
  then show ?thesis by (auto simp: acquire_with_def assms split: prod.split option.split)
qed

section \<open>Spending within a second\<close>

text \<open>
  A run of one processor of a pool, with the tokens it has taken and not given back since its last
  refill; it gives back no more than it holds.
\<close>

inductive pool_run :: "limiter_state rate_limit \<Rightarrow> nat \<Rightarrow> limiter_state rate_limit \<Rightarrow> bool" for r0 where
  pool_start: "pool_run r0 0 r0"
| pool_take: "pool_run r0 g r \<Longrightarrow> pool_attempt_acquire_n n e r = (r', t) \<Longrightarrow>
    pool_run r0 ((if rl_last_queried_epoch r < e then 0 else g) + t) r'"
| pool_give: "pool_run r0 g r \<Longrightarrow> k \<le> g \<Longrightarrow>
    pool_run r0 (if e = rl_last_queried_epoch r then g - k else g) (pool_attempt_deposit_unused k e r)"

definition budget_inv :: "token_calc_bounds \<Rightarrow> nat \<Rightarrow> nat \<Rightarrow> limiter_state rate_limit \<Rightarrow> bool" where
  "budget_inv b K g r \<longleftrightarrow> rl_token_calc_bounds r = b \<and> ls_known_pool_size (rl_state r) = K \<and>
     fill_ok b (rl_max_ever_filled r) \<and> rl_token r + g * max K 1 \<le> tcb_max b"

lemma budget_get_tokens:
  assumes "budget_inv b K g r" and "\<not> rl_last_queried_epoch r < e" and "pool_get_tokens n e r = (r', a)"
  shows "case a of Available t \<Rightarrow> budget_inv b K (g + t) r' | Exhausted \<Rightarrow> r' = r | Recompute \<Rightarrow> False"
proof -
  let ?K = "max K 1"
  have "rl_token r div ?K * ?K \<le> rl_token r" by simp
  moreover have "min (rl_token r div ?K) k * ?K \<le> rl_token r div ?K * ?K" for k by (simp add: mult_right_mono)
  ultimately have "min (rl_token r div ?K) k * ?K \<le> rl_token r" for k using order_trans by blast
  then show ?thesis using assms
    by (auto simp: pool_get_tokens_def budget_inv_def Let_def add_mult_distrib split: if_splits option.splits)
qed

lemma budget_refill:
  assumes "budget_inv b K g r" and "bounds_ok b"
  shows "budget_inv b K 0 (refill e r)" and "rl_last_queried_epoch (refill e r) = e"
proof -
  obtain r' t where c: "compute_refill e r = (r', t)" by fastforce
  from compute_refill_ok [OF _ _ c] assms show "budget_inv b K 0 (refill e r)" "rl_last_queried_epoch (refill e r) = e"
    by (auto simp: refill_def c budget_inv_def) (metis rate_limit.ext_inject rate_limit.surjective rate_limit.update_convs(3))+
qed

lemma budget_take:
  assumes "budget_inv b K g r" and "bounds_ok b" and "pool_attempt_acquire_n n e r = (r', t)"
  shows "budget_inv b K ((if rl_last_queried_epoch r < e then 0 else g) + t) r'"
proof (cases "rl_last_queried_epoch r < e")
  case True
  then have "pool_get_tokens n e r = (r, Recompute)" by (simp add: pool_get_tokens_def)
  moreover obtain r1 a where a: "pool_get_tokens n e (refill e r) = (r1, a)" by fastforce
  moreover have "case a of Available t \<Rightarrow> budget_inv b K (0 + t) r1 | Exhausted \<Rightarrow> r1 = refill e r | Recompute \<Rightarrow> False"
    using budget_refill [OF assms(1,2)] by (intro budget_get_tokens [OF _ _ a]) auto
  ultimately show ?thesis
    using True assms(3) budget_refill(1) [OF assms(1,2)]
    by (auto simp: pool_attempt_acquire_n_def split: token_availability.splits)
next
  case False
  obtain r1 a where a: "pool_get_tokens n e r = (r1, a)" by fastforce
  from budget_get_tokens [OF assms(1) False a] False a assms(1,3) show ?thesis
    by (auto simp: pool_attempt_acquire_n_def split: token_availability.splits)
qed

lemma budget_give:
  assumes "budget_inv b K g r" and "bounds_ok b" and "k \<le> g"
  shows "budget_inv b K (if e = rl_last_queried_epoch r then g - k else g) (pool_attempt_deposit_unused k e r)"
proof -
  have inv: "rl_token r + g * max K 1 \<le> tcb_max b" using assms(1) by (simp add: budget_inv_def)
  have "k * K + (g - k) * max K 1 \<le> k * max K 1 + (g - k) * max K 1" by simp
  also have "\<dots> = g * max K 1" using assms(3) by (simp add: add_mult_distrib [symmetric])
  finally have le: "rl_token r + k * K + (g - k) * max K 1 \<le> tcb_max b" using inv by linarith
  moreover have "tcb_max b < 2 ^ 64" using assms(2) by (simp add: bounds_ok_def)
  ultimately have "(rl_token r + k * K) mod 2 ^ 64 = rl_token r + k * K" by (intro mod_less) linarith
  with assms(1) le show ?thesis by (auto simp: budget_inv_def pool_attempt_deposit_unused_def)
qed

lemma pool_run_budget:
  assumes "pool_run r0 g r" and "budget_inv b K 0 r0" and "bounds_ok b"
  shows "budget_inv b K g r"
  using assms(1)
proof induction
  case pool_start
  show ?case by (rule assms(2))
next
  case pool_take
  then show ?case using budget_take assms(3) by blast
next
  case pool_give
  then show ?case using budget_give assms(3) by blast
qed

lemma with_state_new_budget:
  assumes "rate_limit_with_state_new b st resume = Some r0" and "bounds_ok b"
  shows "budget_inv b (ls_known_pool_size st) 0 r0"
proof -
  note b = bounds_okD [OF assms(2)]
  have "in_range (tcb_min b) (tcb_max b) (fp_of_nat f32 k)" if "tcb_min b \<le> k" "k \<le> tcb_max b" for k
    using that b(5) by (simp add: in_range_def)
  then show ?thesis using assms(1) b(3) by (auto simp: rate_limit_with_state_new_def budget_inv_def Let_def split: if_splits)
qed

section \<open>Properties\<close>

definition example_bounds :: token_calc_bounds where
  "example_bounds = \<lparr>tcb_slope = Fin 1, tcb_max = 20, tcb_min = 10, tcb_mode = Relaxed\<rparr>"

definition example_limiter_state :: limiter_state where
  "example_limiter_state =
     \<lparr>ls_valid_till_epoch = 0, ls_known_pool_size = 2, ls_desired_pool_size = 2, ls_prev_max_filled = Fin 0\<rparr>"



text \<open>
  C22. The limiter of a single processor is the limiter of a pool of size one: refilling, taking with
  and without a timeout, and giving back do the same to the tokens and answer the same.
\<close>

theorem single_is_pool_of_one:
  assumes "ls_known_pool_size st = 1"
  shows "pool_acquire_n n now timeout (with_state st r) = map_prod (with_state st) id (acquire_n n now timeout r) \<and>
    pool_attempt_deposit_unused k now (with_state st r) = with_state st (attempt_deposit_unused k now r) \<and>
    rate_limit_with_state_new b st False = Some (with_state st (rate_limit_new b))"
proof -
  have "pool_acquire_n n now timeout (with_state st r) = map_prod (with_state st) id (acquire_n n now timeout r)"
    unfolding pool_acquire_n_def acquire_n_def by (rule acquire_with_map) (rule attempt_with_state [OF assms])
  with assms show ?thesis
    by (simp add: pool_attempt_deposit_unused_def attempt_deposit_unused_def rate_limit_with_state_new_def
      rate_limit_new_def with_state_def Let_def)
qed

theorem single_is_pool_of_one_witness:
  "snd (pool_acquire_n (Some 3) 7 None (with_state (example_limiter_state\<lparr>ls_known_pool_size := 1\<rparr>)
      (rate_limit_new example_bounds))) = 3"
proof -
  have "snd (acquire_n (Some 3) 7 None (rate_limit_new example_bounds)) = 3"
    by (simp add: acquire_n_def acquire_with_def attempt_acquire_n_def get_tokens_def refill_def compute_refill_def
      Let_def relaxed_slope_increase_def example_bounds_def rate_limit_new_def fp_min_def fp_to_usize_def usize_MAX_def)
  then show ?thesis by (simp add: conjunct1 [OF single_is_pool_of_one] snd_map_prod)
qed

text \<open>
  A maximum that an \<^verbatim>\<open>f32\<close> cannot hold is rounded, and the budget of the second in which the ramp
  reaches it can exceed the maximum.
\<close>

lemma refill_above_max:
  "snd (relaxed_slope_increase \<lparr>tcb_slope = Fin 2, tcb_max = 16777219, tcb_min = 0, tcb_mode = Relaxed\<rparr> (Fin 16777218)) = 16777220"
proof -
  have "\<lfloor>16777219 / 2 :: rat\<rfloor> = 8388609" by (rule floor_unique) simp_all
  moreover have "quantum f32 16777219 = 2" by (subst quantum_eq [of 24]) (simp_all add: pow2_def f32_def)
  moreover have emax: "fp_emax f32 = 128" by (simp add: f32_def)
  ultimately have "rnd f32 16777219 = Fin 16777220" by (simp add: rnd_def Let_def round_even_def pow2_def)
  moreover have "quantum f32 16777220 = 2" by (subst quantum_eq [of 24]) (simp_all add: pow2_def f32_def)
  then have "rnd f32 16777220 = Fin 16777220" using emax by (simp add: rnd_def Let_def round_even_def pow2_def)
  ultimately show ?thesis
    by (simp add: relaxed_slope_increase_def fp_of_nat_def Let_def fp_min_def fp_to_usize_def usize_MAX_def)
qed

end
