(* ===== verification/LimiterStore.thy ===== *)
theory LimiterStore
  imports RateLimiter
begin

text \<open>
  The state a pool of rate limiters shares (\<^verbatim>\<open>numaflow-throttling/src/state.rs\<close>) and its in-memory
  store (\<^verbatim>\<open>state/store/in_memory_store.rs\<close>): processors register, report the pool size they believe
  in, and learn whether all active processors agree. The main result is that they converge to the
  number of processors. Times are seconds on the clock that is passed in; \<^verbatim>\<open>duration_since\<close>
  saturates at zero.
\<close>

section \<open>The store\<close>

datatype consensus = Agree nat | Disagree nat

datatype limiter_error = Cancellation

record processors_timeline =
  pt_heartbeats :: "(string, nat) hashmap"
  pt_reported_pool :: "(string, nat) hashmap"
  pt_prev_max_filled :: "(string, nat \<times> fp) hashmap"

definition processors_timeline_default :: processors_timeline where
  "processors_timeline_default = \<lparr>pt_heartbeats = [], pt_reported_pool = [], pt_prev_max_filled = []\<rparr>"

definition prune_stale :: "nat \<Rightarrow> nat \<Rightarrow> processors_timeline \<Rightarrow> processors_timeline" where
  "prune_stale now ttl inner =
     (let stale_ids = map fst (filter (\<lambda>(id, last_heartbeat). now - last_heartbeat > ttl) (pt_heartbeats inner))
      in inner\<lparr>pt_heartbeats := fold hm_remove stale_ids (pt_heartbeats inner),
           pt_reported_pool := fold hm_remove stale_ids (pt_reported_pool inner)\<rparr>)"

definition prune_stale_prev_max_filled :: "nat \<Rightarrow> nat \<Rightarrow> processors_timeline \<Rightarrow> processors_timeline" where
  "prune_stale_prev_max_filled now ttl inner =
     inner\<lparr>pt_prev_max_filled := hm_retain (\<lambda>_ (last_heartbeat, _). now - last_heartbeat \<le> ttl) (pt_prev_max_filled inner)\<rparr>"

definition tally :: "(string, nat) hashmap \<Rightarrow> string \<Rightarrow> nat \<times> nat \<times> nat \<Rightarrow> nat \<times> nat \<times> nat" where
  "tally reported processor_id acc =
     (case acc of (min_size, max_size, reported_count) \<Rightarrow>
        (case hm_get reported processor_id of
           None \<Rightarrow> (min_size, max_size, reported_count)
         | Some reported_size \<Rightarrow> (min min_size reported_size, max max_size reported_size, reported_count + 1)))"

definition compute_consensus :: "processors_timeline \<Rightarrow> consensus" where
  "compute_consensus inner =
     (let active_count = length (pt_heartbeats inner)
      in if active_count = 0 then Disagree 0
         else
           (case fold (tally (pt_reported_pool inner)) (hm_keys (pt_heartbeats inner)) (usize_MAX, 0, 0) of
              (min_size, max_size, reported_count) \<Rightarrow>
                if reported_count \<noteq> active_count then Disagree max_size
                else if min_size = max_size then Agree max_size else Disagree max_size))"

definition register :: "nat \<Rightarrow> nat \<Rightarrow> string \<Rightarrow> processors_timeline \<Rightarrow> processors_timeline \<times> nat \<times> fp" where
  "register now stale_age processor_id inner0 =
     (let inner = prune_stale_prev_max_filled now stale_age (prune_stale now stale_age inner0);
          heartbeats = hm_insert processor_id now (pt_heartbeats inner);
          pool_size = length heartbeats;
          reported = hm_insert processor_id
            (case hm_get (pt_reported_pool inner) processor_id of Some e \<Rightarrow> (e + 1) mod 2 ^ 64 | None \<Rightarrow> 1)
            (pt_reported_pool inner);
          max_filled = (case hm_get (pt_prev_max_filled inner) processor_id of
            Some (_, prev_max_filled) \<Rightarrow> prev_max_filled | None \<Rightarrow> Fin 0)
      in (inner\<lparr>pt_heartbeats := heartbeats, pt_reported_pool := reported\<rparr>, pool_size, max_filled))"

definition deregister :: "nat \<Rightarrow> string \<Rightarrow> fp \<Rightarrow> processors_timeline \<Rightarrow> processors_timeline" where
  "deregister now processor_id prev_max_filled inner =
     inner\<lparr>pt_heartbeats := hm_remove processor_id (pt_heartbeats inner),
       pt_reported_pool := hm_remove processor_id (pt_reported_pool inner),
       pt_prev_max_filled := hm_insert processor_id (now, prev_max_filled) (pt_prev_max_filled inner)\<rparr>"

definition sync_pool_size ::
    "bool \<Rightarrow> nat \<Rightarrow> nat \<Rightarrow> string \<Rightarrow> nat \<Rightarrow> processors_timeline \<Rightarrow> processors_timeline \<times> (limiter_error + consensus)" where
  "sync_pool_size cancelled now stale_age processor_id pool_size inner0 =
     (if cancelled then (inner0, Inl Cancellation)
      else
        let inner = prune_stale_prev_max_filled now stale_age (prune_stale now stale_age inner0);
            inner = inner\<lparr>pt_heartbeats := hm_insert processor_id now (pt_heartbeats inner),
              pt_reported_pool := hm_insert processor_id pool_size (pt_reported_pool inner)\<rparr>
        in (inner, Inr (compute_consensus inner)))"

section \<open>The state of a processor\<close>

record optimistic_validity =
  ov_on_agree :: nat
  ov_on_disagree :: nat

definition optimistic_validity_default :: optimistic_validity where
  "optimistic_validity_default = \<lparr>ov_on_agree = 10, ov_on_disagree = 2\<rparr>"

text \<open>
  Waiting for the first agreement, against the answers of a store whose state other processors may
  change between two calls; \<open>None\<close> is running out of fuel.
\<close>

fun wait_for_consensus ::
    "nat \<Rightarrow> (nat \<Rightarrow> 's \<Rightarrow> 's \<times> (limiter_error + consensus)) \<Rightarrow> nat \<Rightarrow> 's \<Rightarrow> ('s \<times> (limiter_error + nat)) option" where
  "wait_for_consensus 0 sync desired_pool_size s = None"
| "wait_for_consensus (Suc fuel) sync desired_pool_size s =
     (case sync desired_pool_size s of
        (s', Inl e) \<Rightarrow> Some (s', Inl e)
      | (s', Inr (Agree pool_size)) \<Rightarrow> Some (s', Inr pool_size)
      | (s', Inr (Disagree pool_size)) \<Rightarrow> wait_for_consensus fuel sync pool_size s')"

definition limiter_state_new :: "nat \<Rightarrow> optimistic_validity \<Rightarrow> nat \<Rightarrow> fp \<Rightarrow> limiter_state" where
  "limiter_state_new now runway pool_size prev_max_filled =
     \<lparr>ls_valid_till_epoch = now + ov_on_agree runway, ls_known_pool_size = pool_size,
      ls_desired_pool_size = pool_size, ls_prev_max_filled = prev_max_filled\<rparr>"

definition update_state :: "nat \<Rightarrow> optimistic_validity \<Rightarrow> consensus \<Rightarrow> limiter_state \<Rightarrow> limiter_state" where
  "update_state now runway c st =
     (case c of
        Agree pool_size \<Rightarrow> st\<lparr>ls_desired_pool_size := pool_size, ls_known_pool_size := pool_size,
          ls_valid_till_epoch := now + ov_on_agree runway\<rparr>
      | Disagree pool_size \<Rightarrow> st\<lparr>ls_desired_pool_size := pool_size,
          ls_valid_till_epoch := now + ov_on_disagree runway\<rparr>)"

text \<open>One round of the background task; a failed call changes nothing.\<close>

definition background_update ::
    "bool \<Rightarrow> nat \<Rightarrow> nat \<Rightarrow> optimistic_validity \<Rightarrow> string \<Rightarrow> processors_timeline \<times> limiter_state \<Rightarrow>
     processors_timeline \<times> limiter_state" where
  "background_update cancelled now stale_age runway processor_id s =
     (case s of (inner, st) \<Rightarrow>
        (case sync_pool_size cancelled now stale_age processor_id (ls_desired_pool_size st) inner of
           (inner', Inr c) \<Rightarrow> (inner', update_state now runway c st)
         | (inner', Inl _) \<Rightarrow> (inner', st)))"

definition limiter_shutdown ::
    "nat \<Rightarrow> string \<Rightarrow> limiter_state rate_limit \<Rightarrow> processors_timeline \<Rightarrow> processors_timeline" where
  "limiter_shutdown now processor_id r inner = deregister now processor_id (rl_max_ever_filled r) inner"

section \<open>What the consensus says\<close>

definition reports :: "processors_timeline \<Rightarrow> nat list" where
  "reports inner = List.map_filter (hm_get (pt_reported_pool inner)) (hm_keys (pt_heartbeats inner))"

definition largest :: "nat list \<Rightarrow> nat" where
  "largest xs = fold max xs 0"

lemma fold_max_start: "(a::nat) \<le> fold max xs a"
proof (induction xs arbitrary: a)
  case (Cons y ys)
  from Cons.IH [of "max y a"] show ?case by simp
qed simp

lemma fold_max_elem: "x \<in> set xs \<Longrightarrow> (x::nat) \<le> fold max xs a"
proof (induction xs arbitrary: a)
  case (Cons y ys)
  with fold_max_start [of "max y a" ys] show ?case by auto
qed simp

lemma largest_le_iff: "largest xs \<le> m \<longleftrightarrow> (\<forall>x \<in> set xs. x \<le> m)"
proof
  show "largest xs \<le> m \<Longrightarrow> \<forall>x \<in> set xs. x \<le> m" unfolding largest_def using fold_max_elem order_trans by blast
  have "fold max xs a \<le> m" if "\<forall>x \<in> set xs. x \<le> m" "a \<le> m" for a
    using that by (induction xs arbitrary: a) auto
  then show "\<forall>x \<in> set xs. x \<le> m \<Longrightarrow> largest xs \<le> m" by (simp add: largest_def)
qed

lemma largest_ge: "x \<in> set xs \<Longrightarrow> x \<le> largest xs"
  unfolding largest_def by (rule fold_max_elem)

lemma tally_fold:
  "fold (tally m) ps (a, b, c) =
     (let rs = List.map_filter (hm_get m) ps in (fold min rs a, fold max rs b, c + length rs))"
proof (induction ps arbitrary: a b c)
  case (Cons p ps)
  then show ?case by (cases "hm_get m p") (simp_all add: tally_def Let_def map_filter_simps min.commute max.commute)
qed (simp add: map_filter_simps)

definition consensus_size :: "consensus \<Rightarrow> nat" where
  "consensus_size c = (case c of Agree k \<Rightarrow> k | Disagree k \<Rightarrow> k)"

lemma consensus_size_eq: "consensus_size (compute_consensus inner) = largest (reports inner)"
  by (simp add: compute_consensus_def consensus_size_def reports_def largest_def tally_fold Let_def map_filter_simps
    split: prod.split)

lemma fold_min_eq:
  assumes "\<forall>x \<in> set xs. x = k" and "xs \<noteq> []" and "k \<le> a"
  shows "fold min xs a = (k::nat)"
proof -
  have "\<forall>x \<in> set ys. x = k \<Longrightarrow> fold min ys k = k" for ys by (induction ys) auto
  with assms show ?thesis by (cases xs) auto
qed

lemma length_map_filter: "length (List.map_filter f xs) = length xs \<longleftrightarrow> (\<forall>x \<in> set xs. f x \<noteq> None)"
proof -
  have "length (filter P xs) = length xs \<longleftrightarrow> (\<forall>x \<in> set xs. P x)" for P
    using length_filter_less [of _ xs P] by (auto simp: less_not_refl3) fastforce
  then show ?thesis by (simp add: map_filter_def)
qed

lemma agree_iff:
  assumes "k \<le> usize_MAX" and "pt_heartbeats inner \<noteq> []"
  shows "compute_consensus inner = Agree k \<longleftrightarrow>
    (\<forall>p \<in> set (hm_keys (pt_heartbeats inner)). hm_get (pt_reported_pool inner) p = Some k)"
proof -
  let ?ks = "hm_keys (pt_heartbeats inner)" and ?f = "hm_get (pt_reported_pool inner)"
  let ?rs = "List.map_filter ?f ?ks"
  have eq: "compute_consensus inner = Agree k \<longleftrightarrow>
      length ?rs = length ?ks \<and> fold min ?rs usize_MAX = fold max ?rs 0 \<and> fold max ?rs 0 = k"
    using assms(2) by (auto simp: compute_consensus_def tally_fold Let_def)
  have rs: "set ?rs = {k. \<exists>p \<in> set ?ks. ?f p = Some k}" by (rule set_map_filter_eq)
  show ?thesis
  proof
    assume "compute_consensus inner = Agree k"
    then have len: "length ?rs = length ?ks" and mm: "fold min ?rs usize_MAX = k" "fold max ?rs 0 = k"
      using eq by simp_all
    have "x = k" if "x \<in> set ?rs" for x
      using fold_max_elem [OF that, of 0] fold_min_le_elem [OF that, of usize_MAX] mm by linarith
    moreover have "\<forall>p \<in> set ?ks. ?f p \<noteq> None" using len by (rule length_map_filter [THEN iffD1])
    ultimately show "\<forall>p \<in> set ?ks. ?f p = Some k" unfolding rs by blast
  next
    assume all: "\<forall>p \<in> set ?ks. ?f p = Some k"
    have len: "length ?rs = length ?ks" using all by (intro length_map_filter [THEN iffD2]) blast
    moreover have each: "\<forall>x \<in> set ?rs. x = k" unfolding rs using all by auto
    moreover have ne: "?rs \<noteq> []" using len assms(2) by auto
    moreover have "fold max ?rs 0 = k"
    proof (rule antisym)
      show "fold max ?rs 0 \<le> k" using each largest_le_iff [of ?rs k] by (simp add: largest_def)
      show "k \<le> fold max ?rs 0" using each ne fold_max_elem [of k ?rs 0] by (metis list.set_sel(1))
    qed
    ultimately show "compute_consensus inner = Agree k" using eq fold_min_eq [OF each ne assms(1)] by simp
  qed
qed

section \<open>Convergence of a fixed pool\<close>

text \<open>
  A pool of processors around one store: each has registered and repeats its background update, at
  a second and in an order that are arbitrary. A processor that has not agreed yet knows no pool
  size; waiting for the first agreement reports and learns the desired size like an update does.
\<close>

type_synonym pool = "processors_timeline \<times> (string \<Rightarrow> limiter_state)"

definition join_pool :: "nat \<Rightarrow> nat \<times> string \<Rightarrow> pool \<Rightarrow> pool" where
  "join_pool ttl x s =
     (case (x, s) of ((now, p), (inner, ls)) \<Rightarrow>
        (case register now ttl p inner of
           (inner', pool_size, prev) \<Rightarrow> (inner', ls(p := \<lparr>ls_valid_till_epoch = 0, ls_known_pool_size = 0,
             ls_desired_pool_size = pool_size, ls_prev_max_filled = prev\<rparr>))))"

definition pool_tick :: "nat \<Rightarrow> optimistic_validity \<Rightarrow> nat \<times> string \<Rightarrow> pool \<Rightarrow> pool" where
  "pool_tick ttl runway x s =
     (case (x, s) of ((now, p), (inner, ls)) \<Rightarrow>
        (case background_update False now ttl runway p (inner, ls p) of (inner', st) \<Rightarrow> (inner', ls(p := st))))"

abbreviation desired :: "pool \<Rightarrow> string \<Rightarrow> nat" where
  "desired s p \<equiv> ls_desired_pool_size (snd s p)"

abbreviation known :: "pool \<Rightarrow> string \<Rightarrow> nat" where
  "known s p \<equiv> ls_known_pool_size (snd s p)"

abbreviation reported :: "pool \<Rightarrow> string \<Rightarrow> nat option" where
  "reported s p \<equiv> hm_get (pt_reported_pool (fst s)) p"

text \<open>All happens between \<open>t\<close> and \<open>t + ttl\<close>, so that nobody is pruned.\<close>

definition pool_inv :: "nat \<Rightarrow> string set \<Rightarrow> nat \<Rightarrow> string \<Rightarrow> pool \<Rightarrow> bool" where
  "pool_inv t P M q s \<longleftrightarrow> M \<le> usize_MAX \<and> q \<in> P \<and> desired s q = M \<and>
     set (hm_keys (pt_heartbeats (fst s))) = P \<and> (\<forall>(p, h) \<in> set (pt_heartbeats (fst s)). t \<le> h) \<and>
     (\<forall>p \<in> P. desired s p \<le> M \<and> (\<exists>k. reported s p = Some k \<and> k \<le> M))"

lemma prune_fresh:
  assumes "\<forall>(p, h) \<in> set (pt_heartbeats inner). t \<le> h" and "now \<le> t + ttl"
  shows "prune_stale now ttl inner = inner"
proof -
  have "filter (\<lambda>(p, h). now - h > ttl) (pt_heartbeats inner) = []"
    using assms by (auto simp: filter_empty_conv)
  then show ?thesis by (simp add: prune_stale_def)
qed

lemma prune_prev [simp]:
  "pt_heartbeats (prune_stale_prev_max_filled now ttl inner) = pt_heartbeats inner"
  "pt_reported_pool (prune_stale_prev_max_filled now ttl inner) = pt_reported_pool inner"
  by (simp_all add: prune_stale_prev_max_filled_def)

lemma update_state_fields:
  "ls_desired_pool_size (update_state now runway c st) = consensus_size c"
  "ls_known_pool_size (update_state now runway (Agree k) st) = k"
  by (simp_all add: update_state_def consensus_size_def split: consensus.split)

lemma heartbeats_insert:
  "set (hm_keys (hm_insert p now m)) = insert p (set (hm_keys m))"
  "(q, h) \<in> set (hm_insert p now m) \<Longrightarrow> h = now \<or> (q, h) \<in> set m"
  by (induction m) (auto split: if_splits)

lemma tick_effect:
  assumes "pool_inv t P M q s" and "p \<in> P" and "t \<le> now" and "now \<le> t + ttl"
    and "s' = pool_tick ttl runway (now, p) s"
  shows "reported s' x = (if x = p then Some (desired s p) else reported s x)"
    and "desired s' x = (if x = p then largest (reports (fst s')) else desired s x)"
    and "set (hm_keys (pt_heartbeats (fst s'))) = P"
    and "\<forall>(p, h) \<in> set (pt_heartbeats (fst s')). t \<le> h"
    and "compute_consensus (fst s') = Agree k \<Longrightarrow> known s' p = k"
    and "x \<noteq> p \<Longrightarrow> known s' x = known s x"
proof -
  obtain inner ls where s: "s = (inner, ls)" by fastforce
  have fresh: "\<forall>(p, h) \<in> set (pt_heartbeats inner). t \<le> h" and P: "set (hm_keys (pt_heartbeats inner)) = P"
    using assms(1) s by (auto simp: pool_inv_def)
  let ?i = "(prune_stale_prev_max_filled now ttl inner)\<lparr>pt_heartbeats := hm_insert p now (pt_heartbeats inner),
      pt_reported_pool := hm_insert p (desired s p) (pt_reported_pool inner)\<rparr>"
  have s': "s' = (?i, ls(p := update_state now runway (compute_consensus ?i) (ls p)))"
    using prune_fresh [OF fresh assms(4)] s
    by (simp add: assms(5) pool_tick_def background_update_def sync_pool_size_def Let_def)
  show "reported s' x = (if x = p then Some (desired s p) else reported s x)" using s s' by simp
  show "desired s' x = (if x = p then largest (reports (fst s')) else desired s x)"
    using s s' by (simp add: update_state_fields consensus_size_eq)
  show "set (hm_keys (pt_heartbeats (fst s'))) = P"
    using s' heartbeats_insert(1) [of p now "pt_heartbeats inner"] P assms(2) by auto
  show "\<forall>(p, h) \<in> set (pt_heartbeats (fst s')). t \<le> h"
    using s' heartbeats_insert(2) [of _ _ p now "pt_heartbeats inner"] fresh assms(3) by fastforce
  show "known s' p = k" if "compute_consensus (fst s') = Agree k" using that s' by (simp add: update_state_fields)
  show "known s' x = known s x" if "x \<noteq> p" using that s s' by simp
qed

lemma set_reports: "set (reports inner) = {k. \<exists>p \<in> set (hm_keys (pt_heartbeats inner)). hm_get (pt_reported_pool inner) p = Some k}"
  unfolding reports_def by (rule set_map_filter_eq)

lemma tick_inv:
  assumes "pool_inv t P M q s" and "p \<in> P" and "t \<le> now" and "now \<le> t + ttl"
  shows "pool_inv t P M q (pool_tick ttl runway (now, p) s)"
    and "reported s q = Some M \<or> p = q \<Longrightarrow> desired (pool_tick ttl runway (now, p) s) p = M"
proof -
  let ?s = "pool_tick ttl runway (now, p) s"
  note eff = tick_effect [OF assms refl, where runway = runway]
  have bound: "\<exists>k. reported ?s x = Some k \<and> k \<le> M" if "x \<in> P" for x
    using that assms(1,2) by (simp add: eff(1) pool_inv_def)
  then have le: "largest (reports (fst ?s)) \<le> M"
    unfolding largest_le_iff set_reports eff(3) by fastforce
  have M: "largest (reports (fst ?s)) = M" if "reported s q = Some M \<or> p = q"
  proof -
    have "reported ?s q = Some M" using that assms(1) by (auto simp: eff(1) pool_inv_def)
    moreover have "q \<in> P" using assms(1) by (simp add: pool_inv_def)
    ultimately have "M \<in> set (reports (fst ?s))" unfolding set_reports eff(3) by blast
    with largest_ge le show ?thesis by (metis antisym)
  qed
  then show "desired ?s p = M" if "reported s q = Some M \<or> p = q" using that by (simp add: eff(2))
  have "desired ?s x \<le> M" if "x \<in> P" for x using that le assms(1) by (simp add: eff(2) pool_inv_def)
  moreover have "desired ?s q = M" using M assms(1) by (cases "p = q") (auto simp: eff(2) pool_inv_def)
  ultimately show "pool_inv t P M q ?s" using assms(1) eff(3,4) bound by (simp add: pool_inv_def)
qed

lemma fold_establishes:
  assumes "\<And>x s. x \<in> set xs \<Longrightarrow> J s \<Longrightarrow> J (f x s) \<and> R (g x) (f x s)"
    and "\<And>x s p. x \<in> set xs \<Longrightarrow> J s \<Longrightarrow> R p s \<Longrightarrow> R p (f x s)" and "J s"
  shows "J (fold f xs s) \<and> (\<forall>x \<in> set xs. R (g x) (fold f xs s))"
proof -
  have "J (fold f xs s) \<and> (\<forall>x \<in> set xs. R (g x) (fold f xs s)) \<and> (\<forall>p. R p s \<longrightarrow> R p (fold f xs s))"
    using assms
  proof (induction xs arbitrary: s)
    case (Cons y ys)
    have step: "J (f y s)" "R (g y) (f y s)" "\<And>p. R p s \<Longrightarrow> R p (f y s)" using Cons.prems by auto
    have "J (fold f ys (f y s)) \<and> (\<forall>x \<in> set ys. R (g x) (fold f ys (f y s))) \<and>
        (\<forall>p. R p (f y s) \<longrightarrow> R p (fold f ys (f y s)))"
      by (rule Cons.IH) (use Cons.prems step(1) in auto)
    with step show ?case by auto
  qed simp
  then show ?thesis by blast
qed


definition round_of :: "nat \<Rightarrow> nat \<Rightarrow> string set \<Rightarrow> (nat \<times> string) list \<Rightarrow> bool" where
  "round_of t ttl P xs \<longleftrightarrow> snd ` set xs = P \<and> (\<forall>x \<in> set xs. t \<le> fst x \<and> fst x \<le> t + ttl)"

lemma round_establishes:
  assumes "round_of t ttl P xs" and "J s"
    and "\<And>now p s. p \<in> P \<Longrightarrow> t \<le> now \<Longrightarrow> now \<le> t + ttl \<Longrightarrow> J s \<Longrightarrow>
      J (pool_tick ttl runway (now, p) s) \<and> R p (pool_tick ttl runway (now, p) s) \<and>
      (\<forall>x. R x s \<longrightarrow> R x (pool_tick ttl runway (now, p) s))"
  shows "J (fold (pool_tick ttl runway) xs s) \<and> (\<forall>p \<in> P. R p (fold (pool_tick ttl runway) xs s))"
proof -
  have step: "J (pool_tick ttl runway x s) \<and> R (snd x) (pool_tick ttl runway x s) \<and>
      (\<forall>y. R y s \<longrightarrow> R y (pool_tick ttl runway x s))" if "x \<in> set xs" "J s" for x s
  proof -
    have "snd x \<in> P" "t \<le> fst x" "fst x \<le> t + ttl" using assms(1) that(1) by (auto simp: round_of_def)
    from assms(3) [OF this that(2)] show ?thesis by simp
  qed
  have "J (fold (pool_tick ttl runway) xs s) \<and> (\<forall>x \<in> set xs. R (snd x) (fold (pool_tick ttl runway) xs s))"
    by (rule fold_establishes [where g = snd and R = R and J = J]) (use step assms(2) in blast)+
  then show ?thesis using assms(1) by (auto simp: round_of_def)
qed

text \<open>The stages of the convergence, each kept by an update.\<close>

lemma tick_stages:
  assumes "pool_inv t P M q s" and "p \<in> P" and "t \<le> now" and "now \<le> t + ttl"
    and "s' = pool_tick ttl runway (now, p) s"
  shows "reported s q = Some M \<or> p = q \<Longrightarrow> reported s' q = Some M"
    and "reported s q = Some M \<Longrightarrow> desired s x = M \<or> x = p \<Longrightarrow> desired s' x = M"
    and "desired s p = M \<Longrightarrow> reported s x = Some M \<or> x = p \<Longrightarrow> reported s' x = Some M"
    and "\<forall>x \<in> P. reported s x = Some M \<Longrightarrow> desired s p = M \<Longrightarrow> known s x = M \<or> x = p \<Longrightarrow> known s' x = M"
proof -
  note eff = tick_effect [OF assms]
  have q: "desired s q = M" "q \<in> P" "M \<le> usize_MAX" using assms(1) by (simp_all add: pool_inv_def)
  show "reported s q = Some M \<or> p = q \<Longrightarrow> reported s' q = Some M" using q by (auto simp: eff(1))
  show "desired s' x = M" if "reported s q = Some M" "desired s x = M \<or> x = p"
    using that tick_inv(2) [OF assms(1-4), of runway, folded assms(5)] by (cases "x = p") (simp_all add: eff(2))
  show "desired s p = M \<Longrightarrow> reported s x = Some M \<or> x = p \<Longrightarrow> reported s' x = Some M" by (auto simp: eff(1))
  show "known s' x = M" if "\<forall>x \<in> P. reported s x = Some M" "desired s p = M" "known s x = M \<or> x = p"
  proof (cases "x = p")
    case True
    have "\<forall>x \<in> P. reported s' x = Some M" using that(1,2) by (simp add: eff(1))
    moreover have "pt_heartbeats (fst s') \<noteq> []" using eff(3) assms(2) by auto
    ultimately have "compute_consensus (fst s') = Agree M" using agree_iff [OF q(3), of "fst s'"] unfolding eff(3) by blast
    then show ?thesis using eff(5) True by blast
  next
    case False
    with that(3) eff(6) show ?thesis by metis
  qed
qed

lemma four_rounds:
  assumes "pool_inv t P M q s" and "round_of t ttl P r1" and "round_of t ttl P r2"
    and "round_of t ttl P r3" and "round_of t ttl P r4"
  shows "\<forall>p \<in> P. known (fold (pool_tick ttl runway) (r1 @ r2 @ r3 @ r4) s) p = M"
proof -
  let ?f = "fold (pool_tick ttl runway)"
  define s1 where "s1 = ?f r1 s"
  define s2 where "s2 = ?f r2 s1"
  define s3 where "s3 = ?f r3 s2"
  let ?J1 = "pool_inv t P M q"
  let ?J2 = "\<lambda>s. ?J1 s \<and> reported s q = Some M"
  let ?J3 = "\<lambda>s. ?J2 s \<and> (\<forall>p \<in> P. desired s p = M)"
  let ?J4 = "\<lambda>s. ?J3 s \<and> (\<forall>p \<in> P. reported s p = Some M)"
  have "?J1 s1 \<and> (\<forall>p \<in> P. p = q \<longrightarrow> reported s1 q = Some M)"
    unfolding s1_def
    by (rule round_establishes [where J = ?J1 and R = "\<lambda>p s. p = q \<longrightarrow> reported s q = Some M"])
      (use assms tick_inv(1) tick_stages(1) in blast)+
  then have 1: "?J2 s1" by (simp add: pool_inv_def)
  have 2: "?J3 s2"
    unfolding s2_def
  proof (rule round_establishes [where J = ?J2 and R = "\<lambda>p s. desired s p = M", OF assms(3) 1])
    fix now p s assume a: "p \<in> P" "t \<le> now" "now \<le> t + ttl" "?J2 s"
    note T = tick_stages(1,2) [OF conjunct1 [OF a(4)] a(1-3) refl, where runway = runway]
    show "?J2 (pool_tick ttl runway (now, p) s) \<and> desired (pool_tick ttl runway (now, p) s) p = M \<and>
        (\<forall>x. desired s x = M \<longrightarrow> desired (pool_tick ttl runway (now, p) s) x = M)"
      using T tick_inv(1) [OF conjunct1 [OF a(4)] a(1-3)] a(4) by blast
  qed
  have 3: "?J4 s3"
    unfolding s3_def
  proof (rule round_establishes [where J = ?J3 and R = "\<lambda>p s. reported s p = Some M", OF assms(4) 2])
    fix now p s assume a: "p \<in> P" "t \<le> now" "now \<le> t + ttl" "?J3 s"
    then have inv: "?J1 s" by blast
    note T = tick_stages(1,2,3) [OF inv a(1-3) refl, where runway = runway]
    show "?J3 (pool_tick ttl runway (now, p) s) \<and> reported (pool_tick ttl runway (now, p) s) p = Some M \<and>
        (\<forall>x. reported s x = Some M \<longrightarrow> reported (pool_tick ttl runway (now, p) s) x = Some M)"
      using T tick_inv(1) [OF inv a(1-3)] a(1,4) by blast
  qed
  have "?J4 (?f r4 s3) \<and> (\<forall>p \<in> P. known (?f r4 s3) p = M)"
  proof (rule round_establishes [where J = ?J4 and R = "\<lambda>p s. known s p = M", OF assms(5) 3])
    fix now p s assume a: "p \<in> P" "t \<le> now" "now \<le> t + ttl" "?J4 s"
    then have inv: "?J1 s" by blast
    note T = tick_stages [OF inv a(1-3) refl, where runway = runway]
    show "?J4 (pool_tick ttl runway (now, p) s) \<and> known (pool_tick ttl runway (now, p) s) p = M \<and>
        (\<forall>x. known s x = M \<longrightarrow> known (pool_tick ttl runway (now, p) s) x = M)"
      using T tick_inv(1) [OF inv a(1-3)] a(1,4) by blast
  qed
  then show ?thesis by (simp add: s1_def s2_def s3_def)
qed


lemma hm_insert_new: "p \<notin> set (hm_keys m) \<Longrightarrow> hm_insert p v m = m @ [(p, v)]"
  by (induction m) auto

definition joined :: "nat \<Rightarrow> (nat \<times> string) list \<Rightarrow> pool \<Rightarrow> bool" where
  "joined t xs s \<longleftrightarrow> hm_keys (pt_heartbeats (fst s)) = map snd xs \<and>
     (\<forall>(p, h) \<in> set (pt_heartbeats (fst s)). t \<le> h) \<and>
     (\<forall>p. reported s p = (if p \<in> snd ` set xs then Some 1 else None)) \<and>
     (\<forall>p \<in> snd ` set xs. desired s p \<le> length xs) \<and> (xs \<noteq> [] \<longrightarrow> desired s (snd (last xs)) = length xs)"

lemma join_step:
  assumes "joined t xs s" and "p \<notin> snd ` set xs" and "t \<le> now" and "now \<le> t + ttl"
  shows "joined t (xs @ [(now, p)]) (join_pool ttl (now, p) s)"
proof -
  obtain inner ls where s: "s = (inner, ls)" by fastforce
  have keys: "hm_keys (pt_heartbeats inner) = map snd xs" and fresh: "\<forall>(p, h) \<in> set (pt_heartbeats inner). t \<le> h"
    and rep: "\<And>p. reported s p = (if p \<in> snd ` set xs then Some 1 else None)"
    using assms(1) s by (auto simp: joined_def)
  have "p \<notin> set (hm_keys (pt_heartbeats inner))" unfolding keys using assms(2) by simp
  note new = hm_insert_new [OF this]
  have len: "length (pt_heartbeats inner) = length xs" using arg_cong [OF keys, of length] by simp
  have none: "hm_get (pt_reported_pool inner) p = None" using rep [of p] s assms(2) by simp
  have "join_pool ttl (now, p) s =
      ((prune_stale_prev_max_filled now ttl inner)\<lparr>pt_heartbeats := pt_heartbeats inner @ [(p, now)],
         pt_reported_pool := hm_insert p 1 (pt_reported_pool inner)\<rparr>,
       ls(p := \<lparr>ls_valid_till_epoch = 0, ls_known_pool_size = 0, ls_desired_pool_size = Suc (length xs),
         ls_prev_max_filled = snd (snd (register now ttl p inner))\<rparr>))"
    using prune_fresh [OF fresh assms(4)] s none new len by (simp add: join_pool_def register_def Let_def)
  then show ?thesis using assms(1,2,3) keys fresh rep s by (auto simp: joined_def le_SucI)
qed

lemma join_all:
  assumes "distinct (map snd xs)" and "\<forall>x \<in> set xs. t \<le> fst x \<and> fst x \<le> t + ttl"
  shows "joined t xs (fold (join_pool ttl) xs (processors_timeline_default, ls))"
  using assms
proof (induction xs rule: rev_induct)
  case Nil
  show ?case by (simp add: joined_def processors_timeline_default_def)
next
  case (snoc x xs)
  then have "joined t (xs @ [(fst x, snd x)]) (join_pool ttl (fst x, snd x)
      (fold (join_pool ttl) xs (processors_timeline_default, ls)))"
    by (intro join_step) auto
  then show ?case by simp
qed

lemma joined_inv:
  assumes "joined t xs s" and "xs \<noteq> []" and "length xs < 2 ^ 64"
  shows "pool_inv t (snd ` set xs) (length xs) (snd (last xs)) s"
proof -
  have "set (hm_keys (pt_heartbeats (fst s))) = snd ` set xs" using assms(1) by (simp only: joined_def set_map)
  moreover have "1 \<le> length xs" using assms(2) by (simp add: Suc_leI)
  ultimately show ?thesis using assms by (auto simp: pool_inv_def joined_def usize_MAX_def)
qed

section \<open>Properties\<close>

text \<open>
  C18. A pool of rate limiters converges to its size: after any processors have registered, in any
  order, and each has reported in each of four rounds, whatever the order within a round, every
  processor knows the number of processors as the pool size. All of it happens within the time
  after which a silent processor counts as gone.
\<close>

theorem pool_converges:
  assumes "xs \<noteq> []" and "distinct (map snd xs)" and "\<forall>x \<in> set xs. t \<le> fst x \<and> fst x \<le> t + ttl"
    and "length xs < 2 ^ 64" and "\<forall>r \<in> {r1, r2, r3, r4}. round_of t ttl (snd ` set xs) r"
  shows "\<forall>p \<in> snd ` set xs. known (fold (pool_tick ttl runway) (r1 @ r2 @ r3 @ r4)
    (fold (join_pool ttl) xs (processors_timeline_default, ls))) p = length xs"
  using four_rounds [OF joined_inv [OF join_all [OF assms(2,3)] assms(1,4)]] assms(5) by blast

theorem pool_converges_witness:
  "known (fold (pool_tick 180 optimistic_validity_default)
      ([(1, ''a''), (2, ''b'')] @ [(3, ''b''), (4, ''a'')] @ [(5, ''a''), (6, ''b'')] @ [(7, ''b''), (8, ''a'')])
      (fold (join_pool 180) [(0, ''a''), (1, ''b'')] (processors_timeline_default, \<lambda>_. limiter_state_new 0 optimistic_validity_default 0 (Fin 0))))
      ''a'' = 2"
  using pool_converges [of "[(0, ''a''), (1, ''b'')]" 0 180 "[(1, ''a''), (2, ''b'')]" "[(3, ''b''), (4, ''a'')]"
    "[(5, ''a''), (6, ''b'')]" "[(7, ''b''), (8, ''a'')]"]
  by (simp add: round_of_def insert_commute)

text \<open>
  Agreement does not mean that the reported size is the number of active processors: after one of
  two processors leaves, the other still agrees on two.
\<close>

lemma agreed_size_never_shrinks:
  "snd (sync_pool_size False 9 180 ''a'' 2 (deregister 8 ''b'' (Fin 0)
     (processors_timeline_default\<lparr>pt_heartbeats := [(''a'', 7), (''b'', 7)], pt_reported_pool := [(''a'', 2), (''b'', 2)]\<rparr>))) =
   Inr (Agree 2)"
  by (simp add: sync_pool_size_def deregister_def processors_timeline_default_def prune_stale_def
    prune_stale_prev_max_filled_def hm_retain_def compute_consensus_def tally_def usize_MAX_def)

end
