(* ===== verification/SimpleBuffer.thy ===== *)
theory SimpleBuffer
  imports Prelude Floats
begin

text \<open>
  The in-memory inter-step buffer (\<^verbatim>\<open>numaflow-core/src/pipeline/isb/inmemory\<close>): a bounded queue of slots
  with acknowledgements, a window of message ids against duplicates, an index from offsets to slots
  that is shifted whenever acknowledged slots are reclaimed, and an injector of failures. Readers
  and writers share the state under a lock, so an operation is one step; \<^verbatim>\<open>fetch\<close> polls, and each
  poll is a step. Times are the instants passed in. Injected latencies only delay and are left out.
\<close>

section \<open>Slots and state\<close>

record sb_offset =
  sbo_sequence :: i64
  sbo_partition_idx :: u16

definition sb_offset_new :: "i64 \<Rightarrow> u16 \<Rightarrow> sb_offset" where
  "sb_offset_new sequence partition_idx = \<lparr>sbo_sequence = sequence, sbo_partition_idx = partition_idx\<rparr>"

definition sb_offset_show :: "sb_offset \<Rightarrow> string" where
  "sb_offset_show x = show_int (sbo_sequence x) @ ''-'' @ show_nat (unat (sbo_partition_idx x))"

record buffer_message =
  rm_payload :: bytes
  rm_headers :: "(string, string) hashmap"
  rm_offset :: sb_offset

datatype message_state = Pending | InFlight | Acked

record buffer_slot =
  bs_payload :: bytes
  bs_headers :: "(string, string) hashmap"
  bs_id :: string
  bs_offset :: sb_offset
  bs_state :: message_state
  bs_sequence :: i64
  bs_fetched_at :: "nat option"

record buffer_state =
  bst_slots :: "buffer_slot list"
  bst_capacity :: nat
  bst_next_sequence :: i64
  bst_offset_to_index :: "(sb_offset, nat) hashmap"
  bst_dedup_window :: "(string, i64) hashmap"
  bst_usage_limit :: fp

definition buffer_state_new :: "nat \<Rightarrow> fp \<Rightarrow> buffer_state" where
  "buffer_state_new capacity usage_limit =
     \<lparr>bst_slots = [], bst_capacity = capacity, bst_next_sequence = 1, bst_offset_to_index = [],
      bst_dedup_window = [], bst_usage_limit = usage_limit\<rparr>"

definition usage :: "buffer_state \<Rightarrow> fp" where
  "usage st =
     fp_div f64 (fp_of_nat f64 (length (filter (\<lambda>s. bs_state s \<noteq> Acked) (bst_slots st))))
       (fp_of_nat f64 (bst_capacity st))"

definition is_full :: "buffer_state \<Rightarrow> bool" where
  "is_full st \<longleftrightarrow> fp_le (bst_usage_limit st) (usage st)"

definition pending_count :: "buffer_state \<Rightarrow> nat" where
  "pending_count st = length (filter (\<lambda>s. bs_state s = Pending) (bst_slots st))"

definition in_flight_count :: "buffer_state \<Rightarrow> nat" where
  "in_flight_count st = length (filter (\<lambda>s. bs_state s = InFlight) (bst_slots st))"

function reclaim_acked :: "buffer_state \<Rightarrow> buffer_state" where
  "reclaim_acked st =
     (case bst_slots st of
        [] \<Rightarrow> st
      | slot # rest \<Rightarrow>
          if bs_state slot = Acked
          then reclaim_acked (st\<lparr>bst_slots := rest,
            bst_offset_to_index := hm_map_values (\<lambda>idx. if idx > 0 then idx - 1 else idx)
              (hm_remove (bs_offset slot) (bst_offset_to_index st)),
            bst_dedup_window := hm_remove (bs_id slot) (bst_dedup_window st)\<rparr>)
          else st)"
  by pat_completeness auto
termination by (relation "measure (\<lambda>st. length (bst_slots st))") auto

declare reclaim_acked.simps [simp del]

definition find_slot :: "sb_offset \<Rightarrow> buffer_state \<Rightarrow> (nat \<times> buffer_slot) option" where
  "find_slot off st =
     (case hm_get (bst_offset_to_index st) off of
        None \<Rightarrow> None
      | Some idx \<Rightarrow> if idx < length (bst_slots st) then Some (idx, bst_slots st ! idx) else None)"

section \<open>Errors and their injection\<close>

datatype simple_buffer_error =
    OffsetNotFound string | Ack_error string | Nack_error string | WipAck_error string | Fetch_error string
  | Pending_error string | Write_error string | BufferFull_error | Other_error string

datatype write_error = BufferFull | WriteFailed string

record write_result =
  wr_offset :: sb_offset
  wr_is_duplicate :: bool

record error_injector =
  ei_force_buffer_full :: bool
  ei_fail_next_writes :: nat
  ei_skip_writes_before_fail :: nat
  ei_fail_next_fetches :: nat
  ei_fail_next_acks :: nat
  ei_fail_next_nacks :: nat
  ei_fail_next_wip_acks :: nat
  ei_fail_next_resolves :: nat

definition error_injector_default :: error_injector where
  "error_injector_default =
     \<lparr>ei_force_buffer_full = False, ei_fail_next_writes = 0, ei_skip_writes_before_fail = 0,
      ei_fail_next_fetches = 0, ei_fail_next_acks = 0, ei_fail_next_nacks = 0, ei_fail_next_wip_acks = 0,
      ei_fail_next_resolves = 0\<rparr>"

definition should_fail :: "nat \<Rightarrow> bool \<times> nat" where
  "should_fail count = (if count > 0 then (True, count - 1) else (False, count))"

definition should_fail_write :: "error_injector \<Rightarrow> bool \<times> error_injector" where
  "should_fail_write ej =
     (if ei_skip_writes_before_fail ej > 0
      then (False, ej\<lparr>ei_skip_writes_before_fail := ei_skip_writes_before_fail ej - 1\<rparr>)
      else (case should_fail (ei_fail_next_writes ej) of (b, c) \<Rightarrow> (b, ej\<lparr>ei_fail_next_writes := c\<rparr>)))"

definition should_fail_fetch :: "error_injector \<Rightarrow> bool \<times> error_injector" where
  "should_fail_fetch ej =
     (case should_fail (ei_fail_next_fetches ej) of (b, c) \<Rightarrow> (b, ej\<lparr>ei_fail_next_fetches := c\<rparr>))"

definition should_fail_ack :: "error_injector \<Rightarrow> bool \<times> error_injector" where
  "should_fail_ack ej =
     (case should_fail (ei_fail_next_acks ej) of (b, c) \<Rightarrow> (b, ej\<lparr>ei_fail_next_acks := c\<rparr>))"

definition should_fail_nack :: "error_injector \<Rightarrow> bool \<times> error_injector" where
  "should_fail_nack ej =
     (case should_fail (ei_fail_next_nacks ej) of (b, c) \<Rightarrow> (b, ej\<lparr>ei_fail_next_nacks := c\<rparr>))"

definition should_fail_wip_ack :: "error_injector \<Rightarrow> bool \<times> error_injector" where
  "should_fail_wip_ack ej =
     (case should_fail (ei_fail_next_wip_acks ej) of (b, c) \<Rightarrow> (b, ej\<lparr>ei_fail_next_wip_acks := c\<rparr>))"

definition should_fail_resolve :: "error_injector \<Rightarrow> bool \<times> error_injector" where
  "should_fail_resolve ej =
     (case should_fail (ei_fail_next_resolves ej) of (b, c) \<Rightarrow> (b, ej\<lparr>ei_fail_next_resolves := c\<rparr>))"

text \<open>What a test asks of the injector.\<close>

definition set_buffer_full :: "bool \<Rightarrow> error_injector \<Rightarrow> error_injector" where
  "set_buffer_full full ej = ej\<lparr>ei_force_buffer_full := full\<rparr>"

definition fail_writes :: "nat \<Rightarrow> error_injector \<Rightarrow> error_injector" where
  "fail_writes count ej = ej\<lparr>ei_fail_next_writes := count\<rparr>"

definition skip_writes_then_fail :: "nat \<Rightarrow> nat \<Rightarrow> error_injector \<Rightarrow> error_injector" where
  "skip_writes_then_fail skip fail ej = ej\<lparr>ei_skip_writes_before_fail := skip, ei_fail_next_writes := fail\<rparr>"

definition fail_fetches :: "nat \<Rightarrow> error_injector \<Rightarrow> error_injector" where
  "fail_fetches count ej = ej\<lparr>ei_fail_next_fetches := count\<rparr>"

definition fail_acks :: "nat \<Rightarrow> error_injector \<Rightarrow> error_injector" where
  "fail_acks count ej = ej\<lparr>ei_fail_next_acks := count\<rparr>"

definition fail_nacks :: "nat \<Rightarrow> error_injector \<Rightarrow> error_injector" where
  "fail_nacks count ej = ej\<lparr>ei_fail_next_nacks := count\<rparr>"

definition fail_wip_acks :: "nat \<Rightarrow> error_injector \<Rightarrow> error_injector" where
  "fail_wip_acks count ej = ej\<lparr>ei_fail_next_wip_acks := count\<rparr>"

definition fail_resolves :: "nat \<Rightarrow> error_injector \<Rightarrow> error_injector" where
  "fail_resolves count ej = ej\<lparr>ei_fail_next_resolves := count\<rparr>"

record simple_buffer =
  sb_state :: buffer_state
  sb_partition_idx :: u16
  sb_error_injector :: error_injector

definition simple_buffer_with_config :: "nat \<Rightarrow> u16 \<Rightarrow> fp \<Rightarrow> simple_buffer" where
  "simple_buffer_with_config capacity partition_idx usage_limit =
     \<lparr>sb_state = buffer_state_new capacity usage_limit, sb_partition_idx = partition_idx,
      sb_error_injector = error_injector_default\<rparr>"

definition simple_buffer_new :: "nat \<Rightarrow> u16 \<Rightarrow> simple_buffer" where
  "simple_buffer_new capacity partition_idx =
     simple_buffer_with_config capacity partition_idx (rnd f64 (8 / 10))"

section \<open>The writer\<close>

text \<open>Adding a slot at the back of the queue.\<close>

definition push_slot :: "string \<Rightarrow> bytes \<Rightarrow> (string, string) hashmap \<Rightarrow> u16 \<Rightarrow> buffer_state \<Rightarrow> buffer_state \<times> sb_offset" where
  "push_slot ident payload headers partition_idx st =
     (let sequence = bst_next_sequence st;
          off = sb_offset_new sequence partition_idx;
          slot = \<lparr>bs_payload = payload, bs_headers = headers, bs_id = ident, bs_offset = off, bs_state = Pending,
            bs_sequence = sequence, bs_fetched_at = None\<rparr>
      in (st\<lparr>bst_next_sequence := as_i64 (sequence + 1), bst_slots := bst_slots st @ [slot],
            bst_offset_to_index := hm_insert off (length (bst_slots st)) (bst_offset_to_index st),
            bst_dedup_window := hm_insert ident sequence (bst_dedup_window st)\<rparr>, off))"

definition async_write ::
    "string \<Rightarrow> bytes \<Rightarrow> (string, string) hashmap \<Rightarrow> simple_buffer \<Rightarrow> simple_buffer \<times> (write_error + write_result)" where
  "async_write ident payload headers b0 =
     (case should_fail_write (sb_error_injector b0) of (fail, ej) \<Rightarrow>
        let b = b0\<lparr>sb_error_injector := ej\<rparr>; st = sb_state b
        in if fail then (b, Inl (WriteFailed ''injected write failure''))
           else if ei_force_buffer_full ej then (b, Inl BufferFull)
           else if is_full st then (b, Inl BufferFull)
           else
             (case hm_get (bst_dedup_window st) ident of
                Some existing_seq \<Rightarrow>
                  (b, Inr \<lparr>wr_offset = sb_offset_new existing_seq (sb_partition_idx b), wr_is_duplicate = True\<rparr>)
              | None \<Rightarrow>
                  let st' = reclaim_acked st
                  in if length (bst_slots st') \<ge> bst_capacity st' then (b\<lparr>sb_state := st'\<rparr>, Inl BufferFull)
                     else
                       (case push_slot ident payload headers (sb_partition_idx b) st' of
                          (st'', off) \<Rightarrow> (b\<lparr>sb_state := st''\<rparr>, Inr \<lparr>wr_offset = off, wr_is_duplicate = False\<rparr>))))"

definition resolve :: "write_error + write_result \<Rightarrow> simple_buffer \<Rightarrow> simple_buffer \<times> (write_error + write_result)" where
  "resolve pending b =
     (case should_fail_resolve (sb_error_injector b) of (fail, ej) \<Rightarrow>
        (b\<lparr>sb_error_injector := ej\<rparr>, if fail then Inl (WriteFailed ''injected resolve failure'') else pending))"

definition writer_is_full :: "simple_buffer \<Rightarrow> bool" where
  "writer_is_full b \<longleftrightarrow> ei_force_buffer_full (sb_error_injector b) \<or> is_full (sb_state b)"

section \<open>The reader\<close>

fun take_pending :: "nat \<Rightarrow> nat \<Rightarrow> nat \<Rightarrow> buffer_slot list \<Rightarrow> buffer_slot list \<times> buffer_message list" where
  "take_pending mx now taken [] = ([], [])"
| "take_pending mx now taken (slot # rest) =
     (if bs_state slot = Pending then
        let slot' = slot\<lparr>bs_state := InFlight, bs_fetched_at := Some now\<rparr>;
            msg = \<lparr>rm_payload = bs_payload slot, rm_headers = bs_headers slot, rm_offset = bs_offset slot\<rparr>
        in if Suc taken \<ge> mx then (slot' # rest, [msg])
           else (case take_pending mx now (Suc taken) rest of (rest', msgs) \<Rightarrow> (slot' # rest', msg # msgs))
      else (case take_pending mx now taken rest of (rest', msgs) \<Rightarrow> (slot # rest', msgs)))"

definition fetch :: "nat \<Rightarrow> nat \<Rightarrow> simple_buffer \<Rightarrow> simple_buffer \<times> (simple_buffer_error + buffer_message list)" where
  "fetch mx now b0 =
     (case should_fail_fetch (sb_error_injector b0) of (fail, ej) \<Rightarrow>
        let b = b0\<lparr>sb_error_injector := ej\<rparr>
        in if fail then (b, Inl (Fetch_error ''injected fetch failure''))
           else (case take_pending mx now 0 (bst_slots (sb_state b)) of
                   (slots, msgs) \<Rightarrow> (b\<lparr>sb_state := (sb_state b)\<lparr>bst_slots := slots\<rparr>\<rparr>, Inr msgs)))"

definition state_debug :: "message_state \<Rightarrow> string" where
  "state_debug s = (case s of Pending \<Rightarrow> ''Pending'' | InFlight \<Rightarrow> ''InFlight'' | Acked \<Rightarrow> ''Acked'')"

definition not_in_flight :: "message_state \<Rightarrow> string" where
  "not_in_flight s = ''message not in-flight, current state: '' @ state_debug s"

text \<open>What acknowledging, rejecting and marking have in common: the slot of an offset in flight is changed.\<close>

definition set_in_flight ::
    "(string \<Rightarrow> simple_buffer_error) \<Rightarrow> (buffer_slot \<Rightarrow> buffer_slot) \<Rightarrow> sb_offset \<Rightarrow> simple_buffer \<Rightarrow>
     simple_buffer \<times> (simple_buffer_error + unit)" where
  "set_in_flight err f off b =
     (case find_slot off (sb_state b) of
        None \<Rightarrow> (b, Inl (OffsetNotFound (sb_offset_show off)))
      | Some (idx, slot) \<Rightarrow>
          if bs_state slot \<noteq> InFlight then (b, Inl (err (not_in_flight (bs_state slot))))
          else (b\<lparr>sb_state := (sb_state b)\<lparr>bst_slots := (bst_slots (sb_state b))[idx := f slot]\<rparr>\<rparr>, Inr ()))"

definition ack :: "sb_offset \<Rightarrow> simple_buffer \<Rightarrow> simple_buffer \<times> (simple_buffer_error + unit)" where
  "ack off b =
     (case should_fail_ack (sb_error_injector b) of (fail, ej) \<Rightarrow>
        if fail then (b\<lparr>sb_error_injector := ej\<rparr>, Inl (Ack_error ''injected ack failure''))
        else set_in_flight Ack_error (\<lambda>slot. slot\<lparr>bs_state := Acked, bs_fetched_at := None\<rparr>) off
          (b\<lparr>sb_error_injector := ej\<rparr>))"

definition nack :: "sb_offset \<Rightarrow> simple_buffer \<Rightarrow> simple_buffer \<times> (simple_buffer_error + unit)" where
  "nack off b =
     (case should_fail_nack (sb_error_injector b) of (fail, ej) \<Rightarrow>
        if fail then (b\<lparr>sb_error_injector := ej\<rparr>, Inl (Nack_error ''injected nack failure''))
        else set_in_flight Nack_error (\<lambda>slot. slot\<lparr>bs_state := Pending, bs_fetched_at := None\<rparr>) off
          (b\<lparr>sb_error_injector := ej\<rparr>))"

definition mark_wip :: "nat \<Rightarrow> sb_offset \<Rightarrow> simple_buffer \<Rightarrow> simple_buffer \<times> (simple_buffer_error + unit)" where
  "mark_wip now off b =
     (case should_fail_wip_ack (sb_error_injector b) of (fail, ej) \<Rightarrow>
        if fail then (b\<lparr>sb_error_injector := ej\<rparr>, Inl (WipAck_error ''injected wip ack failure''))
        else set_in_flight WipAck_error (\<lambda>slot. slot\<lparr>bs_fetched_at := Some now\<rparr>) off
          (b\<lparr>sb_error_injector := ej\<rparr>))"

section \<open>The index and the window match the slots\<close>

text \<open>
  The slots carry consecutive sequence numbers that end just before the next one, the index finds
  exactly the slot of an offset, and the window holds exactly the ids of the slots.
\<close>

definition slots_inv :: "u16 \<Rightarrow> buffer_state \<Rightarrow> bool" where
  "slots_inv part st \<longleftrightarrow>
     (\<forall>i < length (bst_slots st). bs_sequence (bst_slots st ! i) =
        bst_next_sequence st - int (length (bst_slots st)) + int i \<and>
        bs_offset (bst_slots st ! i) = sb_offset_new (bs_sequence (bst_slots st ! i)) part) \<and>
     (\<forall>off idx. hm_get (bst_offset_to_index st) off = Some idx \<longleftrightarrow>
        idx < length (bst_slots st) \<and> bs_offset (bst_slots st ! idx) = off) \<and>
     (\<forall>ident s. hm_get (bst_dedup_window st) ident = Some s \<longleftrightarrow>
        (\<exists>slot \<in> set (bst_slots st). bs_id slot = ident \<and> bs_sequence slot = s)) \<and>
     length (bst_slots st) \<le> bst_capacity st"

lemma slots_inv_offset_inject:
  assumes "slots_inv part st" and "i < length (bst_slots st)" and "j < length (bst_slots st)"
    and "bs_offset (bst_slots st ! i) = bs_offset (bst_slots st ! j) \<or> bs_sequence (bst_slots st ! i) = bs_sequence (bst_slots st ! j)"
  shows "i = j"
proof -
  have "bs_sequence (bst_slots st ! k) = bst_next_sequence st - int (length (bst_slots st)) + int k"
    "bs_offset (bst_slots st ! k) = sb_offset_new (bs_sequence (bst_slots st ! k)) part" if "k < length (bst_slots st)" for k
    using assms(1) that by (simp_all add: slots_inv_def)
  from this [OF assms(2)] this [OF assms(3)] assms(4) show ?thesis by (auto simp: sb_offset_new_def)
qed

lemma find_slot_eq:
  assumes "slots_inv part st" and "i < length (bst_slots st)"
  shows "find_slot (bs_offset (bst_slots st ! i)) st = Some (i, bst_slots st ! i)"
proof -
  have "hm_get (bst_offset_to_index st) (bs_offset (bst_slots st ! i)) = Some i" using assms by (simp add: slots_inv_def)
  then show ?thesis using assms(2) by (simp add: find_slot_def)
qed

lemma find_slot_None:
  assumes "slots_inv part st" and "\<forall>slot \<in> set (bst_slots st). bs_offset slot \<noteq> off"
  shows "find_slot off st = None"
proof -
  have "hm_get (bst_offset_to_index st) off = None"
  proof (rule ccontr)
    assume "hm_get (bst_offset_to_index st) off \<noteq> None"
    then obtain idx where "hm_get (bst_offset_to_index st) off = Some idx" by blast
    then have "idx < length (bst_slots st)" "bs_offset (bst_slots st ! idx) = off"
      using assms(1) unfolding slots_inv_def by blast+
    with assms(2) nth_mem show False by blast
  qed
  then show ?thesis by (simp add: find_slot_def)
qed

definition pop_slot :: "buffer_state \<Rightarrow> buffer_state" where
  "pop_slot st = (case bst_slots st of
     [] \<Rightarrow> st
   | slot # rest \<Rightarrow> st\<lparr>bst_slots := rest,
       bst_offset_to_index := hm_map_values (\<lambda>idx. if idx > 0 then idx - 1 else idx)
         (hm_remove (bs_offset slot) (bst_offset_to_index st)),
       bst_dedup_window := hm_remove (bs_id slot) (bst_dedup_window st)\<rparr>)"

lemma pop_slot_inv:
  assumes "slots_inv part st" and "bst_slots st = slot # rest"
  shows "slots_inv part (pop_slot st)"
proof -
  note inject = slots_inv_offset_inject [OF assms(1)]
  have first: "bs_offset slot' \<noteq> bs_offset slot" "bs_sequence slot' \<noteq> bs_sequence slot" if "slot' \<in> set rest" for slot'
  proof -
    obtain j where "j < length rest" "slot' = rest ! j" using \<open>slot' \<in> set rest\<close> by (auto simp: in_set_conv_nth)
    then show "bs_offset slot' \<noteq> bs_offset slot" "bs_sequence slot' \<noteq> bs_sequence slot"
      using inject [of "Suc j" 0] assms(2) by auto
  qed
  have idx: "hm_get (bst_offset_to_index (pop_slot st)) off = Some i \<longleftrightarrow> i < length rest \<and> bs_offset (rest ! i) = off" for off i
  proof -
    have "hm_get (bst_offset_to_index st) off = Some k \<longleftrightarrow> k < Suc (length rest) \<and> bs_offset ((slot # rest) ! k) = off" for k
      using assms by (simp add: slots_inv_def)
    from this [of 0] this [of "Suc i"] this show ?thesis
      using first(1) nth_mem [of i rest] assms(2)
      by (auto simp: pop_slot_def nth_Cons' split: if_splits)
  qed
  have win: "hm_get (bst_dedup_window (pop_slot st)) ident = Some s \<longleftrightarrow>
      (\<exists>slot \<in> set rest. bs_id slot = ident \<and> bs_sequence slot = s)" for ident s
  proof -
    have w: "hm_get (bst_dedup_window st) ident = Some s \<longleftrightarrow>
        (\<exists>slot \<in> set (slot # rest). bs_id slot = ident \<and> bs_sequence slot = s)" for ident s
      using assms by (simp add: slots_inv_def)
    have "bs_id slot' \<noteq> bs_id slot" if "slot' \<in> set rest" for slot'
      using w [of "bs_id slot" "bs_sequence slot"] w [of "bs_id slot" "bs_sequence slot'"] first(2) [OF that] that by auto
    moreover have "hm_get (bst_dedup_window (pop_slot st)) ident =
        (if ident = bs_id slot then None else hm_get (bst_dedup_window st) ident)"
      using assms(2) by (simp add: pop_slot_def)
    ultimately show ?thesis using w [of ident s] by (cases "ident = bs_id slot") auto
  qed
  have "bs_sequence (rest ! i) = bst_next_sequence st - int (length rest) + int i \<and>
      bs_offset (rest ! i) = sb_offset_new (bs_sequence (rest ! i)) part" if "i < length rest" for i
  proof -
    have "\<forall>i < length (slot # rest). bs_sequence ((slot # rest) ! i) = bst_next_sequence st - int (length (slot # rest)) + int i \<and>
        bs_offset ((slot # rest) ! i) = sb_offset_new (bs_sequence ((slot # rest) ! i)) part"
      using assms(1) unfolding slots_inv_def assms(2) by blast
    from this [rule_format, of "Suc i"] that show ?thesis by simp
  qed
  moreover have "bst_slots (pop_slot st) = rest" "bst_next_sequence (pop_slot st) = bst_next_sequence st"
    "bst_capacity (pop_slot st) = bst_capacity st" using assms(2) by (simp_all add: pop_slot_def)
  moreover have "length rest \<le> bst_capacity st" using assms by (simp add: slots_inv_def)
  ultimately show ?thesis unfolding slots_inv_def using idx win by simp
qed

lemma reclaim_acked_spec:
  assumes "slots_inv part st"
  shows "\<exists>j. bst_slots (reclaim_acked st) = drop j (bst_slots st) \<and> j \<le> length (bst_slots st) \<and>
    (\<forall>i < j. bs_state (bst_slots st ! i) = Acked) \<and> slots_inv part (reclaim_acked st) \<and>
    bst_next_sequence (reclaim_acked st) = bst_next_sequence st \<and> bst_capacity (reclaim_acked st) = bst_capacity st"
  using assms
proof (induction st rule: reclaim_acked.induct)
  case (1 st)
  show ?case
  proof (cases "\<exists>slot rest. bst_slots st = slot # rest \<and> bs_state slot = Acked")
    case True
    then obtain slot rest where slot: "bst_slots st = slot # rest" "bs_state slot = Acked" by blast
    have unfold: "reclaim_acked st = reclaim_acked (pop_slot st)"
      using slot by (subst reclaim_acked.simps) (simp add: pop_slot_def)
    have "bst_slots (pop_slot st) = rest" using slot by (simp add: pop_slot_def)
    with 1(1) [OF slot(1) slot(2)] pop_slot_inv [OF 1(2) slot(1)] slot(1) obtain j where
      "bst_slots (reclaim_acked (pop_slot st)) = drop j rest" "j \<le> length rest" "\<forall>i < j. bs_state (rest ! i) = Acked"
      "slots_inv part (reclaim_acked (pop_slot st))"
      "bst_next_sequence (reclaim_acked (pop_slot st)) = bst_next_sequence st"
      "bst_capacity (reclaim_acked (pop_slot st)) = bst_capacity st"
      by (auto simp: pop_slot_def)
    with slot unfold show ?thesis by (intro exI [of _ "Suc j"]) (auto simp: less_Suc_eq_0_disj)
  next
    case False
    then have "reclaim_acked st = st" by (subst reclaim_acked.simps) (auto split: list.split)
    with 1(2) show ?thesis by (intro exI [of _ 0]) simp
  qed
qed


lemma push_slot_inv:
  assumes "slots_inv part st" and "hm_get (bst_dedup_window st) ident = None"
    and "length (bst_slots st) < bst_capacity st" and "is_i64 (bst_next_sequence st + 1)"
    and "push_slot ident payload headers part st = (st', off)"
  shows "slots_inv part st'" and "off = sb_offset_new (bst_next_sequence st) part"
    and "bst_next_sequence st' = bst_next_sequence st + 1"
    and "bst_slots st' = bst_slots st @ [\<lparr>bs_payload = payload, bs_headers = headers, bs_id = ident, bs_offset = off,
      bs_state = Pending, bs_sequence = bst_next_sequence st, bs_fetched_at = None\<rparr>]"
proof -
  let ?slot = "\<lparr>bs_payload = payload, bs_headers = headers, bs_id = ident, bs_offset = off,
      bs_state = Pending, bs_sequence = bst_next_sequence st, bs_fetched_at = None\<rparr>"
  have off: "off = sb_offset_new (bst_next_sequence st) part" and st': "st' = st\<lparr>bst_next_sequence := bst_next_sequence st + 1,
      bst_slots := bst_slots st @ [?slot], bst_offset_to_index := hm_insert off (length (bst_slots st)) (bst_offset_to_index st),
      bst_dedup_window := hm_insert ident (bst_next_sequence st) (bst_dedup_window st)\<rparr>"
    using assms(4,5) by (auto simp: push_slot_def Let_def)
  then show "off = sb_offset_new (bst_next_sequence st) part" "bst_next_sequence st' = bst_next_sequence st + 1"
    "bst_slots st' = bst_slots st @ [?slot]" by simp_all
  let ?L = "length (bst_slots st)"
  have seq: "bs_sequence (bst_slots st ! i) = bst_next_sequence st - int ?L + int i"
    "bs_offset (bst_slots st ! i) = sb_offset_new (bs_sequence (bst_slots st ! i)) part" if "i < ?L" for i
    using assms(1) that by (simp_all add: slots_inv_def)
  then have new: "bs_offset (bst_slots st ! i) \<noteq> off" if "i < ?L" for i using that off by (auto simp: sb_offset_new_def)
  have oti: "hm_get (bst_offset_to_index st) o' = Some i \<longleftrightarrow> i < ?L \<and> bs_offset (bst_slots st ! i) = o'" for o' i
    using assms(1) by (simp add: slots_inv_def)
  have win: "hm_get (bst_dedup_window st) x = Some s \<longleftrightarrow> (\<exists>slot \<in> set (bst_slots st). bs_id slot = x \<and> bs_sequence slot = s)" for x s
    using assms(1) by (simp add: slots_inv_def)
  have "\<forall>slot \<in> set (bst_slots st). bs_id slot \<noteq> ident" using win [of ident] assms(2) by auto
  then have "hm_get (bst_dedup_window st') x = Some s \<longleftrightarrow> (\<exists>slot \<in> set (bst_slots st'). bs_id slot = x \<and> bs_sequence slot = s)" for x s
    using win [of x s] st' by auto
  moreover have "hm_get (bst_offset_to_index st') o' = Some i \<longleftrightarrow> i < length (bst_slots st') \<and> bs_offset (bst_slots st' ! i) = o'" for o' i
    using oti [of o' i] new [of i] st' by (auto simp: nth_append less_Suc_eq)
  moreover have "bs_sequence (bst_slots st' ! i) = bst_next_sequence st' - int (length (bst_slots st')) + int i \<and>
      bs_offset (bst_slots st' ! i) = sb_offset_new (bs_sequence (bst_slots st' ! i)) part" if "i < length (bst_slots st')" for i
    using that seq [of i] off st' by (auto simp: nth_append less_Suc_eq)
  ultimately show "slots_inv part st'" using assms(3) st' unfolding slots_inv_def by simp
qed

text \<open>Changing states only keeps the invariant.\<close>

lemma slots_inv_map:
  assumes "slots_inv part st" and "\<And>s. bs_sequence (f s) = bs_sequence s \<and> bs_offset (f s) = bs_offset s \<and> bs_id (f s) = bs_id s"
  shows "slots_inv part (st\<lparr>bst_slots := map f (bst_slots st)\<rparr>)"
proof -
  have "(\<exists>slot \<in> f ` set (bst_slots st). bs_id slot = x \<and> bs_sequence slot = s) \<longleftrightarrow>
      (\<exists>slot \<in> set (bst_slots st). bs_id slot = x \<and> bs_sequence slot = s)" for x s
    using assms(2) by simp
  moreover have "(idx < length (bst_slots st) \<and> bs_offset (map f (bst_slots st) ! idx) = off) \<longleftrightarrow>
      (idx < length (bst_slots st) \<and> bs_offset (bst_slots st ! idx) = off)" for idx off
    using assms(2) by (auto simp: nth_map)
  ultimately show ?thesis using assms by (simp add: slots_inv_def)
qed

definition distinct_offsets :: "buffer_slot list \<Rightarrow> bool" where
  "distinct_offsets slots \<longleftrightarrow> distinct (map bs_offset slots)"

lemma slots_inv_distinct: "slots_inv part st \<Longrightarrow> distinct_offsets (bst_slots st)"
  unfolding distinct_offsets_def distinct_conv_nth using slots_inv_offset_inject by (auto simp: nth_map)

lemma map_one_slot:
  assumes "distinct_offsets slots" and "i < length slots" and "off = bs_offset (slots ! i)"
  shows "map (\<lambda>s. if bs_offset s = off then f s else s) slots = slots[i := f (slots ! i)]"
proof (rule nth_equalityI)
  fix j assume "j < length (map (\<lambda>s. if bs_offset s = off then f s else s) slots)"
  then have "bs_offset (slots ! j) = off \<longleftrightarrow> j = i"
    using assms by (auto simp: distinct_offsets_def distinct_conv_nth nth_map)
  with \<open>j < _\<close> assms(2) show "map (\<lambda>s. if bs_offset s = off then f s else s) slots ! j = slots[i := f (slots ! i)] ! j"
    by (auto simp: nth_list_update)
qed simp

section \<open>Fetching takes the oldest pending messages\<close>

definition read_of :: "buffer_slot \<Rightarrow> buffer_message" where
  "read_of slot = \<lparr>rm_payload = bs_payload slot, rm_headers = bs_headers slot, rm_offset = bs_offset slot\<rparr>"

definition mark_fetched :: "nat \<Rightarrow> sb_offset list \<Rightarrow> buffer_slot \<Rightarrow> buffer_slot" where
  "mark_fetched now offs s = (if bs_offset s \<in> set offs then s\<lparr>bs_state := InFlight, bs_fetched_at := Some now\<rparr> else s)"

lemma rm_offset_read_of [simp]: "rm_offset (read_of s) = bs_offset s"
  by (simp add: read_of_def)

lemma mark_fetched_simps [simp]:
  "bs_offset s \<in> set offs \<Longrightarrow> mark_fetched now offs s = s\<lparr>bs_state := InFlight, bs_fetched_at := Some now\<rparr>"
  "bs_offset s \<notin> set offs \<Longrightarrow> mark_fetched now offs s = s"
  by (simp_all add: mark_fetched_def)

lemma map_mark_outside: "\<forall>s \<in> set slots. bs_offset s \<notin> set offs \<Longrightarrow> map (mark_fetched now offs) slots = slots"
  by (simp add: map_idI mark_fetched_def)

lemma take_pending_spec:
  assumes "take_pending mx now t slots = (slots', msgs)" and "distinct_offsets slots"
  shows "msgs = map read_of (take (max 1 (mx - t)) (filter (\<lambda>s. bs_state s = Pending) slots)) \<and>
    slots' = map (mark_fetched now (map rm_offset msgs)) slots"
  using assms
proof (induction mx now t slots arbitrary: slots' msgs rule: take_pending.induct)
  case (2 mx now taken slot rest)
  have d: "distinct_offsets rest" "\<forall>s \<in> set rest. bs_offset s \<noteq> bs_offset slot"
    using "2.prems"(2) by (simp_all add: distinct_offsets_def) (metis image_eqI)
  show ?case
  proof (cases "bs_state slot = Pending")
    case True
    show ?thesis
    proof (cases "Suc taken \<ge> mx")
      case True
      have "map (mark_fetched now [bs_offset slot]) rest = rest" using d(2) by (intro map_mark_outside) auto
      moreover have "msgs = [read_of slot]" "slots' = slot\<lparr>bs_state := InFlight, bs_fetched_at := Some now\<rparr> # rest"
        using True \<open>bs_state slot = Pending\<close> "2.prems"(1) by (auto simp: Let_def read_of_def)
      moreover have "max 1 (mx - taken) = 1" using True by linarith
      ultimately show ?thesis using \<open>bs_state slot = Pending\<close> by simp
    next
      case False
      obtain rest' ms where r: "take_pending mx now (Suc taken) rest = (rest', ms)" by fastforce
      with "2.IH"(1) [OF True refl refl False r d(1)] have
        ms: "ms = map read_of (take (max 1 (mx - Suc taken)) (filter (\<lambda>s. bs_state s = Pending) rest))"
        and rest': "rest' = map (mark_fetched now (map rm_offset ms)) rest" by blast+
      have "bs_offset s \<in> set (bs_offset slot # map rm_offset ms) \<longleftrightarrow> bs_offset s \<in> set (map rm_offset ms)" if "s \<in> set rest" for s
        using that d(2) by auto
      then have "map (mark_fetched now (bs_offset slot # map rm_offset ms)) rest = rest'"
        unfolding rest' by (simp add: mark_fetched_def)
      moreover have "max 1 (mx - taken) = Suc (max 1 (mx - Suc taken))" using False by linarith
      moreover have "msgs = read_of slot # ms" "slots' = slot\<lparr>bs_state := InFlight, bs_fetched_at := Some now\<rparr> # rest'"
        using True False r "2.prems"(1) by (auto simp: Let_def read_of_def)
      ultimately show ?thesis using True ms by simp
    qed
  next
    case False
    obtain rest' ms where r: "take_pending mx now taken rest = (rest', ms)" by fastforce
    with "2.IH"(2) [OF False r d(1)] have
      ms: "ms = map read_of (take (max 1 (mx - taken)) (filter (\<lambda>s. bs_state s = Pending) rest))"
      and rest': "rest' = map (mark_fetched now (map rm_offset ms)) rest" by blast+
    have "bs_offset slot \<notin> set (map rm_offset ms)" using d(2) ms set_take_subset by (fastforce simp: read_of_def)
    moreover have "msgs = ms" "slots' = slot # rest'" using False r "2.prems"(1) by auto
    ultimately show ?thesis using False ms rest' by simp
  qed
qed simp

end
