(* ===== verification/BufferDelivery.thy ===== *)
theory BufferDelivery
  imports SimpleBuffer
begin

text \<open>
  What the in-memory buffer promises: it implements an append-only log of messages with a state
  each, of which it keeps a suffix. Every run of its operations, failures injected at will, delivers
  in order, redelivers only what was rejected, and loses nothing that is not acknowledged.
\<close>

section \<open>The log and its operations\<close>

definition log_write ::
    "string \<Rightarrow> bytes \<Rightarrow> (string, string) hashmap \<Rightarrow> u16 \<Rightarrow> write_error + write_result \<Rightarrow> buffer_slot list \<Rightarrow> buffer_slot list" where
  "log_write ident payload headers part res hist =
     (case res of
        Inl _ \<Rightarrow> hist
      | Inr r \<Rightarrow> if wr_is_duplicate r then hist
          else hist @ [\<lparr>bs_payload = payload, bs_headers = headers, bs_id = ident,
            bs_offset = sb_offset_new (int (length hist) + 1) part, bs_state = Pending,
            bs_sequence = int (length hist) + 1, bs_fetched_at = None\<rparr>])"

definition log_change :: "(buffer_slot \<Rightarrow> buffer_slot) \<Rightarrow> sb_offset \<Rightarrow> 'e + unit \<Rightarrow> buffer_slot list \<Rightarrow> buffer_slot list" where
  "log_change f off res hist =
     (case res of Inl _ \<Rightarrow> hist | Inr _ \<Rightarrow> map (\<lambda>s. if bs_offset s = off then f s else s) hist)"

datatype buffer_event = Delivered "sb_offset list" | Acknowledged sb_offset | Rejected sb_offset | Quiet

definition on_success :: "buffer_event \<Rightarrow> 'e + unit \<Rightarrow> buffer_event" where
  "on_success e res = (case res of Inl _ \<Rightarrow> Quiet | Inr _ \<Rightarrow> e)"

inductive buffer_run :: "simple_buffer \<Rightarrow> buffer_event list \<Rightarrow> buffer_slot list \<Rightarrow> simple_buffer \<Rightarrow> bool" for b0 where
  run_start: "buffer_run b0 [] [] b0"
| run_write: "buffer_run b0 tr hist b \<Longrightarrow> async_write ident payload headers b = (b', res) \<Longrightarrow>
    buffer_run b0 (tr @ [Quiet]) (log_write ident payload headers (sb_partition_idx b0) res hist) b'"
| run_resolve: "buffer_run b0 tr hist b \<Longrightarrow> resolve pending b = (b', res) \<Longrightarrow> buffer_run b0 (tr @ [Quiet]) hist b'"
| run_fetch: "buffer_run b0 tr hist b \<Longrightarrow> fetch mx now b = (b', Inr msgs) \<Longrightarrow>
    buffer_run b0 (tr @ [Delivered (map rm_offset msgs)]) (map (mark_fetched now (map rm_offset msgs)) hist) b'"
| run_fetch_error: "buffer_run b0 tr hist b \<Longrightarrow> fetch mx now b = (b', Inl e) \<Longrightarrow> buffer_run b0 (tr @ [Quiet]) hist b'"
| run_ack: "buffer_run b0 tr hist b \<Longrightarrow> ack off b = (b', res) \<Longrightarrow>
    buffer_run b0 (tr @ [on_success (Acknowledged off) res])
      (log_change (\<lambda>s. s\<lparr>bs_state := Acked, bs_fetched_at := None\<rparr>) off res hist) b'"
| run_nack: "buffer_run b0 tr hist b \<Longrightarrow> nack off b = (b', res) \<Longrightarrow>
    buffer_run b0 (tr @ [on_success (Rejected off) res])
      (log_change (\<lambda>s. s\<lparr>bs_state := Pending, bs_fetched_at := None\<rparr>) off res hist) b'"
| run_wip: "buffer_run b0 tr hist b \<Longrightarrow> mark_wip now off b = (b', res) \<Longrightarrow>
    buffer_run b0 (tr @ [Quiet]) (log_change (\<lambda>s. s\<lparr>bs_fetched_at := Some now\<rparr>) off res hist) b'"
| run_inject: "buffer_run b0 tr hist b \<Longrightarrow> buffer_run b0 (tr @ [Quiet]) hist (b\<lparr>sb_error_injector := ej\<rparr>)"

section \<open>Deliveries, acknowledgements and rejections of an offset\<close>

definition delivered :: "sb_offset \<Rightarrow> buffer_event list \<Rightarrow> nat" where
  "delivered off tr = sum_list (map (\<lambda>e. case e of Delivered xs \<Rightarrow> count_list xs off | _ \<Rightarrow> 0) tr)"

definition acknowledged :: "sb_offset \<Rightarrow> buffer_event list \<Rightarrow> nat" where
  "acknowledged off tr = length (filter (\<lambda>e. e = Acknowledged off) tr)"

definition rejected :: "sb_offset \<Rightarrow> buffer_event list \<Rightarrow> nat" where
  "rejected off tr = length (filter (\<lambda>e. e = Rejected off) tr)"

lemma count_snoc [simp]:
  "delivered off (tr @ [Delivered xs]) = delivered off tr + count_list xs off"
  "delivered off (tr @ [Acknowledged o']) = delivered off tr"
  "delivered off (tr @ [Rejected o']) = delivered off tr"
  "delivered off (tr @ [Quiet]) = delivered off tr"
  "acknowledged off (tr @ [Delivered xs]) = acknowledged off tr"
  "acknowledged off (tr @ [Acknowledged o']) = acknowledged off tr + (if o' = off then 1 else 0)"
  "acknowledged off (tr @ [Rejected o']) = acknowledged off tr"
  "acknowledged off (tr @ [Quiet]) = acknowledged off tr"
  "rejected off (tr @ [Delivered xs]) = rejected off tr"
  "rejected off (tr @ [Acknowledged o']) = rejected off tr"
  "rejected off (tr @ [Rejected o']) = rejected off tr + (if o' = off then 1 else 0)"
  "rejected off (tr @ [Quiet]) = rejected off tr"
  by (simp_all add: delivered_def acknowledged_def rejected_def)

lemma count_list_distinct: "distinct xs \<Longrightarrow> count_list xs x = (if x \<in> set xs then 1 else 0)"
  by (induction xs) auto

text \<open>The state of an entry tells its history.\<close>

definition entry_ok :: "buffer_event list \<Rightarrow> buffer_slot \<Rightarrow> bool" where
  "entry_ok tr s \<longleftrightarrow>
     (case bs_state s of
        Pending \<Rightarrow> delivered (bs_offset s) tr = rejected (bs_offset s) tr \<and> acknowledged (bs_offset s) tr = 0
      | InFlight \<Rightarrow> delivered (bs_offset s) tr = rejected (bs_offset s) tr + 1 \<and> acknowledged (bs_offset s) tr = 0
      | Acked \<Rightarrow> delivered (bs_offset s) tr = rejected (bs_offset s) tr + 1 \<and> acknowledged (bs_offset s) tr = 1)"

definition untouched :: "buffer_event list \<Rightarrow> sb_offset \<Rightarrow> bool" where
  "untouched tr off \<longleftrightarrow> delivered off tr = 0 \<and> acknowledged off tr = 0 \<and> rejected off tr = 0"

definition log_inv :: "nat \<Rightarrow> u16 \<Rightarrow> buffer_event list \<Rightarrow> buffer_slot list \<Rightarrow> nat \<Rightarrow> simple_buffer \<Rightarrow> bool" where
  "log_inv capacity part tr hist k b \<longleftrightarrow>
     k \<le> length hist \<and> bst_slots (sb_state b) = drop k hist \<and> (\<forall>i < k. bs_state (hist ! i) = Acked) \<and>
     slots_inv part (sb_state b) \<and> sb_partition_idx b = part \<and> bst_capacity (sb_state b) = capacity \<and>
     bst_next_sequence (sb_state b) = int (length hist) + 1 \<and>
     (\<forall>i < length hist. bs_offset (hist ! i) = sb_offset_new (int i + 1) part) \<and>
     (\<forall>s \<in> set hist. entry_ok tr s) \<and> (\<forall>off. off \<notin> bs_offset ` set hist \<longrightarrow> untouched tr off)"

lemma log_inv_injector: "log_inv c part tr hist k (b\<lparr>sb_error_injector := ej\<rparr>) \<longleftrightarrow> log_inv c part tr hist k b"
  by (simp add: log_inv_def)

lemma log_inv_quiet [simp]: "log_inv c part (tr @ [Quiet]) hist k b \<longleftrightarrow> log_inv c part tr hist k b"
proof -
  have "entry_ok (tr @ [Quiet]) s = entry_ok tr s" for s by (simp add: entry_ok_def split: message_state.split)
  then show ?thesis by (simp add: log_inv_def untouched_def)
qed

lemma log_distinct: "log_inv c part tr hist k b \<Longrightarrow> distinct_offsets hist"
  unfolding distinct_offsets_def distinct_conv_nth by (auto simp: log_inv_def sb_offset_new_def nth_map)

lemma set_in_flight_log:
  assumes "log_inv c part tr hist k b" and "set_in_flight err f off b = (b', Inr u)"
    and "\<And>s. bs_sequence (f s) = bs_sequence s \<and> bs_offset (f s) = bs_offset s \<and> bs_id (f s) = bs_id s"
    and "\<And>s. s \<in> set hist \<Longrightarrow> bs_offset s = off \<Longrightarrow> bs_state s = InFlight \<Longrightarrow> entry_ok tr s \<Longrightarrow> entry_ok (tr @ [e]) (f s)"
    and "\<And>s. bs_offset s \<noteq> off \<Longrightarrow> entry_ok (tr @ [e]) s \<longleftrightarrow> entry_ok tr s"
    and "\<And>o'. o' \<noteq> off \<Longrightarrow> untouched (tr @ [e]) o' \<longleftrightarrow> untouched tr o'"
  shows "log_inv c part (tr @ [e]) (map (\<lambda>s. if bs_offset s = off then f s else s) hist) k b'"
proof -
  let ?st = "sb_state b"
  define g where "g = (\<lambda>s. if bs_offset s = off then f s else s)"
  have inv: "slots_inv part ?st" and slots: "bst_slots ?st = drop k hist" and k: "k \<le> length hist"
    using assms(1) by (simp_all add: log_inv_def)
  obtain idx slot where find: "find_slot off ?st = Some (idx, slot)" and fl: "bs_state slot = InFlight"
    and b': "b' = b\<lparr>sb_state := ?st\<lparr>bst_slots := (bst_slots ?st)[idx := f slot]\<rparr>\<rparr>"
    using assms(2) by (auto simp: set_in_flight_def split: option.splits if_splits)
  have slot: "idx < length (bst_slots ?st)" "slot = bst_slots ?st ! idx" "bs_offset slot = off"
    using find inv by (auto simp: find_slot_def slots_inv_def split: option.splits if_splits)
  have map: "(bst_slots ?st)[idx := f slot] = map g (bst_slots ?st)"
    using map_one_slot [OF slots_inv_distinct [OF inv] slot(1), of off f] slot by (simp add: g_def)
  have at: "k + idx < length hist" "hist ! (k + idx) = slot" using slot k by (simp_all add: slots)
  have only: "bs_offset s = off \<longleftrightarrow> s = slot" if "s \<in> set hist" for s
  proof -
    obtain j where j: "j < length hist" "s = hist ! j" using \<open>s \<in> set hist\<close> by (auto simp: in_set_conv_nth)
    have "bs_offset (hist ! j) = bs_offset (hist ! (k + idx)) \<longleftrightarrow> j = k + idx"
      using log_distinct [OF assms(1)] j(1) at(1)
      by (simp only: distinct_offsets_def nth_eq_iff_index_eq [of "map bs_offset hist", symmetric] length_map nth_map)
    then show ?thesis using j at(2) slot(3) by auto
  qed
  have mem: "off \<in> bs_offset ` set hist" using at slot(3) nth_mem by blast
  have g: "bs_sequence (g s) = bs_sequence s \<and> bs_offset (g s) = bs_offset s \<and> bs_id (g s) = bs_id s" for s
    using assms(3) by (simp add: g_def)
  have st': "sb_state b' = ?st\<lparr>bst_slots := map g (bst_slots ?st)\<rparr>" using b' map by simp
  have acked: "bs_state (g (hist ! i)) = Acked" if "i < k" for i
  proof -
    have "bs_state (hist ! i) = Acked" "hist ! i \<in> set hist" using that k assms(1) by (simp_all add: log_inv_def)
    moreover then have "bs_offset (hist ! i) \<noteq> off" using only fl by force
    ultimately show ?thesis by (simp add: g_def)
  qed
  have entries: "entry_ok (tr @ [e]) (g s)" if "s \<in> set hist" for s
    using that assms(1) assms(4) [of s] assms(5) [of s] only [OF that] fl by (auto simp: log_inv_def g_def)
  have rest: "untouched (tr @ [e]) o'" if "o' \<notin> bs_offset ` set (map g hist)" for o'
  proof -
    have "o' \<notin> bs_offset ` set hist" using that by (simp only: set_map image_image g not_False_eq_True)
    then show ?thesis using mem assms(1) assms(6) [of o'] by (auto simp: log_inv_def)
  qed
  have "slots_inv part (sb_state b')" unfolding st' by (rule slots_inv_map [OF inv g])
  with entries rest acked k assms(1) g show ?thesis
    unfolding log_inv_def g_def [symmetric] by (simp add: slots drop_map b' map [unfolded slots])
qed


lemma set_in_flight_error: "set_in_flight err f off b = (b', Inl e) \<Longrightarrow> b' = b"
  by (auto simp: set_in_flight_def split: option.splits if_splits)

lemma settle_log:
  assumes "log_inv c part tr hist k b" and "set_in_flight err f off (b\<lparr>sb_error_injector := ej\<rparr>) = (b', res)"
    and "\<And>s. bs_sequence (f s) = bs_sequence s \<and> bs_offset (f s) = bs_offset s \<and> bs_id (f s) = bs_id s"
    and "\<And>s. s \<in> set hist \<Longrightarrow> bs_offset s = off \<Longrightarrow> bs_state s = InFlight \<Longrightarrow> entry_ok tr s \<Longrightarrow> entry_ok (tr @ [e]) (f s)"
    and "\<And>s. bs_offset s \<noteq> off \<Longrightarrow> entry_ok (tr @ [e]) s \<longleftrightarrow> entry_ok tr s"
    and "\<And>o'. o' \<noteq> off \<Longrightarrow> untouched (tr @ [e]) o' \<longleftrightarrow> untouched tr o'"
  shows "log_inv c part (tr @ [on_success e res]) (log_change f off res hist) k b'"
proof (cases res)
  case (Inl x)
  then have "b' = b\<lparr>sb_error_injector := ej\<rparr>" using assms(2) set_in_flight_error by blast
  with Inl assms(1) show ?thesis by (simp add: on_success_def log_change_def log_inv_injector)
next
  case (Inr u)
  have "log_inv c part tr hist k (b\<lparr>sb_error_injector := ej\<rparr>)" using assms(1) by (simp add: log_inv_injector)
  then have "log_inv c part (tr @ [e]) (map (\<lambda>s. if bs_offset s = off then f s else s) hist) k b'"
    using assms(2) [unfolded Inr] by (rule set_in_flight_log) (fact assms(3) assms(4) assms(5) assms(6))+
  with Inr show ?thesis by (simp add: on_success_def log_change_def)
qed

lemma entry_ok_cong:
  assumes "delivered (bs_offset s) tr' = delivered (bs_offset s) tr" and "rejected (bs_offset s) tr' = rejected (bs_offset s) tr"
    and "acknowledged (bs_offset s) tr' = acknowledged (bs_offset s) tr"
  shows "entry_ok tr' s \<longleftrightarrow> entry_ok tr s"
  using assms by (simp add: entry_ok_def split: message_state.split)

lemma ack_log:
  assumes "log_inv c part tr hist k b" and "ack off b = (b', res)"
  shows "log_inv c part (tr @ [on_success (Acknowledged off) res])
    (log_change (\<lambda>s. s\<lparr>bs_state := Acked, bs_fetched_at := None\<rparr>) off res hist) k b'"
proof -
  obtain fail ej where ej: "should_fail_ack (sb_error_injector b) = (fail, ej)" by fastforce
  show ?thesis
  proof (cases fail)
    case True
    with assms ej show ?thesis by (auto simp: ack_def on_success_def log_change_def log_inv_injector)
  next
    case False
    then have "set_in_flight Ack_error (\<lambda>s. s\<lparr>bs_state := Acked, bs_fetched_at := None\<rparr>) off (b\<lparr>sb_error_injector := ej\<rparr>) = (b', res)"
      using assms(2) ej by (simp add: ack_def)
    then show ?thesis
      by (rule settle_log [OF assms(1)]) (simp_all add: untouched_def entry_ok_def split: message_state.split)
  qed
qed

lemma nack_log:
  assumes "log_inv c part tr hist k b" and "nack off b = (b', res)"
  shows "log_inv c part (tr @ [on_success (Rejected off) res])
    (log_change (\<lambda>s. s\<lparr>bs_state := Pending, bs_fetched_at := None\<rparr>) off res hist) k b'"
proof -
  obtain fail ej where ej: "should_fail_nack (sb_error_injector b) = (fail, ej)" by fastforce
  show ?thesis
  proof (cases fail)
    case True
    with assms ej show ?thesis by (auto simp: nack_def on_success_def log_change_def log_inv_injector)
  next
    case False
    then have "set_in_flight Nack_error (\<lambda>s. s\<lparr>bs_state := Pending, bs_fetched_at := None\<rparr>) off (b\<lparr>sb_error_injector := ej\<rparr>) = (b', res)"
      using assms(2) ej by (simp add: nack_def)
    then show ?thesis
      by (rule settle_log [OF assms(1)]) (simp_all add: untouched_def entry_ok_def split: message_state.split)
  qed
qed

lemma wip_log:
  assumes "log_inv c part tr hist k b" and "mark_wip now off b = (b', res)"
  shows "log_inv c part tr (log_change (\<lambda>s. s\<lparr>bs_fetched_at := Some now\<rparr>) off res hist) k b'"
proof -
  obtain fail ej where ej: "should_fail_wip_ack (sb_error_injector b) = (fail, ej)" by fastforce
  show ?thesis
  proof (cases fail)
    case True
    with assms ej show ?thesis by (auto simp: mark_wip_def log_change_def log_inv_injector)
  next
    case False
    then have "set_in_flight WipAck_error (\<lambda>s. s\<lparr>bs_fetched_at := Some now\<rparr>) off (b\<lparr>sb_error_injector := ej\<rparr>) = (b', res)"
      using assms(2) ej by (simp add: mark_wip_def)
    then have "log_inv c part (tr @ [on_success Quiet res]) (log_change (\<lambda>s. s\<lparr>bs_fetched_at := Some now\<rparr>) off res hist) k b'"
      by (rule settle_log [OF assms(1)]) (simp_all add: untouched_def entry_ok_def split: message_state.split)
    then show ?thesis by (cases res) (simp_all add: on_success_def)
  qed
qed

lemma fetch_log:
  assumes "log_inv c part tr hist k b" and "fetch mx now b = (b', Inr msgs)"
  shows "log_inv c part (tr @ [Delivered (map rm_offset msgs)]) (map (mark_fetched now (map rm_offset msgs)) hist) k b'"
    and "msgs = map read_of (take (max 1 mx) (filter (\<lambda>s. bs_state s = Pending) hist))"
proof -
  let ?st = "sb_state b" and ?offs = "map rm_offset msgs"
  have inv: "slots_inv part ?st" and slots: "bst_slots ?st = drop k hist" and k: "k \<le> length hist"
    using assms(1) by (simp_all add: log_inv_def)
  obtain slots' ej where take: "take_pending mx now 0 (bst_slots ?st) = (slots', msgs)"
    and b': "b' = b\<lparr>sb_error_injector := ej, sb_state := ?st\<lparr>bst_slots := slots'\<rparr>\<rparr>"
    using assms(2) by (auto simp: fetch_def Let_def split: prod.splits if_splits)
  from take_pending_spec [OF take slots_inv_distinct [OF inv]] have
    msgs: "msgs = map read_of (take (max 1 mx) (filter (\<lambda>s. bs_state s = Pending) (drop k hist)))"
    and slots': "slots' = map (mark_fetched now ?offs) (bst_slots ?st)" using slots by simp_all
  have "filter (\<lambda>s. bs_state s = Pending) (take k hist) = []"
    using assms(1) by (auto simp: filter_empty_conv log_inv_def in_set_conv_nth)
  then have pend: "filter (\<lambda>s. bs_state s = Pending) (drop k hist) = filter (\<lambda>s. bs_state s = Pending) hist"
    using filter_append [of "\<lambda>s. bs_state s = Pending" "take k hist" "drop k hist"] by simp
  with msgs show "msgs = map read_of (take (max 1 mx) (filter (\<lambda>s. bs_state s = Pending) hist))" by simp
  then have offs: "?offs = map bs_offset (take (max 1 mx) (filter (\<lambda>s. bs_state s = Pending) hist))" by simp
  have dist: "distinct (map bs_offset hist)" using log_distinct [OF assms(1)] by (simp add: distinct_offsets_def)
  have pending: "bs_state s = Pending" if s: "s \<in> set hist" "bs_offset s \<in> set ?offs" for s
  proof -
    from s(2) obtain s' where s': "s' \<in> set (take (max 1 mx) (filter (\<lambda>s. bs_state s = Pending) hist))" "bs_offset s' = bs_offset s"
      unfolding offs by auto
    then have "s' \<in> set hist" "bs_state s' = Pending" using set_take_subset by fastforce+
    with s(1) s'(2) dist show ?thesis by (metis distinct_map inj_onD)
  qed
  have "distinct ?offs"
    unfolding offs take_map [symmetric] using dist distinct_map_filter distinct_take by blast
  note count = count_list_distinct [OF this]
  have entries: "entry_ok (tr @ [Delivered ?offs]) (mark_fetched now ?offs s)" if "s \<in> set hist" for s
  proof -
    have "entry_ok tr s" using that assms(1) by (simp add: log_inv_def)
    then show ?thesis using pending [OF that] count [of "bs_offset s"]
      by (cases "bs_offset s \<in> set ?offs") (auto simp: entry_ok_def split: message_state.splits)
  qed
  have g: "bs_sequence (mark_fetched now ?offs s) = bs_sequence s \<and> bs_offset (mark_fetched now ?offs s) = bs_offset s \<and>
      bs_id (mark_fetched now ?offs s) = bs_id s" for s by (simp add: mark_fetched_def)
  have rest: "untouched (tr @ [Delivered ?offs]) o'" if "o' \<notin> bs_offset ` set hist" for o'
  proof -
    have "o' \<notin> set ?offs" using that set_take_subset unfolding offs by fastforce
    then show ?thesis using that assms(1) by (simp add: untouched_def log_inv_def)
  qed
  have acked: "mark_fetched now ?offs (hist ! i) = hist ! i" if "i < k" for i
    using pending [of "hist ! i"] that k assms(1) by (fastforce simp: log_inv_def mark_fetched_def)
  have "slots_inv part (sb_state b')" using slots_inv_map [OF inv g] unfolding b' slots' by simp
  with entries rest acked k assms(1) g show "log_inv c part (tr @ [Delivered ?offs]) (map (mark_fetched now ?offs) hist) k b'"
    unfolding log_inv_def b' slots' by (simp add: slots drop_map image_image)
qed


lemma reclaim_log:
  assumes "log_inv c part tr hist k b"
  shows "\<exists>k'. log_inv c part tr hist k' (b\<lparr>sb_state := reclaim_acked (sb_state b)\<rparr>)"
proof -
  have inv: "slots_inv part (sb_state b)" and slots: "bst_slots (sb_state b) = drop k hist" and k: "k \<le> length hist"
    and acked: "\<forall>i < k. bs_state (hist ! i) = Acked"
    using assms by (simp_all add: log_inv_def)
  from reclaim_acked_spec [OF inv] obtain j where j: "bst_slots (reclaim_acked (sb_state b)) = drop j (drop k hist)"
    "j \<le> length (drop k hist)" "\<forall>i < j. bs_state (drop k hist ! i) = Acked" "slots_inv part (reclaim_acked (sb_state b))"
    "bst_next_sequence (reclaim_acked (sb_state b)) = bst_next_sequence (sb_state b)"
    "bst_capacity (reclaim_acked (sb_state b)) = bst_capacity (sb_state b)" unfolding slots by blast
  have "bs_state (hist ! i) = Acked" if "i < j + k" for i
    using that acked j(3) [rule_format, of "i - k"] k j(2) by (cases "i < k") auto
  with assms j k show ?thesis by (intro exI [of _ "j + k"]) (simp add: log_inv_def)
qed

lemma push_log:
  assumes "log_inv c part tr hist k b" and "hm_get (bst_dedup_window (sb_state b)) ident = None"
    and "length (bst_slots (sb_state b)) < c" and "int (length hist) < 2 ^ 62"
    and "push_slot ident payload headers part (sb_state b) = (st', off)"
  shows "log_inv c part tr (log_write ident payload headers part (Inr \<lparr>wr_offset = off, wr_is_duplicate = False\<rparr>) hist) k
    (b\<lparr>sb_state := st'\<rparr>)"
proof -
  have inv: "slots_inv part (sb_state b)" and slots: "bst_slots (sb_state b) = drop k hist" and k: "k \<le> length hist"
    and nxt: "bst_next_sequence (sb_state b) = int (length hist) + 1" and cap: "bst_capacity (sb_state b) = c"
    using assms(1) by (simp_all add: log_inv_def)
  have "is_i64 (bst_next_sequence (sb_state b) + 1)" using nxt assms(4) by (simp add: is_i64_def i64_MAX_def)
  note push = push_slot_inv [OF inv assms(2) assms(3) [folded cap] this assms(5)]
  have cap': "bst_capacity st' = c" using assms(5) cap by (auto simp: push_slot_def Let_def)
  let ?new = "sb_offset_new (int (length hist) + 1) part"
  have "?new \<notin> bs_offset ` set hist"
  proof
    assume "?new \<in> bs_offset ` set hist"
    then obtain i where "i < length hist" "bs_offset (hist ! i) = ?new" by (auto simp: in_set_conv_nth)
    then show False using assms(1) by (simp add: log_inv_def sb_offset_new_def)
  qed
  then have "untouched tr ?new" using assms(1) by (simp add: log_inv_def)
  with assms(1) push cap' k nxt slots show ?thesis
    by (auto simp: log_inv_def log_write_def nth_append less_Suc_eq entry_ok_def untouched_def)
qed

lemma write_log:
  assumes "log_inv c part tr hist k b" and "async_write ident payload headers b = (b', res)" and "int (length hist) < 2 ^ 62"
  shows "\<exists>k'. log_inv c part tr (log_write ident payload headers part res hist) k' b'"
proof -
  obtain fail ej where ej: "should_fail_write (sb_error_injector b) = (fail, ej)" by fastforce
  let ?b = "b\<lparr>sb_error_injector := ej\<rparr>" and ?st = "reclaim_acked (sb_state b)"
  have b: "log_inv c part tr hist k ?b" using assms(1) by (simp add: log_inv_injector)
  have part: "sb_partition_idx b = part" using assms(1) by (simp add: log_inv_def)
  show ?thesis
  proof (cases "fail \<or> ei_force_buffer_full ej \<or> is_full (sb_state b) \<or> hm_get (bst_dedup_window (sb_state b)) ident \<noteq> None")
    case True
    then have "b' = ?b" "log_write ident payload headers part res hist = hist"
      using assms(2) ej by (auto simp: async_write_def log_write_def Let_def split: if_splits)
    with b show ?thesis by auto
  next
    case False
    obtain st'' off where push: "push_slot ident payload headers part ?st = (st'', off)" by fastforce
    from reclaim_log [OF b] obtain k' where k': "log_inv c part tr hist k' (?b\<lparr>sb_state := ?st\<rparr>)" by auto
    have cap: "bst_capacity ?st = c" using k' by (simp add: log_inv_def)
    have "hm_get (bst_dedup_window ?st) ident = None"
    proof (rule ccontr)
      assume "hm_get (bst_dedup_window ?st) ident \<noteq> None"
      then obtain s where "s \<in> set (bst_slots ?st)" "bs_id s = ident" using k' by (auto simp: log_inv_def slots_inv_def)
      moreover have "set (bst_slots ?st) \<subseteq> set (bst_slots (sb_state b))"
        using reclaim_acked_spec [of part "sb_state b"] assms(1) set_drop_subset by (fastforce simp: log_inv_def)
      ultimately have "\<exists>s \<in> set (bst_slots (sb_state b)). bs_id s = ident" by blast
      moreover have "slots_inv part (sb_state b)" using assms(1) by (simp add: log_inv_def)
      ultimately have "hm_get (bst_dedup_window (sb_state b)) ident \<noteq> None" by (auto simp: slots_inv_def)
      with False show False by simp
    qed
    note pushed = push_log [OF k', simplified, OF this _ assms(3) [simplified] push]
    show ?thesis
    proof (cases "length (bst_slots ?st) < c")
      case True
      then have "b' = ?b\<lparr>sb_state := st''\<rparr>" "res = Inr \<lparr>wr_offset = off, wr_is_duplicate = False\<rparr>"
        using False assms(2) ej push part cap by (auto simp: async_write_def Let_def)
      with pushed [OF True] show ?thesis by auto
    next
      case full: False
      then have "b' = ?b\<lparr>sb_state := ?st\<rparr>" "log_write ident payload headers part res hist = hist"
        using False assms(2) ej cap by (auto simp: async_write_def Let_def log_write_def)
      with k' show ?thesis by auto
    qed
  qed
qed

lemma log_inv_start:
  "log_inv c part [] [] 0 (simple_buffer_with_config c part limit)"
  by (simp add: log_inv_def slots_inv_def simple_buffer_with_config_def buffer_state_new_def untouched_def
    delivered_def acknowledged_def rejected_def)

lemma length_log_write: "length hist \<le> length (log_write ident payload headers part res hist)"
  by (simp add: log_write_def split: sum.split)

lemma length_log_change [simp]: "length (log_change f off res hist) = length hist"
  by (simp add: log_change_def split: sum.split)

lemma buffer_run_inv:
  assumes "buffer_run (simple_buffer_with_config c part limit) tr hist b" and "int (length hist) < 2 ^ 62"
  shows "\<exists>k. log_inv c part tr hist k b"
  using assms
proof (induction rule: buffer_run.induct)
  case run_start
  show ?case using log_inv_start by blast
next
  case (run_write tr hist b ident payload headers b' res)
  then have "int (length hist) < 2 ^ 62"
    using length_log_write [of hist ident payload headers "sb_partition_idx (simple_buffer_with_config c part limit)" res] by linarith
  with run_write obtain k where "log_inv c part tr hist k b" by blast
  with write_log [OF _ run_write.hyps(2)] \<open>int (length hist) < 2 ^ 62\<close> show ?case
    by (simp add: simple_buffer_with_config_def)
next
  case (run_resolve tr hist b pending b' res)
  then show ?case by (auto simp: resolve_def log_inv_injector split: prod.splits)
next
  case (run_fetch tr hist b mx now b' msgs)
  then show ?case using fetch_log(1) by (metis length_map)
next
  case (run_fetch_error tr hist b mx now b' e)
  then show ?case by (auto simp: fetch_def Let_def log_inv_injector split: prod.splits if_splits)
next
  case run_ack
  then show ?case using ack_log by (metis length_log_change)
next
  case run_nack
  then show ?case using nack_log by (metis length_log_change)
next
  case run_wip
  then show ?case using wip_log by (metis length_log_change log_inv_quiet)
next
  case run_inject
  then show ?case by (auto simp: log_inv_injector)
qed


section \<open>Properties\<close>

definition example_buffer :: simple_buffer where
  "example_buffer = simple_buffer_with_config 2 0 (Fin 1)"

definition example_entry :: "message_state \<Rightarrow> nat option \<Rightarrow> buffer_slot" where
  "example_entry state fetched = \<lparr>bs_payload = [7], bs_headers = [], bs_id = ''a'', bs_offset = sb_offset_new 1 0,
     bs_state = state, bs_sequence = 1, bs_fetched_at = fetched\<rparr>"

definition example_written :: simple_buffer where
  "example_written = example_buffer\<lparr>sb_state := (sb_state example_buffer)\<lparr>bst_next_sequence := 2,
     bst_slots := [example_entry Pending None], bst_offset_to_index := [(sb_offset_new 1 0, 0)],
     bst_dedup_window := [(''a'', 1)]\<rparr>\<rparr>"

definition example_fetched :: simple_buffer where
  "example_fetched = example_written\<lparr>sb_state := (sb_state example_written)\<lparr>bst_slots := [example_entry InFlight (Some 3)]\<rparr>\<rparr>"

lemma example_write:
  "buffer_run example_buffer [Quiet] [example_entry Pending None] example_written"
proof -
  have "fp_of_nat f64 0 = Fin 0" "fp_of_nat f64 2 = Fin 2" "rnd f64 0 = Fin 0"
    by (simp_all add: fp_of_nat_def)
  then have "\<not> is_full (sb_state example_buffer)"
    by (simp add: is_full_def usage_def example_buffer_def simple_buffer_with_config_def buffer_state_new_def fp_div_def)
  then have "async_write ''a'' [7] [] example_buffer =
      (example_written, Inr \<lparr>wr_offset = sb_offset_new 1 0, wr_is_duplicate = False\<rparr>)"
    by (simp add: async_write_def example_buffer_def simple_buffer_with_config_def buffer_state_new_def
      should_fail_write_def should_fail_def error_injector_default_def reclaim_acked.simps push_slot_def Let_def
      example_written_def example_entry_def sb_offset_new_def is_i64_def i64_MAX_def)
  from run_write [OF run_start this] show ?thesis
    by (simp add: log_write_def example_entry_def example_buffer_def simple_buffer_with_config_def)
qed

lemma example_fetch: "fetch 10 3 example_written = (example_fetched, Inr [read_of (example_entry Pending None)])"
  by (simp add: fetch_def example_written_def example_fetched_def example_buffer_def simple_buffer_with_config_def
    buffer_state_new_def should_fail_fetch_def should_fail_def error_injector_default_def example_entry_def read_of_def Let_def)

text \<open>
  C16. The in-memory buffer loses nothing and repeats only what was rejected: in every run of
  writes, fetches, acknowledgements, rejections and injected failures, the slots it keeps are the
  written messages from some point on, in order and within its capacity, everything it gave up was
  acknowledged, and each message was delivered once more than it was rejected, or as often when it
  is waiting, and acknowledged at most once.
\<close>

theorem buffer_delivery:
  assumes "buffer_run (simple_buffer_with_config c part limit) tr hist b" and "int (length hist) < 2 ^ 62"
  shows "\<exists>k. bst_slots (sb_state b) = drop k hist \<and> (\<forall>s \<in> set (take k hist). bs_state s = Acked) \<and>
      length (bst_slots (sb_state b)) \<le> c \<and>
      (\<forall>i < length hist. bs_offset (hist ! i) = sb_offset_new (int i + 1) part) \<and>
      (\<forall>s \<in> set hist. delivered (bs_offset s) tr = rejected (bs_offset s) tr + (if bs_state s = Pending then 0 else 1) \<and>
        acknowledged (bs_offset s) tr = (if bs_state s = Acked then 1 else 0))"
proof -
  from buffer_run_inv [OF assms] obtain k where inv: "log_inv c part tr hist k b" by blast
  then have "\<forall>s \<in> set (take k hist). bs_state s = Acked" by (auto simp: log_inv_def in_set_conv_nth)
  moreover have "delivered (bs_offset s) tr = rejected (bs_offset s) tr + (if bs_state s = Pending then 0 else 1) \<and>
      acknowledged (bs_offset s) tr = (if bs_state s = Acked then 1 else 0)" if "s \<in> set hist" for s
    using that inv by (cases "bs_state s") (auto simp: log_inv_def entry_ok_def)
  moreover have "slots_inv part (sb_state b)" "bst_capacity (sb_state b) = c" using inv by (simp_all add: log_inv_def)
  then have "length (bst_slots (sb_state b)) \<le> c" unfolding slots_inv_def by blast
  ultimately show ?thesis using inv by (auto simp: log_inv_def)
qed

theorem buffer_delivery_witness:
  "buffer_run example_buffer [Quiet] [example_entry Pending None] example_written \<and>
   delivered (sb_offset_new 1 0) [Quiet] = rejected (sb_offset_new 1 0) [Quiet] \<and>
   acknowledged (sb_offset_new 1 0) [Quiet] = 0"
  using buffer_delivery [of 2 0 "Fin 1", folded example_buffer_def, OF example_write] example_write
  by (auto simp: example_entry_def)

text \<open>
  C23. A fetch delivers the oldest waiting messages with their payloads, as many as asked for and at
  least one when any waits, whatever was reclaimed before.
\<close>

theorem buffer_fifo:
  assumes "buffer_run (simple_buffer_with_config c part limit) tr hist b" and "int (length hist) < 2 ^ 62"
    and "fetch mx now b = (b', Inr msgs)"
  shows "msgs = map read_of (take (max 1 mx) (filter (\<lambda>s. bs_state s = Pending) hist))"
  using buffer_run_inv [OF assms(1,2)] fetch_log(2) [OF _ assms(3)] by blast

theorem buffer_fifo_witness:
  "[read_of (example_entry Pending None)] =
     map read_of (take 10 (filter (\<lambda>s. bs_state s = Pending) [example_entry Pending None]))"
  using buffer_fifo [of 2 0 "Fin 1", folded example_buffer_def, OF example_write _ example_fetch] by simp

text \<open>
  Within the window of the kept messages a repeated id is answered with the offset of the first
  write and changes nothing.
\<close>

lemma buffer_dedup:
  assumes "buffer_run (simple_buffer_with_config c part limit) tr hist b" and "int (length hist) < 2 ^ 62"
    and "s \<in> set (bst_slots (sb_state b))" and "async_write (bs_id s) payload headers b = (b', Inr r)"
  shows "r = \<lparr>wr_offset = bs_offset s, wr_is_duplicate = True\<rparr> \<and> sb_state b' = sb_state b"
proof -
  from buffer_run_inv [OF assms(1,2)] obtain k where inv: "log_inv c part tr hist k b" by blast
  then have slots: "slots_inv part (sb_state b)" "sb_partition_idx b = part" by (simp_all add: log_inv_def)
  then have "hm_get (bst_dedup_window (sb_state b)) (bs_id s) = Some (bs_sequence s)"
    using assms(3) by (auto simp: slots_inv_def)
  moreover have "bs_offset s = sb_offset_new (bs_sequence s) part"
    using slots(1) assms(3) by (auto simp: slots_inv_def in_set_conv_nth)
  ultimately show ?thesis using assms(4) slots(2)
    by (auto simp: async_write_def Let_def split: prod.splits if_splits)
qed

end
