(* ===== verification/BufferAdapter.thy ===== *)
theory BufferAdapter
  imports BufferDelivery Message
begin

text \<open>
  The adapters of the in-memory buffer (\<^verbatim>\<open>inmemory/adapter.rs\<close>): messages are encoded into the payload
  of a slot and decoded again with the offset of the slot. The protobuf codec is a parameter.
\<close>

section \<open>Offsets and identifiers\<close>

text \<open>\<^verbatim>\<open>str::parse::<i64>\<close>: an optional sign and at least one digit, within the range.\<close>

definition parse_i64 :: "string \<Rightarrow> i64 option" where
  "parse_i64 s =
     (let (neg, ds) = (case s of [] \<Rightarrow> (False, [])
        | c # cs \<Rightarrow> if c = CHR ''-'' then (True, cs) else if c = CHR ''+'' then (False, cs) else (False, s));
          v = (if neg then - int (read_nat ds) else int (read_nat ds))
      in if ds \<noteq> [] \<and> list_all is_digit ds \<and> is_i64 v then Some v else None)"

definition sb_offset_from :: "offset \<Rightarrow> sb_offset" where
  "sb_offset_from off =
     (case off of
        Int_offset i \<Rightarrow> sb_offset_new (io_offset i) (io_partition_idx i)
      | String_offset s \<Rightarrow>
          sb_offset_new (case parse_i64 (so_offset s) of Some v \<Rightarrow> v | None \<Rightarrow> 0) (so_partition_idx s))"

definition offset_from_sb :: "sb_offset \<Rightarrow> offset" where
  "offset_from_sb x = Int_offset \<lparr>io_offset = sbo_sequence x, io_partition_idx = sbo_partition_idx x\<rparr>"

definition message_id_show :: "message_id \<Rightarrow> string" where
  "message_id_show i = mid_vertex_name i @ ''-'' @ mid_offset i @ ''-'' @ show_int (mid_index i)"

lemma sb_offset_roundtrip: "sb_offset_from (offset_from_sb x) = x"
  by (simp add: sb_offset_from_def offset_from_sb_def sb_offset_new_def)

section \<open>Reading and writing messages\<close>

definition convert_message ::
    "(bytes \<Rightarrow> string + proto_message) \<Rightarrow> (i64 \<Rightarrow> nat \<Rightarrow> datetime option) \<Rightarrow> buffer_message \<Rightarrow> error + message" where
  "convert_message decode from_timestamp r =
     (case decode (rm_payload r) of
        Inl e \<Rightarrow> Inl (Error_Proto e)
      | Inr proto \<Rightarrow> message_from_isb_proto from_timestamp proto (offset_from_sb (rm_offset r)))"

fun collect_results :: "('e + 'a) list \<Rightarrow> 'e + 'a list" where
  "collect_results [] = Inr []"
| "collect_results (Inl e # xs) = Inl e"
| "collect_results (Inr x # xs) = (case collect_results xs of Inl e \<Rightarrow> Inl e | Inr ys \<Rightarrow> Inr (x # ys))"

datatype isb_error =
    ISB_OffsetNotFound string | ISB_Ack string | ISB_Nack string | ISB_WipAck string | ISB_Fetch string
  | ISB_Encode string | ISB_Decode string | ISB_Pending string | ISB_Write string | ISB_BufferInfo string
  | ISB_Other string

definition isb_error_from :: "simple_buffer_error \<Rightarrow> isb_error" where
  "isb_error_from e =
     (case e of
        OffsetNotFound msg \<Rightarrow> ISB_OffsetNotFound msg
      | Ack_error msg \<Rightarrow> ISB_Ack msg
      | Nack_error msg \<Rightarrow> ISB_Nack msg
      | WipAck_error msg \<Rightarrow> ISB_WipAck msg
      | Fetch_error msg \<Rightarrow> ISB_Fetch msg
      | Pending_error msg \<Rightarrow> ISB_Pending msg
      | Write_error msg \<Rightarrow> ISB_Write msg
      | BufferFull_error \<Rightarrow> ISB_Write ''buffer full''
      | Other_error msg \<Rightarrow> ISB_Other msg)"

datatype adapter_error = Error_ISB isb_error | Core_error error

definition adapter_fetch ::
    "(bytes \<Rightarrow> string + proto_message) \<Rightarrow> (i64 \<Rightarrow> nat \<Rightarrow> datetime option) \<Rightarrow> nat \<Rightarrow> nat \<Rightarrow> simple_buffer \<Rightarrow>
     simple_buffer \<times> (adapter_error + message list)" where
  "adapter_fetch decode from_timestamp mx now b =
     (case fetch mx now b of
        (b', Inl e) \<Rightarrow> (b', Inl (Error_ISB (isb_error_from e)))
      | (b', Inr msgs) \<Rightarrow>
          (b', case collect_results (map (convert_message decode from_timestamp) msgs) of
             Inl e \<Rightarrow> Inl (Core_error e) | Inr ms \<Rightarrow> Inr ms))"

definition adapter_settle ::
    "(sb_offset \<Rightarrow> simple_buffer \<Rightarrow> simple_buffer \<times> (simple_buffer_error + unit)) \<Rightarrow> offset \<Rightarrow> simple_buffer \<Rightarrow>
     simple_buffer \<times> (adapter_error + unit)" where
  "adapter_settle op off b =
     (case op (sb_offset_from off) b of
        (b', Inl e) \<Rightarrow> (b', Inl (Error_ISB (isb_error_from e))) | (b', Inr u) \<Rightarrow> (b', Inr u))"

definition adapter_ack :: "offset \<Rightarrow> simple_buffer \<Rightarrow> simple_buffer \<times> (adapter_error + unit)" where
  "adapter_ack off b = adapter_settle ack off b"

definition adapter_nack :: "offset \<Rightarrow> simple_buffer \<Rightarrow> simple_buffer \<times> (adapter_error + unit)" where
  "adapter_nack off b = adapter_settle nack off b"

definition adapter_mark_wip :: "nat \<Rightarrow> offset \<Rightarrow> simple_buffer \<Rightarrow> simple_buffer \<times> (adapter_error + unit)" where
  "adapter_mark_wip now off b = adapter_settle (mark_wip now) off b"

text \<open>
  Writing: the answer of a full buffer is immediate; otherwise the pending write is returned, to be
  resolved later.
\<close>

definition encode_message ::
    "(proto_message \<Rightarrow> string + bytes) \<Rightarrow> (string \<Rightarrow> string) \<Rightarrow> string \<Rightarrow> message \<Rightarrow> string + bytes" where
  "encode_message encode lossy vertex_name m = encode (message_to_isb_proto lossy vertex_name m)"

definition adapter_async_write ::
    "(proto_message \<Rightarrow> string + bytes) \<Rightarrow> (string \<Rightarrow> string) \<Rightarrow> string \<Rightarrow> message \<Rightarrow> simple_buffer \<Rightarrow>
     simple_buffer \<times> (write_error + (write_error + write_result))" where
  "adapter_async_write encode lossy vertex_name m b =
     (if writer_is_full b then (b, Inl BufferFull)
      else (case encode_message encode lossy vertex_name m of
              Inl e \<Rightarrow> (b, Inl (WriteFailed e))
            | Inr encoded \<Rightarrow>
                (case async_write (message_id_show (msg_id m)) encoded [] b of (b', pending) \<Rightarrow> (b', Inr pending))))"

definition adapter_write ::
    "(proto_message \<Rightarrow> string + bytes) \<Rightarrow> (string \<Rightarrow> string) \<Rightarrow> string \<Rightarrow> message \<Rightarrow> simple_buffer \<Rightarrow>
     simple_buffer \<times> (write_error + write_result)" where
  "adapter_write encode lossy vertex_name m b =
     (case encode_message encode lossy vertex_name m of
        Inl e \<Rightarrow> (b, Inl (WriteFailed e))
      | Inr encoded \<Rightarrow> async_write (message_id_show (msg_id m)) encoded [] b)"

section \<open>Properties\<close>

text \<open>
  A message as the next vertex sees it: with the offset of the buffer and the writing vertex as the
  previous one, without the tags, watermark and options of a rejection, which are not persisted.
\<close>

definition received :: "string \<Rightarrow> sb_offset \<Rightarrow> message \<Rightarrow> message" where
  "received vertex_name off m = m\<lparr>msg_tags := None, msg_offset := offset_from_sb off, msg_watermark := None,
     msg_metadata := map_option (\<lambda>md. md\<lparr>md_previous_vertex := vertex_name\<rparr>) (msg_metadata m),
     msg_nack_options := None\<rparr>"

definition sendable :: "(string \<Rightarrow> string) \<Rightarrow> message \<Rightarrow> bool" where
  "sendable lossy m \<longleftrightarrow> representable (msg_event_time m) \<and>
     lossy (mid_vertex_name (msg_id m)) = mid_vertex_name (msg_id m) \<and> lossy (mid_offset (msg_id m)) = mid_offset (msg_id m)"

lemma collect_results_Inr: "collect_results (map (\<lambda>x. Inr (f x)) xs) = Inr (map f xs)"
  by (induction xs) simp_all

lemma convert_encoded:
  assumes "\<And>p bs. encode p = Inr bs \<Longrightarrow> decode bs = Inr p" and "decodes_timestamps from_timestamp"
    and "sendable lossy m" and "encode_message encode lossy vertex_name m = Inr (bs_payload s)"
  shows "convert_message decode from_timestamp (read_of s) = Inr (received vertex_name (bs_offset s) m)"
  using assms message_roundtrip [OF assms(2), of m lossy]
  by (simp add: convert_message_def encode_message_def sendable_def received_def read_of_def)


definition example_sent :: message where
  "example_sent = message_default 1500000000"

definition example_codec_encode :: "proto_message \<Rightarrow> string + bytes" where
  "example_codec_encode p = (if p = message_to_isb_proto (\<lambda>x. x) ''in'' example_sent then Inr [7] else Inl ''unknown'')"

definition example_codec_decode :: "bytes \<Rightarrow> string + proto_message" where
  "example_codec_decode bs = (if bs = [7] then Inr (message_to_isb_proto (\<lambda>x. x) ''in'' example_sent) else Inl ''bad'')"


end
