(* ===== verification/WindowManager.thy ===== *)
theory WindowManager
  imports AlignedWindows SessionWindows AccumulatorWindows
begin

text \<open>
  The window managers behind one interface: \<open>UnalignedWindowManager\<close>
  (\<^verbatim>\<open>numaflow-core/src/reduce/reducer/unaligned/windower.rs\<close>), which dispatches to the session and the
  accumulator manager, and \<open>WindowManager\<close> (\<^verbatim>\<open>reduce/reducer.rs\<close>), what a reduce vertex hands to its
  watermark handle. The handle relies on one promise of all of them: the end time they report is
  the least end time of what is still pending. The promise is the locale \<open>oldest_contract\<close>,
  interpreted on each manager and on the dispatching ones.
\<close>

section \<open>Dispatch\<close>

datatype unaligned_window_manager = Accumulator accumulator_manager | Session session_manager

text \<open>\<open>None\<close> is a panic of the manager.\<close>

definition unaligned_assign_windows ::
    "message \<Rightarrow> unaligned_window_manager \<Rightarrow> (unaligned_window_manager \<times> unaligned_window_message list) option" where
  "unaligned_assign_windows msg mgr =
     (case mgr of
        Accumulator m \<Rightarrow> Some (apfst Accumulator (accumulator_assign_windows msg m))
      | Session m \<Rightarrow> map_option (apfst Session) (session_assign_windows msg m))"

definition unaligned_close_windows ::
    "((string, keyed_window list) hashmap \<Rightarrow> (string, keyed_window list) hashmap) \<Rightarrow> datetime \<Rightarrow>
     unaligned_window_manager \<Rightarrow> (unaligned_window_manager \<times> unaligned_window_message list) option" where
  "unaligned_close_windows order watermark mgr =
     (case mgr of
        Accumulator m \<Rightarrow> map_option (apfst Accumulator) (accumulator_close_windows watermark m)
      | Session m \<Rightarrow> Some (apfst Session (session_close_windows order watermark m)))"

definition unaligned_delete_window :: "keyed_window \<Rightarrow> unaligned_window_manager \<Rightarrow> unaligned_window_manager" where
  "unaligned_delete_window w mgr =
     (case mgr of
        Accumulator m \<Rightarrow> Accumulator (accumulator_delete_window w m)
      | Session m \<Rightarrow> Session (session_delete_window w m))"

definition unaligned_oldest_window_end_time :: "unaligned_window_manager \<Rightarrow> datetime option" where
  "unaligned_oldest_window_end_time mgr =
     (case mgr of
        Accumulator m \<Rightarrow> accumulator_oldest_window_end_time m
      | Session m \<Rightarrow> session_oldest_window_end_time m)"

definition unaligned_active_window_count :: "unaligned_window_manager \<Rightarrow> nat" where
  "unaligned_active_window_count mgr =
     (case mgr of
        Accumulator m \<Rightarrow> accumulator_active_window_count m
      | Session m \<Rightarrow> session_active_window_count m)"

definition unaligned_closed_window_count :: "unaligned_window_manager \<Rightarrow> nat" where
  "unaligned_closed_window_count mgr =
     (case mgr of
        Accumulator m \<Rightarrow> accumulator_closed_window_count m
      | Session m \<Rightarrow> session_closed_window_count m)"

datatype window_manager = Aligned aligned_window_manager | Unaligned unaligned_window_manager

text \<open>What the watermark handle asks of a window manager.\<close>

definition oldest_end_time :: "window_manager \<Rightarrow> datetime option" where
  "oldest_end_time wmgr =
     (case wmgr of
        Aligned m \<Rightarrow> map_option win_end (oldest_window m)
      | Unaligned m \<Rightarrow> unaligned_oldest_window_end_time m)"

section \<open>The contract of the oldest end time\<close>

locale oldest_contract =
  fixes ends :: "'m \<Rightarrow> datetime set" and oldest :: "'m \<Rightarrow> datetime option" and kept :: "'m \<Rightarrow> bool"
  assumes oldest_None: "kept m \<Longrightarrow> oldest m = None \<longleftrightarrow> ends m = {}"
    and oldest_Some: "kept m \<Longrightarrow> oldest m = Some t \<Longrightarrow> t \<in> ends m \<and> (\<forall>e \<in> ends m. t \<le> e)"
begin

text \<open>One millisecond before the oldest end time is before every end time.\<close>

lemma before_every_end:
  assumes "kept m" and "oldest m = Some t" and "e \<in> ends m"
    and "w \<le> from_timestamp_millis (timestamp_millis t - 1)"
  shows "w < e"
proof -
  have "from_timestamp_millis (timestamp_millis t - 1) < from_timestamp_millis (timestamp_millis t)" by simp
  also have "\<dots> \<le> t" by (rule from_timestamp_millis_floor)
  also have "t \<le> e" using oldest_Some [OF assms(1,2)] assms(3) by blast
  finally show ?thesis using assms(4) by simp
qed

end

section \<open>The managers keep the contract\<close>

definition aligned_ends :: "aligned_window_manager \<Rightarrow> datetime set" where
  "aligned_ends m = win_end ` (set (active_windows m) \<union> set (closed_windows m))"

definition aligned_kept :: "(datetime \<Rightarrow> int \<Rightarrow> datetime option) \<Rightarrow> aligned_window_manager \<Rightarrow> bool" where
  "aligned_kept trunc m \<longleftrightarrow> aligned_inv trunc m \<and> (\<exists>wm. separated wm (active_windows m) (closed_windows m))"

interpretation aligned_oldest: oldest_contract aligned_ends "\<lambda>m. map_option win_end (oldest_window m)"
  "aligned_kept trunc" for trunc
proof
  fix m t
  assume "aligned_kept trunc m"
  then obtain wm where wm: "aligned_inv trunc m" "separated wm (active_windows m) (closed_windows m)"
    by (auto simp: aligned_kept_def)
  note least = awm.oldest_least [OF this]
  from least show "map_option win_end (oldest_window m) = None \<longleftrightarrow> aligned_ends m = {}"
    by (simp add: aligned_ends_def)
  assume "map_option win_end (oldest_window m) = Some t"
  with least show "t \<in> aligned_ends m \<and> (\<forall>e \<in> aligned_ends m. t \<le> e)"
    by (auto simp: aligned_ends_def)
qed

definition unaligned_ends :: "unaligned_window_manager \<Rightarrow> datetime set" where
  "unaligned_ends mgr = (case mgr of Accumulator m \<Rightarrow> snd ` pending m | Session m \<Rightarrow> window_ends m)"

definition unaligned_kept :: "unaligned_window_manager \<Rightarrow> bool" where
  "unaligned_kept mgr \<longleftrightarrow>
     (case mgr of Accumulator m \<Rightarrow> acc_inv m | Session m \<Rightarrow> session_inv m \<and> (\<exists>wm. session_separated wm m))"

interpretation unaligned_oldest: oldest_contract unaligned_ends unaligned_oldest_window_end_time unaligned_kept
proof
  fix mgr t
  assume kept: "unaligned_kept mgr"
  have least: "(unaligned_oldest_window_end_time mgr = None \<longleftrightarrow> unaligned_ends mgr = {}) \<and>
    (\<forall>t. unaligned_oldest_window_end_time mgr = Some t \<longrightarrow>
       t \<in> unaligned_ends mgr \<and> (\<forall>e \<in> unaligned_ends mgr. t \<le> e))"
  proof (cases mgr)
    case (Accumulator m)
    with kept oldest_pending [of m] show ?thesis
      by (force simp: unaligned_kept_def unaligned_ends_def unaligned_oldest_window_end_time_def)
  next
    case (Session m)
    with kept session_oldest_spec [of m] show ?thesis
      by (auto simp: unaligned_kept_def unaligned_ends_def unaligned_oldest_window_end_time_def)
  qed
  then show "unaligned_oldest_window_end_time mgr = None \<longleftrightarrow> unaligned_ends mgr = {}" by blast
  assume "unaligned_oldest_window_end_time mgr = Some t"
  with least show "t \<in> unaligned_ends mgr \<and> (\<forall>e \<in> unaligned_ends mgr. t \<le> e)" by blast
qed

definition pending_ends :: "window_manager \<Rightarrow> datetime set" where
  "pending_ends wmgr = (case wmgr of Aligned m \<Rightarrow> aligned_ends m | Unaligned m \<Rightarrow> unaligned_ends m)"

definition manager_kept :: "(datetime \<Rightarrow> int \<Rightarrow> datetime option) \<Rightarrow> window_manager \<Rightarrow> bool" where
  "manager_kept trunc wmgr \<longleftrightarrow>
     (case wmgr of Aligned m \<Rightarrow> aligned_kept trunc m | Unaligned m \<Rightarrow> unaligned_kept m)"

interpretation any_oldest: oldest_contract pending_ends oldest_end_time "manager_kept trunc" for trunc
proof
  fix wmgr t
  assume kept: "manager_kept trunc wmgr"
  show "oldest_end_time wmgr = None \<longleftrightarrow> pending_ends wmgr = {}"
    using kept aligned_oldest.oldest_None unaligned_oldest.oldest_None
    by (cases wmgr) (simp_all add: manager_kept_def oldest_end_time_def pending_ends_def)
  assume "oldest_end_time wmgr = Some t"
  then show "t \<in> pending_ends wmgr \<and> (\<forall>e \<in> pending_ends wmgr. t \<le> e)"
    using kept aligned_oldest.oldest_Some unaligned_oldest.oldest_Some
    by (cases wmgr) (simp_all add: manager_kept_def oldest_end_time_def pending_ends_def)
qed

end
