(* ===== verification/IsbWatermark.thy ===== *)
theory IsbWatermark
  imports WmFetcher IdleDetector Tracker WindowManager
begin

text \<open>
  The watermark handle of a vertex that reads from and writes to inter-step buffers
  (\<^verbatim>\<open>numaflow-core/src/watermark/isb.rs\<close>): it fetches the watermark of what is read, and publishes to
  every downstream stream the least watermark of what the vertex still holds. It composes the
  fetcher, the publisher, the idle detector, the tracker and the window manager. The handle's lock
  makes an operation one step. The tracker and the window manager are shared with the rest of the
  vertex, so between two steps they may be anything; the state has what they are now. The store's
  \<open>put\<close>, the protobuf encoder and the ISB writer are parameters, and a reading of the clocks is an
  argument. \<open>None\<close> is a panic.
\<close>

section \<open>State\<close>

record clock =
  clk_instant :: nat
  clk_created :: i64
  clk_utc :: datetime

record ('s, 'w) isb_watermark_state =
  iw_fetcher :: isb_fetcher
  iw_publisher :: "'s isb_publisher"
  iw_idle_manager :: "'w isb_idle"
  iw_window_manager :: "window_manager option"
  iw_latest_fetched_wm :: datetime
  iw_tracker :: tracker
  iw_from_partitions :: "u16 list"

definition isb_watermark_state_new ::
    "isb_fetcher \<Rightarrow> 's isb_publisher \<Rightarrow> 'w isb_idle \<Rightarrow> window_manager option \<Rightarrow> tracker \<Rightarrow> u16 list \<Rightarrow>
     ('s, 'w) isb_watermark_state" where
  "isb_watermark_state_new fetcher publisher idle_manager wmgr tracker from_partitions =
     \<lparr>iw_fetcher = fetcher, iw_publisher = publisher, iw_idle_manager = idle_manager,
      iw_window_manager = wmgr, iw_latest_fetched_wm = from_timestamp_millis (-1),
      iw_tracker = tracker, iw_from_partitions = from_partitions\<rparr>"

section \<open>Fetching\<close>

definition iw_fetch_watermark ::
    "int_offset \<Rightarrow> ('s, 'w) isb_watermark_state \<Rightarrow> (('s, 'w) isb_watermark_state \<times> datetime) option" where
  "iw_fetch_watermark off st =
     map_option (\<lambda>(f, watermark).
         (st\<lparr>iw_fetcher := f, iw_latest_fetched_wm := max watermark (iw_latest_fetched_wm st)\<rparr>, watermark))
       (fetch_watermark (io_offset off) (io_partition_idx off) (iw_fetcher st))"

definition iw_fetch_head_watermark :: "string option \<Rightarrow> u16 \<Rightarrow> ('s, 'w) isb_watermark_state \<Rightarrow> datetime" where
  "iw_fetch_head_watermark from_vertex q st = fetch_head_watermark from_vertex q (iw_fetcher st)"

definition iw_fetch_head_idle_wmb ::
    "u16 \<Rightarrow> ('s, 'w) isb_watermark_state \<Rightarrow> (('s, 'w) isb_watermark_state \<times> wmb option) option" where
  "iw_fetch_head_idle_wmb q st =
     (case fetch_head_idle_wmb q (iw_fetcher st) of
        None \<Rightarrow> None
      | Some (f, None) \<Rightarrow> Some (st\<lparr>iw_fetcher := f\<rparr>, None)
      | Some (f, Some w) \<Rightarrow>
          map_option (\<lambda>t. (st\<lparr>iw_fetcher := f, iw_latest_fetched_wm := max (iw_latest_fetched_wm st) t\<rparr>, Some w))
            (checked_millis (wmb_watermark w)))"

section \<open>The watermark to publish\<close>

definition get_lowest_watermark :: "('s, 'w) isb_watermark_state \<Rightarrow> datetime option" where
  "get_lowest_watermark st = checked_millis (timestamp_millis (lowest_watermark (iw_tracker st)))"

definition compute_min_watermark :: "('s, 'w) isb_watermark_state \<Rightarrow> datetime option" where
  "compute_min_watermark st =
     (case Option.bind (iw_window_manager st) oldest_end_time of
        Some oldest_window_et \<Rightarrow>
          map_option (min (iw_latest_fetched_wm st)) (checked_millis (timestamp_millis oldest_window_et - 1))
      | None \<Rightarrow> get_lowest_watermark st)"

text \<open>
  The least head watermark of the partitions, as long as all of them are idle at the offset the
  tracker knows; \<open>Some (f, None)\<close> is the early return of \<open>-1\<close>.
\<close>

fun idle_partitions ::
    "(u16, i64 option) hashmap \<Rightarrow> u16 list \<Rightarrow> i64 \<Rightarrow> isb_fetcher \<Rightarrow> (isb_fetcher \<times> i64 option) option" where
  "idle_partitions idle_offsets [] min_wm f = Some (f, Some min_wm)"
| "idle_partitions idle_offsets (q # qs) min_wm f =
     (case hm_get idle_offsets q of
        Some (Some idle_offset) \<Rightarrow>
          (case fetch_head_idle_wmb q f of
             None \<Rightarrow> None
           | Some (f', None) \<Rightarrow> Some (f', None)
           | Some (f', Some w) \<Rightarrow>
               if wmb_offset w \<noteq> idle_offset then Some (f', None)
               else idle_partitions idle_offsets qs
                      (if wmb_watermark w < min_wm then wmb_watermark w else min_wm) f')
      | _ \<Rightarrow> Some (f, None))"

definition get_idle_watermark ::
    "('s, 'w) isb_watermark_state \<Rightarrow> (('s, 'w) isb_watermark_state \<times> datetime) option" where
  "get_idle_watermark st =
     (case idle_partitions (get_idle_offset (iw_tracker st)) (iw_from_partitions st) i64_MAX (iw_fetcher st) of
        None \<Rightarrow> None
      | Some (f, None) \<Rightarrow> Some (st\<lparr>iw_fetcher := f\<rparr>, from_timestamp_millis (-1))
      | Some (f, Some min_wm) \<Rightarrow>
          map_option (\<lambda>t. (st\<lparr>iw_fetcher := f\<rparr>, t))
            (checked_millis (if min_wm = i64_MAX then -1 else min_wm)))"

section \<open>Publishing\<close>

text \<open>The third component is what was handed to the store.\<close>

definition iw_publish_watermark ::
    "(i64 \<Rightarrow> string \<Rightarrow> bytes \<Rightarrow> 's \<Rightarrow> 's \<times> (kv_error + kv_history_entry option)) \<Rightarrow>
     (proto_wmb \<Rightarrow> string + bytes) \<Rightarrow> clock \<Rightarrow> stream \<Rightarrow> int_offset \<Rightarrow> ('s, 'w) isb_watermark_state \<Rightarrow>
     (('s, 'w) isb_watermark_state \<times> wmb option) option" where
  "iw_publish_watermark kv encode clk stream off st =
     Option.bind (compute_min_watermark st) (\<lambda>min_wm.
     Option.bind (publish_watermark kv encode (clk_instant clk) (clk_created clk) stream (io_offset off)
         (timestamp_millis min_wm) False (iw_publisher st)) (\<lambda>(pub, w, _).
     map_option (\<lambda>d. (st\<lparr>iw_publisher := pub, iw_idle_manager := d\<rparr>, w))
       (reset_idle (clk_utc clk) stream (iw_idle_manager st))))"

text \<open>The loop over the idle streams; the reading of the clocks is the one of the position.\<close>

fun publish_idle_streams ::
    "(i64 \<Rightarrow> string \<Rightarrow> bytes \<Rightarrow> 's \<Rightarrow> 's \<times> (kv_error + kv_history_entry option)) \<Rightarrow>
     (proto_wmb \<Rightarrow> string + bytes) \<Rightarrow> (message \<Rightarrow> 'w \<Rightarrow> 'w \<times> (string + offset)) \<Rightarrow> (nat \<Rightarrow> clock) \<Rightarrow> nat \<Rightarrow>
     datetime \<Rightarrow> stream list \<Rightarrow> ('s, 'w) isb_watermark_state \<Rightarrow>
     (('s, 'w) isb_watermark_state \<times> (stream \<times> wmb option) list) option" where
  "publish_idle_streams kv encode write clk i min_wm [] st = Some (st, [])"
| "publish_idle_streams kv encode write clk i min_wm (s # ss) st =
     (case fetch_idle_offset write (clk_utc (clk i)) s (iw_idle_manager st) of
        None \<Rightarrow> None
      | Some (d, Inl e) \<Rightarrow> publish_idle_streams kv encode write clk (Suc i) min_wm ss (st\<lparr>iw_idle_manager := d\<rparr>)
      | Some (d, Inr off) \<Rightarrow>
          Option.bind (publish_watermark kv encode (clk_instant (clk i)) (clk_created (clk i)) s off
              (timestamp_millis min_wm) True (iw_publisher st)) (\<lambda>(pub, w, _).
          Option.bind (update_idle_metadata (clk_utc (clk i)) s off d) (\<lambda>d'.
          map_option (\<lambda>(st', ws). (st', (s, w) # ws))
            (publish_idle_streams kv encode write clk (Suc i) min_wm ss
               (st\<lparr>iw_publisher := pub, iw_idle_manager := d'\<rparr>)))))"

definition idle_min_watermark ::
    "('s, 'w) isb_watermark_state \<Rightarrow> (('s, 'w) isb_watermark_state \<times> datetime) option" where
  "idle_min_watermark st =
     Option.bind (compute_min_watermark st) (\<lambda>min_wm.
       if timestamp_millis min_wm = -1 then get_idle_watermark st else Some (st, min_wm))"

definition iw_publish_idle_watermark ::
    "(i64 \<Rightarrow> string \<Rightarrow> bytes \<Rightarrow> 's \<Rightarrow> 's \<times> (kv_error + kv_history_entry option)) \<Rightarrow>
     (proto_wmb \<Rightarrow> string + bytes) \<Rightarrow> (message \<Rightarrow> 'w \<Rightarrow> 'w \<times> (string + offset)) \<Rightarrow> datetime \<Rightarrow> (nat \<Rightarrow> clock) \<Rightarrow>
     ('s, 'w) isb_watermark_state \<Rightarrow> (('s, 'w) isb_watermark_state \<times> (stream \<times> wmb option) list) option" where
  "iw_publish_idle_watermark kv encode write utc clk st =
     Option.bind (idle_min_watermark st) (\<lambda>(st', min_wm).
       if timestamp_millis min_wm = -1 then Some (st', [])
       else publish_idle_streams kv encode write clk 0 min_wm
              (fetch_streams_needing_publish utc (iw_idle_manager st')) st')"

section \<open>The handle\<close>

definition handle_fetch_watermark ::
    "offset \<Rightarrow> ('s, 'w) isb_watermark_state \<Rightarrow> (('s, 'w) isb_watermark_state \<times> datetime) option" where
  "handle_fetch_watermark off st =
     (case off of
        Int_offset i \<Rightarrow> iw_fetch_watermark i st
      | String_offset _ \<Rightarrow> Some (st, from_timestamp_millis (-1)))"

definition handle_publish_watermark ::
    "(i64 \<Rightarrow> string \<Rightarrow> bytes \<Rightarrow> 's \<Rightarrow> 's \<times> (kv_error + kv_history_entry option)) \<Rightarrow>
     (proto_wmb \<Rightarrow> string + bytes) \<Rightarrow> clock \<Rightarrow> stream \<Rightarrow> offset \<Rightarrow> ('s, 'w) isb_watermark_state \<Rightarrow>
     (('s, 'w) isb_watermark_state \<times> wmb option) option" where
  "handle_publish_watermark kv encode clk stream off st =
     (case off of
        Int_offset i \<Rightarrow> iw_publish_watermark kv encode clk stream i st
      | String_offset _ \<Rightarrow> Some (st, None))"

section \<open>What a computed watermark promises\<close>

text \<open>
  A watermark computed from the windows is before the end of every window that is still pending and
  at most the latest watermark fetched; without windows it is at most the watermark of every message
  in flight. A watermark taken from idle heads is at most the head of every active upstream
  processor, all of which are idle in every partition.
\<close>

abbreviation processors_of :: "('s, 'w) isb_watermark_state \<Rightarrow> processor set" where
  "processors_of st \<equiv> edge_actives (fet_processor_managers (iw_fetcher st))"

definition state_ends :: "('s, 'w) isb_watermark_state \<Rightarrow> datetime set" where
  "state_ends st = (case iw_window_manager st of Some m \<Rightarrow> pending_ends m | None \<Rightarrow> {})"

definition holds_back :: "('s, 'w) isb_watermark_state \<Rightarrow> i64 \<Rightarrow> bool" where
  "holds_back st c \<longleftrightarrow>
     (\<forall>e \<in> state_ends st. from_timestamp_millis c < e) \<and>
     (state_ends st \<noteq> {} \<longrightarrow> from_timestamp_millis c \<le> iw_latest_fetched_wm st) \<and>
     (state_ends st = {} \<longrightarrow> watermarks_in_order Int_kind (iw_tracker st) \<longrightarrow>
        (\<forall>x e w. kind_of x = Int_kind \<longrightarrow> entry_of (iw_tracker st) x = Some e \<longrightarrow> te_watermark e = Some w \<longrightarrow>
           from_timestamp_millis c \<le> w))"

definition idle_upstream :: "('s, 'w) isb_watermark_state \<Rightarrow> i64 \<Rightarrow> bool" where
  "idle_upstream st c \<longleftrightarrow> (\<forall>q \<in> set (iw_from_partitions st). \<forall>p \<in> processors_of st.
     \<exists>h. idle_head q p = Some h \<and> c \<le> wmb_watermark h)"

definition safe_watermark :: "('s, 'w) isb_watermark_state \<Rightarrow> i64 \<Rightarrow> bool" where
  "safe_watermark st c \<longleftrightarrow> holds_back st c \<or>
     (\<exists>wm. compute_min_watermark st = Some wm \<and> timestamp_millis wm = -1) \<and> idle_upstream st c"

text \<open>What the rest of the vertex keeps of the shared state.\<close>

definition iw_inv ::
    "(datetime \<Rightarrow> int \<Rightarrow> datetime option) \<Rightarrow> (string \<Rightarrow> u16 list) \<Rightarrow> ('s, 'w) isb_watermark_state \<Rightarrow> bool" where
  "iw_inv trunc parts st \<longleftrightarrow> fet_inv parts (iw_fetcher st) \<and> tracker_inv Int_kind (iw_tracker st) \<and>
     (\<forall>m. iw_window_manager st = Some m \<longrightarrow> manager_kept trunc m)"

lemma checked_millis_Some [simp]:
  "checked_millis m = Some t \<longleftrightarrow> representable (from_timestamp_millis m) \<and> t = from_timestamp_millis m"
  by (auto simp: checked_millis_def)

lemma compute_min_holds_back:
  assumes "iw_inv trunc parts st" and "compute_min_watermark st = Some wm"
  shows "holds_back st (timestamp_millis wm)"
proof (cases "Option.bind (iw_window_manager st) oldest_end_time")
  case None
  then have ends: "state_ends st = {}"
    using assms(1) any_oldest.oldest_None [of trunc]
    by (auto simp: state_ends_def iw_inv_def bind_eq_None_conv split: option.splits)
  from None assms(2) have wm: "timestamp_millis wm = timestamp_millis (lowest_watermark (iw_tracker st))"
    by (auto simp: compute_min_watermark_def get_lowest_watermark_def)
  have "from_timestamp_millis (timestamp_millis wm) \<le> w"
    if "watermarks_in_order Int_kind (iw_tracker st)" "kind_of x = Int_kind"
      "entry_of (iw_tracker st) x = Some e" "te_watermark e = Some w" for x e w
    using lowest_watermark_below [OF _ that] from_timestamp_millis_floor [of "lowest_watermark (iw_tracker st)"]
      assms(1) unfolding wm iw_inv_def by force
  with ends show ?thesis by (auto simp: holds_back_def)
next
  case (Some t)
  then obtain m where m: "iw_window_manager st = Some m" "oldest_end_time m = Some t"
    by (auto simp: bind_eq_Some_conv)
  let ?t = "from_timestamp_millis (timestamp_millis t - 1)"
  from Some assms(2) have wm: "wm = min (iw_latest_fetched_wm st) ?t"
    by (auto simp: compute_min_watermark_def)
  have le: "from_timestamp_millis (timestamp_millis wm) \<le> wm" by (rule from_timestamp_millis_floor)
  have kept: "manager_kept trunc m" using assms(1) m(1) by (simp add: iw_inv_def)
  have "from_timestamp_millis (timestamp_millis wm) < e" if "e \<in> pending_ends m" for e
    using any_oldest.before_every_end [OF kept m(2) that] le wm by simp
  moreover have "pending_ends m \<noteq> {}" using any_oldest.oldest_None [OF kept] m(2) by auto
  ultimately show ?thesis using le wm m(1) by (auto simp: holds_back_def state_ends_def)
qed

lemma fetch_head_idle_wmb_spec:
  assumes "fet_inv parts f" and "fetch_head_idle_wmb q f = Some (f', r)"
  shows "fet_inv parts f'" and "fet_processor_managers f' = fet_processor_managers f"
    and "r = Some w \<Longrightarrow> p \<in> edge_actives (fet_processor_managers f) \<Longrightarrow>
      \<exists>h. idle_head q p = Some h \<and> wmb_watermark w \<le> wmb_watermark h"
proof -
  let ?A = "edge_actives (fet_processor_managers f)"
  have "\<forall>(e, ps) \<in> set (fet_processor_managers f). hm_get (fet_processor_managers f) e = Some ps"
    using assms(1) by (auto simp: fet_inv_def hm_get_iff)
  moreover have "least_wmb None {}" by (simp add: least_wmb_def)
  ultimately have spec: "fet_inv parts f'" "fet_processor_managers f' = fet_processor_managers f"
    "if \<forall>p \<in> ?A. idle_head q p \<noteq> None then least_wmb r ((the \<circ> idle_head q) ` ?A) else r = None"
    using head_idle_edges_spec [OF assms(1), of None "{}" "fet_processor_managers f" q,
        unfolded Un_empty_left] assms(2) unfolding fetch_head_idle_wmb_def by auto
  then show "fet_inv parts f'" and "fet_processor_managers f' = fet_processor_managers f" by blast+
  assume "r = Some w" and p: "p \<in> ?A"
  with spec(3) have "\<forall>p \<in> ?A. idle_head q p \<noteq> None" and "least_wmb (Some w) ((the \<circ> idle_head q) ` ?A)"
    by (auto split: if_splits)
  with p show "\<exists>h. idle_head q p = Some h \<and> wmb_watermark w \<le> wmb_watermark h"
    by (fastforce simp: least_wmb_def)
qed

lemma idle_partitions_spec:
  assumes "idle_partitions offs qs min_wm f = Some (f', r)" and "fet_inv parts f"
  shows "fet_inv parts f' \<and> fet_processor_managers f' = fet_processor_managers f \<and>
    (\<forall>c. r = Some c \<longrightarrow> c \<le> min_wm \<and>
      (\<forall>q \<in> set qs. \<forall>p \<in> edge_actives (fet_processor_managers f). \<exists>h. idle_head q p = Some h \<and> c \<le> wmb_watermark h))"
  using assms
proof (induction qs arbitrary: min_wm f)
  case (Cons q qs)
  show ?case
  proof (cases "\<exists>off f1 w. hm_get offs q = Some (Some off) \<and> fetch_head_idle_wmb q f = Some (f1, Some w) \<and> wmb_offset w = off")
    case True
    then obtain off f1 w where w: "hm_get offs q = Some (Some off)"
      "fetch_head_idle_wmb q f = Some (f1, Some w)" "wmb_offset w = off" by blast
    note spec = fetch_head_idle_wmb_spec [OF Cons.prems(2) w(2)]
    have run: "idle_partitions offs qs (if wmb_watermark w < min_wm then wmb_watermark w else min_wm) f1 = Some (f', r)"
      using Cons.prems(1) w by simp
    note IH = Cons.IH [OF run spec(1), unfolded spec(2)]
    have "c \<le> min_wm \<and> (\<forall>q' \<in> set (q # qs). \<forall>p \<in> edge_actives (fet_processor_managers f).
        \<exists>h. idle_head q' p = Some h \<and> c \<le> wmb_watermark h)" if r: "r = Some c" for c
    proof -
      from IH r have c: "c \<le> (if wmb_watermark w < min_wm then wmb_watermark w else min_wm)" by blast
      then have "c \<le> min_wm" and cw: "c \<le> wmb_watermark w" by (simp_all split: if_splits)
      moreover have "\<exists>h. idle_head q p = Some h \<and> c \<le> wmb_watermark h"
        if "p \<in> edge_actives (fet_processor_managers f)" for p
        using spec(3) [OF refl that] cw by force
      ultimately show ?thesis using IH r by simp
    qed
    with IH show ?thesis by blast
  next
    case False
    then show ?thesis using Cons.prems fetch_head_idle_wmb_spec(1,2) [OF Cons.prems(2)]
      by (auto split: option.splits if_splits)
  qed
qed auto

lemma idle_min_watermark_frame:
  assumes "iw_inv trunc parts st" and "idle_min_watermark st = Some (st', wm)"
  shows "iw_inv trunc parts st' \<and> iw_publisher st' = iw_publisher st"
proof (cases "st' = st")
  case False
  with assms(2) obtain f r where f: "idle_partitions (get_idle_offset (iw_tracker st)) (iw_from_partitions st) i64_MAX
      (iw_fetcher st) = Some (f, r)" and st': "st' = st\<lparr>iw_fetcher := f\<rparr>"
    by (auto simp: idle_min_watermark_def get_idle_watermark_def bind_eq_Some_conv split: option.splits if_splits)
  have "fet_inv parts f" using idle_partitions_spec [OF f] assms(1) by (simp add: iw_inv_def)
  with assms(1) st' show ?thesis by (simp add: iw_inv_def)
qed (use assms(1) in simp)

text \<open>Whatever watermark a tick works with is safe in the state it starts from.\<close>

lemma idle_min_watermark_safe:
  assumes "iw_inv trunc parts st" and "idle_min_watermark st = Some (st', wm)" and "timestamp_millis wm \<noteq> -1"
  shows "safe_watermark st (timestamp_millis wm)" and "iw_inv trunc parts st'"
    and "iw_publisher st' = iw_publisher st"
proof -
  from assms(2) obtain m where m: "compute_min_watermark st = Some m"
    and next_step: "(if timestamp_millis m = -1 then get_idle_watermark st else Some (st, m)) = Some (st', wm)"
    by (auto simp: idle_min_watermark_def bind_eq_Some_conv)
  have inv: "fet_inv parts (iw_fetcher st)" using assms(1) by (simp add: iw_inv_def)
  have "safe_watermark st (timestamp_millis wm) \<and> iw_inv trunc parts st' \<and> iw_publisher st' = iw_publisher st"
  proof (cases "timestamp_millis m = -1")
    case True
    then have "get_idle_watermark st = Some (st', wm)" using next_step by simp
    then obtain f c where f: "idle_partitions (get_idle_offset (iw_tracker st)) (iw_from_partitions st) i64_MAX
        (iw_fetcher st) = Some (f, Some c)" and wm: "c \<noteq> i64_MAX" "wm = from_timestamp_millis c"
      and st': "st' = st\<lparr>iw_fetcher := f\<rparr>"
      using assms(3) by (auto simp: get_idle_watermark_def split: option.splits if_splits)
    from idle_partitions_spec [OF f inv] wm m True assms(1) show ?thesis
      by (auto simp: safe_watermark_def idle_upstream_def iw_inv_def st')
  next
    case False
    with next_step m compute_min_holds_back [OF assms(1) m] assms(1) show ?thesis
      by (simp add: safe_watermark_def)
  qed
  then show "safe_watermark st (timestamp_millis wm)" and "iw_inv trunc parts st'"
    and "iw_publisher st' = iw_publisher st" by blast+
qed

section \<open>Runs\<close>

text \<open>
  A publication: the stream, the watermark computed for it, the state it was computed in and the
  message handed to the store, if the delay had passed.
\<close>

record ('s, 'w) publication =
  pn_stream :: stream
  pn_computed :: i64
  pn_state :: "('s, 'w) isb_watermark_state"
  pn_written :: "wmb option"

text \<open>
  The steps of the handle, in any order. Between them the rest of the vertex changes the tracker and
  the window manager, and the watchers change the processors, as long as the invariant is kept.
\<close>

inductive iw_run ::
    "(i64 \<Rightarrow> string \<Rightarrow> bytes \<Rightarrow> 's \<Rightarrow> 's \<times> (kv_error + kv_history_entry option)) \<Rightarrow>
     (proto_wmb \<Rightarrow> string + bytes) \<Rightarrow> (message \<Rightarrow> 'w \<Rightarrow> 'w \<times> (string + offset)) \<Rightarrow>
     (('s, 'w) isb_watermark_state \<Rightarrow> bool) \<Rightarrow> ('s, 'w) isb_watermark_state \<Rightarrow>
     ('s, 'w) publication list \<Rightarrow> ('s, 'w) isb_watermark_state \<Rightarrow> bool"
  for kv encode wr keep where
  iw_start: "keep st \<Longrightarrow> iw_run kv encode wr keep st [] st"
| iw_fetch: "iw_run kv encode wr keep st0 log st \<Longrightarrow> iw_fetch_watermark off st = Some (st', wm) \<Longrightarrow> keep st' \<Longrightarrow>
    iw_run kv encode wr keep st0 log st'"
| iw_idle_fetch: "iw_run kv encode wr keep st0 log st \<Longrightarrow> iw_fetch_head_idle_wmb q st = Some (st', w) \<Longrightarrow> keep st' \<Longrightarrow>
    iw_run kv encode wr keep st0 log st'"
| iw_publish: "iw_run kv encode wr keep st0 log st \<Longrightarrow> compute_min_watermark st = Some wm \<Longrightarrow>
    iw_publish_watermark kv encode clk s off st = Some (st', w) \<Longrightarrow>
    iw_run kv encode wr keep st0
      (log @ [\<lparr>pn_stream = s, pn_computed = timestamp_millis wm, pn_state = st, pn_written = w\<rparr>]) st'"
| iw_tick: "iw_run kv encode wr keep st0 log st \<Longrightarrow> idle_min_watermark st = Some (st1, wm) \<Longrightarrow>
    iw_publish_idle_watermark kv encode wr utc clks st = Some (st', ws) \<Longrightarrow>
    iw_run kv encode wr keep st0
      (log @ map (\<lambda>(s, w). \<lparr>pn_stream = s, pn_computed = timestamp_millis wm, pn_state = st, pn_written = w\<rparr>) ws) st'"
| iw_shared: "iw_run kv encode wr keep st0 log st \<Longrightarrow>
    keep (st\<lparr>iw_fetcher := f, iw_tracker := tr, iw_window_manager := mgr\<rparr>) \<Longrightarrow>
    iw_run kv encode wr keep st0 log (st\<lparr>iw_fetcher := f, iw_tracker := tr, iw_window_manager := mgr\<rparr>)"

section \<open>Publications are explained\<close>

definition key_of :: "stream \<Rightarrow> string \<times> u16" where
  "key_of s = (stream_vertex s, stream_partition s)"

text \<open>The value \<open>c\<close> was computed for the stream earlier in the log, and was safe then.\<close>

definition explains :: "('s, 'w) publication list \<Rightarrow> string \<times> u16 \<Rightarrow> i64 \<Rightarrow> bool" where
  "explains log k c \<longleftrightarrow> c = -1 \<or>
     (\<exists>e \<in> set log. key_of (pn_stream e) = k \<and> pn_computed e = c \<and> safe_watermark (pn_state e) c)"

definition explained :: "('s, 'w) publication list \<Rightarrow> 's isb_publisher \<Rightarrow> bool" where
  "explained log pub \<longleftrightarrow>
     (\<forall>v q lp. state_of pub v q = Some lp \<longrightarrow> explains log (v, q) (lp_watermark lp)) \<and>
     (\<forall>before e after w. log = before @ e # after \<longrightarrow> pn_written e = Some w \<longrightarrow>
        explains (before @ [e]) (key_of (pn_stream e)) (wmb_watermark w))"

lemma explains_append: "explains log k c \<Longrightarrow> explains (log @ es) k c"
  by (auto simp: explains_def)

lemma explained_snoc:
  assumes "explained log pub"
    and "publish_watermark_with_processor_count kv encode now created s off c idle pc pub = Some (pub', w, r)"
    and "safe_watermark st c"
  shows "explained (log @ [\<lparr>pn_stream = s, pn_computed = c, pn_state = st, pn_written = w\<rparr>]) pub'"
proof (rule publish_cases [OF assms(2)])
  let ?e = "\<lparr>pn_stream = s, pn_computed = c, pn_state = st, pn_written = w\<rparr>"
  fix lp lp' bo bw rg
  assume lp: "state_of pub (stream_vertex s) (stream_partition s) = Some lp"
    and upd: "lp_update off c lp = (lp', bo, bw, rg)"
    and w: "w = (if delay_crossed now lp' then Some \<lparr>wmb_idle = idle, wmb_offset = bo,
      wmb_watermark = bw, wmb_partition = stream_partition s, wmb_processor_count = pc\<rparr> else None)"
    and st': "\<And>v q. state_of pub' v q = (if v = stream_vertex s \<and> q = stream_partition s
      then Some (if delay_crossed now lp' then mark_published now lp' else lp') else state_of pub v q)"
  have old: "explains log (key_of s) (lp_watermark lp)"
    using assms(1) lp by (auto simp: explained_def key_of_def)
  have new: "explains (log @ [?e]) (key_of s) (lp_watermark lp')"
  proof (cases "c \<le> lp_watermark lp")
    case True
    then have "lp_watermark lp' = lp_watermark lp" using lp_update_fields [OF upd] by simp
    with old show ?thesis by (simp add: explains_append)
  next
    case False
    then have "lp_watermark lp' = c" using lp_update_fields [OF upd] by simp
    with assms(3) show ?thesis by (simp add: explains_def)
  qed
  have "explains (log @ [?e]) (v, q) (lp_watermark l)" if "state_of pub' v q = Some l" for v q l
    using that new assms(1) st' explains_append [of log "(v, q)" "lp_watermark l" "[?e]"]
    by (auto simp: explained_def key_of_def mark_published_def split: if_splits)
  moreover have "explains (before @ [e]) (key_of (pn_stream e)) (wmb_watermark x)"
    if split: "log @ [?e] = before @ e # after" and x: "pn_written e = Some x" for before e after x
  proof (cases after rule: rev_cases)
    case Nil
    with split have "before = log" "e = ?e" by simp_all
    with x w new lp_update_fields [OF upd] show ?thesis by (auto split: if_splits)
  next
    case (snoc ys y)
    with split have "log = before @ e # ys" by simp
    with assms(1) x show ?thesis unfolding explained_def by blast
  qed
  ultimately show ?thesis unfolding explained_def by blast
qed

lemma explained_idle_streams:
  assumes "publish_idle_streams kv encode wr clks i wm ss st = Some (st', ws)"
    and "explained log (iw_publisher st)" and "safe_watermark snap (timestamp_millis wm)"
  shows "explained (log @ map (\<lambda>(s, w). \<lparr>pn_stream = s, pn_computed = timestamp_millis wm, pn_state = snap,
      pn_written = w\<rparr>) ws) (iw_publisher st') \<and> iw_fetcher st' = iw_fetcher st \<and> iw_tracker st' = iw_tracker st \<and>
    iw_window_manager st' = iw_window_manager st"
  using assms(1,2)
proof (induction ss arbitrary: i st ws log)
  case (Cons s ss)
  from Cons.prems(1) obtain d r where d: "fetch_idle_offset wr (clk_utc (clks i)) s (iw_idle_manager st) = Some (d, r)"
    by (auto split: option.splits)
  show ?case
  proof (cases r)
    case (Inl e)
    with Cons.prems d have "publish_idle_streams kv encode wr clks (Suc i) wm ss (st\<lparr>iw_idle_manager := d\<rparr>) = Some (st', ws)"
      by simp
    from Cons.IH [OF this] Cons.prems(2) show ?thesis by simp
  next
    case (Inr off)
    with Cons.prems(1) d obtain pub w x d' ws' where
      pub: "publish_watermark kv encode (clk_instant (clks i)) (clk_created (clks i)) s off (timestamp_millis wm) True
        (iw_publisher st) = Some (pub, w, x)"
      and rest: "publish_idle_streams kv encode wr clks (Suc i) wm ss (st\<lparr>iw_publisher := pub, iw_idle_manager := d'\<rparr>) =
        Some (st', ws')" and ws: "ws = (s, w) # ws'"
      by (auto simp: bind_eq_Some_conv)
    note one = explained_snoc [OF Cons.prems(2) pub [unfolded publish_watermark_def] assms(3)]
    from Cons.IH [OF rest, of "log @ [_]"] one ws show ?thesis by simp
  qed
qed simp

lemma fetch_keeps:
  "iw_fetch_watermark off st = Some (st', wm) \<Longrightarrow> iw_publisher st' = iw_publisher st"
  "iw_fetch_head_idle_wmb q st = Some (st', w) \<Longrightarrow> iw_publisher st' = iw_publisher st"
  by (auto simp: iw_fetch_watermark_def iw_fetch_head_idle_wmb_def split: option.splits)

lemma iw_run_explained:
  assumes "iw_run kv encode wr (iw_inv trunc parts) st0 log st"
    and "\<And>v q lp. state_of (iw_publisher st0) v q = Some lp \<Longrightarrow> lp_watermark lp = -1"
  shows "explained log (iw_publisher st) \<and> iw_inv trunc parts st"
  using assms
proof (induction rule: iw_run.induct)
  case (iw_publish st0 log st wm clk s off st' w)
  then have IH: "explained log (iw_publisher st)" "iw_inv trunc parts st" by blast+
  from iw_publish.hyps(2,3) obtain pub x d where
    pub: "publish_watermark kv encode (clk_instant clk) (clk_created clk) s (io_offset off) (timestamp_millis wm)
      False (iw_publisher st) = Some (pub, w, x)" and st': "st' = st\<lparr>iw_publisher := pub, iw_idle_manager := d\<rparr>"
    by (auto simp: iw_publish_watermark_def bind_eq_Some_conv)
  have "safe_watermark st (timestamp_millis wm)"
    using compute_min_holds_back [OF IH(2) iw_publish.hyps(2)] by (simp add: safe_watermark_def)
  from explained_snoc [OF IH(1) pub [unfolded publish_watermark_def] this] IH(2) st' show ?case
    by (simp add: iw_inv_def)
next
  case (iw_tick st0 log st st1 wm utc clks st' ws)
  then have IH: "explained log (iw_publisher st)" "iw_inv trunc parts st" by blast+
  have tick: "(if timestamp_millis wm = -1 then Some (st1, []) else publish_idle_streams kv encode wr clks 0 wm
      (fetch_streams_needing_publish utc (iw_idle_manager st1)) st1) = Some (st', ws)"
    using iw_tick.hyps(2,3) by (simp add: iw_publish_idle_watermark_def)
  show ?case
  proof (cases "timestamp_millis wm = -1")
    case True
    with tick idle_min_watermark_frame [OF IH(2) iw_tick.hyps(2)] IH(1) show ?thesis by simp
  next
    case False
    note safe = idle_min_watermark_safe [OF IH(2) iw_tick.hyps(2) False]
    from False tick have "publish_idle_streams kv encode wr clks 0 wm
        (fetch_streams_needing_publish utc (iw_idle_manager st1)) st1 = Some (st', ws)" by simp
    from explained_idle_streams [OF this _ safe(1)] safe IH(1) show ?thesis by (simp add: iw_inv_def)
  qed
qed (auto simp: fetch_keeps explained_def explains_def)

section \<open>Properties\<close>

text \<open>A reduce vertex with one open session that ends at 60 ms and a latest watermark of 20 ms.\<close>

definition example_iw :: "tracker \<Rightarrow> (simple_kv, unit) isb_watermark_state" where
  "example_iw t = (isb_watermark_state_new example_fetcher example_publisher example_idle
     (Some (Unaligned (Session (example_session [example_window 50 60])))) t [0])
     \<lparr>iw_latest_fetched_wm := from_timestamp_millis 20\<rparr>"

lemma example_oldest: "session_oldest_window_end_time (example_session [example_window 50 60]) = Some (from_timestamp_millis 60)"
  by (simp add: session_oldest_window_end_time_def example_session_def bt_first_def iter_min_def map_filter_simps)

lemma example_compute_min: "compute_min_watermark (example_iw t) = Some (from_timestamp_millis 20)"
  by (simp add: compute_min_watermark_def example_iw_def isb_watermark_state_new_def oldest_end_time_def
      unaligned_oldest_window_end_time_def example_oldest checked_millis_def representable_def from_timestamp_millis_def
      timestamp_millis_def)

lemma example_iw_inv: "iw_inv trunc (\<lambda>_. [0]) (example_iw (tracker_new False))"
proof -
  have "session_inv (example_session [example_window 50 60])"
    by (rule example_session_inv) (simp_all add: proper_def)
  moreover have "session_separated 0 (example_session [example_window 50 60])"
    by (simp add: session_separated_def example_windows_of from_timestamp_millis_def) (simp add: example_session_def)
  ultimately show ?thesis
    by (auto simp: iw_inv_def example_iw_def isb_watermark_state_new_def example_fetcher_inv tracker_inv_new
        manager_kept_def unaligned_kept_def)
qed


lemma example_publish:
  "\<exists>st' w. iw_publish_watermark kv_put byte_encode \<lparr>clk_instant = 150, clk_created = 0, clk_utc = 0\<rparr> example_stream
     \<lparr>io_offset = 5, io_partition_idx = 0\<rparr> (example_iw t) = Some (st', Some w) \<and> wmb_watermark w = 20"
  by (simp add: iw_publish_watermark_def example_compute_min)
    (simp add: example_iw_def isb_watermark_state_new_def publish_watermark_def example_publisher_def example_bucket_def
      example_stream_def example_idle_def isb_idle_new_def reset_idle_def update_idle_state_def
      isb_publisher_new_def bucket_state_def last_published_default_def lp_update_def
      publish_watermark_with_processor_count_def delay_crossed_def mark_published_def
      wmb_to_bytes_def byte_encode_def kv_put_def Let_def split_beta decrement_counter_def)


text \<open>
  The messages in flight that are not in a window yet are not looked at while a window is open. A
  message with a watermark of 5 ms that has been read but not assigned opens a session that ends at
  15 ms, although 20 ms is published while it is in flight.
\<close>

lemma min_watermark_ignores_in_flight:
  "let msg = (example_msg 5)\<lparr>msg_watermark := Some (from_timestamp_millis 5)\<rparr>; t = fst (tr_insert msg (tracker_new False))
   in lowest_watermark t = from_timestamp_millis 5 \<and>
      compute_min_watermark (example_iw t) = Some (from_timestamp_millis 20) \<and>
      (\<exists>m' ops. session_assign_windows msg (example_session [example_window 50 60]) = Some (m', ops) \<and>
        from_timestamp_millis 15 \<in> window_ends m')"
proof -
  let ?msg = "(example_msg 5)\<lparr>msg_watermark := Some (from_timestamp_millis 5)\<rparr>"
  have "\<exists>m' ops. session_assign_windows ?msg (example_session [example_window 50 60]) = Some (m', ops) \<and>
      example_window 5 15 \<in> set (windows_of ''a'' m')"
    by (simp add: session_eval)
  moreover have "lowest_watermark (fst (tr_insert ?msg (tracker_new False))) = from_timestamp_millis 5"
    by (simp add: tr_insert_def tracker_new_def example_msg_def message_default_def bm_contains_def Let_def
        lowest_watermark_def iter_min_def map_filter_simps bm_first_def)
  ultimately show ?thesis
    unfolding Let_def example_compute_min window_ends_def by (force intro: rev_image_eqI)
qed

end
