(* ===== verification/SourceWatermark.thy ===== *)
theory SourceWatermark
  imports IsbWatermark
begin

text \<open>
  The watermark handle of a source vertex (\<^verbatim>\<open>numaflow-core/src/watermark/source.rs\<close>) and its publisher
  (\<^verbatim>\<open>source/source_wm_publisher.rs\<close>). A source publishes per input partition: the least event time of
  each batch less the configured delay goes to the source's own store, from which the source
  watermark of all partitions is fetched and published to the streams of the next vertices. The
  stores are shared by the publishers of all partitions, so a publisher works on the state the
  source has for them. The handle's lock makes an operation one step; \<open>clks\<close> gives the clock reading
  of the position in a loop. \<open>None\<close> is a panic.
\<close>

section \<open>The publisher\<close>

record source_entry =
  swe_partition_id :: u16
  swe_event_time_ms :: i64

definition source_entry_of :: "message \<Rightarrow> source_entry" where
  "source_entry_of msg =
     \<lparr>swe_partition_id = (case msg_offset msg of
        Int_offset i \<Rightarrow> io_partition_idx i | String_offset s \<Rightarrow> so_partition_idx s),
      swe_event_time_ms = timestamp_millis (msg_event_time msg)\<rparr>"

record 's source_publisher =
  swp_max_delay :: duration
  swp_source_config :: bucket_config
  swp_to_vertex_configs :: "bucket_config list"
  swp_publishers :: "(string, 's isb_publisher) hashmap"
  swp_processor_count :: "u32 option"
  swp_source_ot_stores :: "(string, 's) hashmap"
  swp_isb_ot_stores :: "(string, 's) hashmap"

text \<open>\<open>create\<close> is the factory's \<^verbatim>\<open>create_kv_store\<close>.\<close>

fun create_ot_stores ::
    "(string \<Rightarrow> string + 's) \<Rightarrow> bucket_config list \<Rightarrow> (string, 's) hashmap \<Rightarrow> string + (string, 's) hashmap" where
  "create_ot_stores create [] stores = Inr stores"
| "create_ot_stores create (config # configs) stores =
     (case create (bc_ot_bucket config) of
        Inl e \<Rightarrow> Inl e
      | Inr ot_store \<Rightarrow> create_ot_stores create configs (hm_insert (bc_vertex config) ot_store stores))"

definition source_publisher_new ::
    "(string \<Rightarrow> string + 's) \<Rightarrow> duration \<Rightarrow> bucket_config \<Rightarrow> bucket_config list \<Rightarrow> string + 's source_publisher" where
  "source_publisher_new create max_delay source_config to_vertex_configs =
     (case create_ot_stores create [source_config] [] of
        Inl e \<Rightarrow> Inl e
      | Inr source_ot_stores \<Rightarrow>
          (case create_ot_stores create to_vertex_configs [] of
             Inl e \<Rightarrow> Inl e
           | Inr isb_ot_stores \<Rightarrow>
               Inr \<lparr>swp_max_delay = max_delay, swp_source_config = source_config,
                 swp_to_vertex_configs = to_vertex_configs, swp_publishers = [], swp_processor_count = None,
                 swp_source_ot_stores = source_ot_stores, swp_isb_ot_stores = isb_ot_stores\<rparr>))"

definition set_processor_count :: "u32 \<Rightarrow> 's source_publisher \<Rightarrow> 's source_publisher" where
  "set_processor_count n sp = sp\<lparr>swp_processor_count := Some n\<rparr>"

definition source_processor_name :: "'s source_publisher \<Rightarrow> u16 \<Rightarrow> string" where
  "source_processor_name sp q =
     ''source-'' @ bc_vertex (swp_source_config sp) @ ''-'' @ show_nat (unat q)"

definition isb_processor_name :: "'s source_publisher \<Rightarrow> u16 \<Rightarrow> string" where
  "isb_processor_name sp q = bc_vertex (swp_source_config sp) @ ''-'' @ show_nat (unat q)"

text \<open>A publisher that is not there yet is created, for the source's own store or for the next vertices.\<close>

definition ensure_source_publisher :: "nat \<Rightarrow> u16 \<Rightarrow> 's source_publisher \<Rightarrow> 's source_publisher" where
  "ensure_source_publisher now q sp =
     (let name = source_processor_name sp q
      in if hm_contains name (swp_publishers sp) then sp
         else sp\<lparr>swp_publishers := hm_insert name
                (isb_publisher_new now name (swp_source_ot_stores sp) [swp_source_config sp] True) (swp_publishers sp)\<rparr>)"

definition ensure_isb_publisher :: "nat \<Rightarrow> u16 \<Rightarrow> 's source_publisher \<Rightarrow> 's source_publisher" where
  "ensure_isb_publisher now q sp =
     (let name = isb_processor_name sp q
      in if hm_contains name (swp_publishers sp) then sp
         else sp\<lparr>swp_publishers := hm_insert name
                (isb_publisher_new now name (swp_isb_ot_stores sp) (swp_to_vertex_configs sp) True) (swp_publishers sp)\<rparr>)"

definition publish_source_watermark ::
    "(i64 \<Rightarrow> string \<Rightarrow> bytes \<Rightarrow> 's \<Rightarrow> 's \<times> (kv_error + kv_history_entry option)) \<Rightarrow>
     (proto_wmb \<Rightarrow> string + bytes) \<Rightarrow> clock \<Rightarrow> u16 \<Rightarrow> i64 \<Rightarrow> bool \<Rightarrow> 's source_publisher \<Rightarrow>
     ('s source_publisher \<times> wmb option) option" where
  "publish_source_watermark kv encode clk q watermark idle sp0 =
     (let name = source_processor_name sp0 q;
          sp = ensure_source_publisher (clk_instant clk) q sp0;
          watermark = (if \<not> idle \<and> watermark \<noteq> -1 then as_i64 (watermark - dur_millis (swp_max_delay sp)) else watermark)
      in Option.bind (hm_get (swp_publishers sp) name) (\<lambda>pub.
         map_option (\<lambda>(pub', w, _).
             (sp\<lparr>swp_publishers := hm_insert name pub' (swp_publishers sp),
                 swp_source_ot_stores := pub_ot_stores pub'\<rparr>, w))
           (publish_watermark_with_processor_count kv encode (clk_instant clk) (clk_created clk)
              \<lparr>stream_name = ''source'', stream_vertex = bc_vertex (swp_source_config sp), stream_partition = 0\<rparr>
              (clk_utc clk div 1000) watermark idle (swp_processor_count sp)
              (pub\<lparr>pub_ot_stores := swp_source_ot_stores sp\<rparr>))))"

definition publish_isb_watermark ::
    "(i64 \<Rightarrow> string \<Rightarrow> bytes \<Rightarrow> 's \<Rightarrow> 's \<times> (kv_error + kv_history_entry option)) \<Rightarrow>
     (proto_wmb \<Rightarrow> string + bytes) \<Rightarrow> clock \<Rightarrow> u16 \<Rightarrow> stream \<Rightarrow> i64 \<Rightarrow> i64 \<Rightarrow> bool \<Rightarrow> 's source_publisher \<Rightarrow>
     ('s source_publisher \<times> wmb option) option" where
  "publish_isb_watermark kv encode clk input_partition stream off watermark idle sp0 =
     (let name = isb_processor_name sp0 input_partition;
          sp = ensure_isb_publisher (clk_instant clk) input_partition sp0
      in Option.bind (hm_get (swp_publishers sp) name) (\<lambda>pub.
         map_option (\<lambda>(pub', w, _).
             (sp\<lparr>swp_publishers := hm_insert name pub' (swp_publishers sp),
                 swp_isb_ot_stores := pub_ot_stores pub'\<rparr>, w))
           (publish_watermark kv encode (clk_instant clk) (clk_created clk) stream off watermark idle
              (pub\<lparr>pub_ot_stores := swp_isb_ot_stores sp\<rparr>))))"

definition initialize_publishers :: "nat \<Rightarrow> u16 list \<Rightarrow> 's source_publisher \<Rightarrow> 's source_publisher" where
  "initialize_publishers now active_partitions sp =
     (let valid = map (source_processor_name sp) active_partitions @ map (isb_processor_name sp) active_partitions
      in fold (\<lambda>q sp. ensure_isb_publisher now q (ensure_source_publisher now q sp)) active_partitions
           (sp\<lparr>swp_publishers := hm_retain (\<lambda>name _. name \<in> set valid) (swp_publishers sp)\<rparr>))"

section \<open>The state of the handle\<close>

record ('s, 'w) source_watermark_state =
  sws_publisher :: "'s source_publisher"
  sws_fetcher :: processors
  sws_isb_idle_manager :: "'w isb_idle"
  sws_source_idle_manager :: source_idle
  sws_active_input_partitions :: "(u16, bool) hashmap"
  sws_tracker :: tracker

definition source_watermark_state_new ::
    "'s source_publisher \<Rightarrow> processors \<Rightarrow> 'w isb_idle \<Rightarrow> source_idle \<Rightarrow> tracker \<Rightarrow> ('s, 'w) source_watermark_state" where
  "source_watermark_state_new publisher fetcher isb_idle_manager source_idle_manager tracker =
     \<lparr>sws_publisher = publisher, sws_fetcher = fetcher, sws_isb_idle_manager = isb_idle_manager,
      sws_source_idle_manager = source_idle_manager, sws_active_input_partitions = [], sws_tracker = tracker\<rparr>"

text \<open>The least event time of every partition of a batch.\<close>

definition lowest_event_times :: "source_entry list \<Rightarrow> (u16, i64) hashmap" where
  "lowest_event_times batch =
     fold (\<lambda>entry acc.
         hm_insert (swe_partition_id entry)
           (case hm_get acc (swe_partition_id entry) of
              None \<Rightarrow> swe_event_time_ms entry
            | Some lowest \<Rightarrow> if swe_event_time_ms entry < lowest then swe_event_time_ms entry else lowest) acc)
       batch []"

fun publish_batch ::
    "(i64 \<Rightarrow> string \<Rightarrow> bytes \<Rightarrow> 's \<Rightarrow> 's \<times> (kv_error + kv_history_entry option)) \<Rightarrow>
     (proto_wmb \<Rightarrow> string + bytes) \<Rightarrow> (nat \<Rightarrow> clock) \<Rightarrow> nat \<Rightarrow> (u16 \<times> i64) list \<Rightarrow> ('s, 'w) source_watermark_state \<Rightarrow>
     (('s, 'w) source_watermark_state \<times> (u16 \<times> wmb option) list) option" where
  "publish_batch kv encode clks i [] st = Some (st, [])"
| "publish_batch kv encode clks i ((q, event_time) # rest) st =
     Option.bind (publish_source_watermark kv encode (clks i) q event_time False (sws_publisher st)) (\<lambda>(sp, w).
     map_option (\<lambda>(st', ws). (st', (q, w) # ws))
       (publish_batch kv encode clks (Suc i) rest
          (st\<lparr>sws_publisher := sp,
              sws_active_input_partitions := hm_insert q True (sws_active_input_partitions st),
              sws_source_idle_manager := si_reset (clk_utc (clks i)) q (sws_source_idle_manager st)\<rparr>)))"

definition generate_and_publish_source_watermark ::
    "(i64 \<Rightarrow> string \<Rightarrow> bytes \<Rightarrow> 's \<Rightarrow> 's \<times> (kv_error + kv_history_entry option)) \<Rightarrow>
     (proto_wmb \<Rightarrow> string + bytes) \<Rightarrow> (nat \<Rightarrow> clock) \<Rightarrow> source_entry list \<Rightarrow> ('s, 'w) source_watermark_state \<Rightarrow>
     (('s, 'w) source_watermark_state \<times> (u16 \<times> wmb option) list) option" where
  "generate_and_publish_source_watermark kv encode clks batch st =
     publish_batch kv encode clks 0 (lowest_event_times batch) st"

definition publish_source_isb_watermark ::
    "(i64 \<Rightarrow> string \<Rightarrow> bytes \<Rightarrow> 's \<Rightarrow> 's \<times> (kv_error + kv_history_entry option)) \<Rightarrow>
     (proto_wmb \<Rightarrow> string + bytes) \<Rightarrow> clock \<Rightarrow> stream \<Rightarrow> int_offset \<Rightarrow> u16 \<Rightarrow> ('s, 'w) source_watermark_state \<Rightarrow>
     (('s, 'w) source_watermark_state \<times> wmb option) option" where
  "publish_source_isb_watermark kv encode clk stream off input_partition st =
     Option.bind (publish_isb_watermark kv encode clk input_partition stream (io_offset off)
         (timestamp_millis (fetch_source_watermark (sws_fetcher st))) False (sws_publisher st)) (\<lambda>(sp, w).
     map_option (\<lambda>d. (st\<lparr>sws_publisher := sp, sws_isb_idle_manager := d\<rparr>, w))
       (reset_idle (clk_utc clk) stream (sws_isb_idle_manager st)))"

section \<open>Idle ticks\<close>

fun publish_idle_partitions ::
    "(i64 \<Rightarrow> string \<Rightarrow> bytes \<Rightarrow> 's \<Rightarrow> 's \<times> (kv_error + kv_history_entry option)) \<Rightarrow>
     (proto_wmb \<Rightarrow> string + bytes) \<Rightarrow> (nat \<Rightarrow> clock) \<Rightarrow> nat \<Rightarrow> i64 \<Rightarrow> i64 \<Rightarrow> u16 list \<Rightarrow> ('s, 'w) source_watermark_state \<Rightarrow>
     (('s, 'w) source_watermark_state \<times> (u16 \<times> wmb option) list) option" where
  "publish_idle_partitions kv encode clks i compute_wm min_inflight [] st = Some (st, [])"
| "publish_idle_partitions kv encode clks i compute_wm min_inflight (q # qs) st =
     (let is_idle = is_partition_idle (clk_utc (clks i)) q (sws_source_idle_manager st);
          (d, wm_value) = compute_watermark (clk_utc (clks i)) q compute_wm min_inflight (sws_source_idle_manager st)
      in Option.bind (publish_source_watermark kv encode (clks i) q wm_value is_idle (sws_publisher st)) (\<lambda>(sp, w).
         map_option (\<lambda>(st', ws). (st', (q, w) # ws))
           (publish_idle_partitions kv encode clks (Suc i) compute_wm min_inflight qs
              (st\<lparr>sws_publisher := sp, sws_source_idle_manager := d\<rparr>))))"

definition min_inflight_event_time :: "tracker \<Rightarrow> i64" where
  "min_inflight_event_time t =
     (if timestamp_millis (lowest_event_time t) = -1 then i64_MAX else timestamp_millis (lowest_event_time t))"

definition publish_source_idle_watermark ::
    "(i64 \<Rightarrow> string \<Rightarrow> bytes \<Rightarrow> 's \<Rightarrow> 's \<times> (kv_error + kv_history_entry option)) \<Rightarrow>
     (proto_wmb \<Rightarrow> string + bytes) \<Rightarrow> datetime \<Rightarrow> (nat \<Rightarrow> clock) \<Rightarrow> ('s, 'w) source_watermark_state \<Rightarrow>
     (('s, 'w) source_watermark_state \<times> (u16 \<times> wmb option) list) option" where
  "publish_source_idle_watermark kv encode utc clks st =
     (let needing = partitions_needing_publish utc (sws_source_idle_manager st)
      in if needing = [] then Some (st, [])
         else publish_idle_partitions kv encode clks 0 (timestamp_millis (fetch_source_watermark (sws_fetcher st)))
                (min_inflight_event_time (sws_tracker st)) needing st)"

fun publish_isb_partitions ::
    "(i64 \<Rightarrow> string \<Rightarrow> bytes \<Rightarrow> 's \<Rightarrow> 's \<times> (kv_error + kv_history_entry option)) \<Rightarrow>
     (proto_wmb \<Rightarrow> string + bytes) \<Rightarrow> clock \<Rightarrow> stream \<Rightarrow> i64 \<Rightarrow> i64 \<Rightarrow> u16 list \<Rightarrow> 's source_publisher \<Rightarrow>
     's source_publisher option" where
  "publish_isb_partitions kv encode clk stream off wm [] sp = Some sp"
| "publish_isb_partitions kv encode clk stream off wm (q # qs) sp =
     Option.bind (publish_isb_watermark kv encode clk q stream off wm True sp) (\<lambda>(sp', _).
       publish_isb_partitions kv encode clk stream off wm qs sp')"

fun publish_isb_idle_streams ::
    "(i64 \<Rightarrow> string \<Rightarrow> bytes \<Rightarrow> 's \<Rightarrow> 's \<times> (kv_error + kv_history_entry option)) \<Rightarrow>
     (proto_wmb \<Rightarrow> string + bytes) \<Rightarrow> (message \<Rightarrow> 'w \<Rightarrow> 'w \<times> (string + offset)) \<Rightarrow> (nat \<Rightarrow> clock) \<Rightarrow> nat \<Rightarrow> i64 \<Rightarrow>
     stream list \<Rightarrow> ('s, 'w) source_watermark_state \<Rightarrow> ('s, 'w) source_watermark_state option" where
  "publish_isb_idle_streams kv encode write clks i compute_wm [] st = Some st"
| "publish_isb_idle_streams kv encode write clks i compute_wm (s # ss) st =
     Option.bind (fetch_idle_offset write (clk_utc (clks i)) s (sws_isb_idle_manager st)) (\<lambda>(d, r).
       let off = (case r of Inl _ \<Rightarrow> -1 | Inr off \<Rightarrow> off)
       in Option.bind (publish_isb_partitions kv encode (clks i) s off compute_wm
              (hm_keys (sws_active_input_partitions st)) (sws_publisher st)) (\<lambda>sp.
          Option.bind (update_idle_metadata (clk_utc (clks i)) s off d) (\<lambda>d'.
          publish_isb_idle_streams kv encode write clks (Suc i) compute_wm ss
            (st\<lparr>sws_publisher := sp, sws_isb_idle_manager := d'\<rparr>))))"

definition publish_isb_idle_watermark ::
    "(i64 \<Rightarrow> string \<Rightarrow> bytes \<Rightarrow> 's \<Rightarrow> 's \<times> (kv_error + kv_history_entry option)) \<Rightarrow>
     (proto_wmb \<Rightarrow> string + bytes) \<Rightarrow> (message \<Rightarrow> 'w \<Rightarrow> 'w \<times> (string + offset)) \<Rightarrow> datetime \<Rightarrow> (nat \<Rightarrow> clock) \<Rightarrow>
     ('s, 'w) source_watermark_state \<Rightarrow> ('s, 'w) source_watermark_state option" where
  "publish_isb_idle_watermark kv encode write utc clks st =
     publish_isb_idle_streams kv encode write clks 0 (timestamp_millis (fetch_source_watermark (sws_fetcher st)))
       (fetch_streams_needing_publish utc (sws_isb_idle_manager st)) st"

definition publish_idle_watermarks ::
    "(i64 \<Rightarrow> string \<Rightarrow> bytes \<Rightarrow> 's \<Rightarrow> 's \<times> (kv_error + kv_history_entry option)) \<Rightarrow>
     (proto_wmb \<Rightarrow> string + bytes) \<Rightarrow> (message \<Rightarrow> 'w \<Rightarrow> 'w \<times> (string + offset)) \<Rightarrow> datetime \<Rightarrow> (nat \<Rightarrow> clock) \<Rightarrow>
     ('s, 'w) source_watermark_state \<Rightarrow> (('s, 'w) source_watermark_state \<times> (u16 \<times> wmb option) list) option" where
  "publish_idle_watermarks kv encode write utc clks st =
     Option.bind (publish_source_idle_watermark kv encode utc clks st) (\<lambda>(st', ws).
       map_option (\<lambda>st''. (st'', ws)) (publish_isb_idle_watermark kv encode write utc clks st'))"

section \<open>The handle\<close>

definition handle_publish_source_isb_watermark ::
    "(i64 \<Rightarrow> string \<Rightarrow> bytes \<Rightarrow> 's \<Rightarrow> 's \<times> (kv_error + kv_history_entry option)) \<Rightarrow>
     (proto_wmb \<Rightarrow> string + bytes) \<Rightarrow> clock \<Rightarrow> stream \<Rightarrow> offset \<Rightarrow> u16 \<Rightarrow> ('s, 'w) source_watermark_state \<Rightarrow>
     (('s, 'w) source_watermark_state \<times> wmb option) option" where
  "handle_publish_source_isb_watermark kv encode clk stream off input_partition st =
     (case off of
        Int_offset i \<Rightarrow> publish_source_isb_watermark kv encode clk stream i input_partition st
      | String_offset _ \<Rightarrow> Some (st, None))"

definition initialize_active_partitions ::
    "clock \<Rightarrow> u16 list \<Rightarrow> u32 option \<Rightarrow> ('s, 'w) source_watermark_state \<Rightarrow> ('s, 'w) source_watermark_state" where
  "initialize_active_partitions clk qs total_partitions st =
     (let sp = (case total_partitions of Some p \<Rightarrow> set_processor_count p (sws_publisher st) | None \<Rightarrow> sws_publisher st);
          active = fold (\<lambda>q. hm_insert q True) qs (hm_retain (\<lambda>q _. q \<in> set qs) (sws_active_input_partitions st))
      in st\<lparr>sws_publisher := initialize_publishers (clk_instant clk) qs sp,
            sws_source_idle_manager := initialize_partitions (clk_utc clk) qs (sws_source_idle_manager st),
            sws_active_input_partitions := active\<rparr>)"

section \<open>The publishers of the partitions\<close>

text \<open>The names of the publishers of all partitions differ.\<close>

lemma append_last_sep_eq:
  assumes "c \<notin> set a" and "c \<notin> set b" and "x @ c # a = y @ c # b"
  shows "x = y \<and> a = b"
proof -
  have "rev a @ c # rev x = rev b @ c # rev y"
    using arg_cong [OF assms(3), of rev] by simp
  then have "rev a = rev b \<and> rev x = rev y" using assms(1,2) by (intro append_sep_eq) auto
  then show ?thesis by simp
qed

lemma processor_names [simp]:
  "source_processor_name sp p = source_processor_name sp q \<longleftrightarrow> p = q"
  "source_processor_name sp p \<noteq> isb_processor_name sp q"
proof -
  show "source_processor_name sp p = source_processor_name sp q \<longleftrightarrow> p = q"
    by (auto simp: source_processor_name_def word_unat_eq_iff)
  show "source_processor_name sp p \<noteq> isb_processor_name sp q"
  proof
    assume "source_processor_name sp p = isb_processor_name sp q"
    then have "(''source-'' @ bc_vertex (swp_source_config sp)) @ CHR ''-'' # show_nat (unat p) =
        bc_vertex (swp_source_config sp) @ CHR ''-'' # show_nat (unat q)"
      by (simp add: source_processor_name_def isb_processor_name_def)
    from append_last_sep_eq [OF minus_notin_show_nat minus_notin_show_nat this]
    have "''source-'' @ bc_vertex (swp_source_config sp) = bc_vertex (swp_source_config sp)" by blast
    then show False by (metis append_self_conv2 list.distinct(1))
  qed
qed

text \<open>The last watermark of a partition, \<open>-1\<close> before the first.\<close>

definition published :: "'s source_publisher \<Rightarrow> u16 \<Rightarrow> i64" where
  "published sp q =
     (case Option.bind (hm_get (swp_publishers sp) (source_processor_name sp q))
             (\<lambda>pub. state_of pub (bc_vertex (swp_source_config sp)) 0) of
        Some lp \<Rightarrow> lp_watermark lp | None \<Rightarrow> -1)"

definition same_setup :: "'s source_publisher \<Rightarrow> 's source_publisher \<Rightarrow> bool" where
  "same_setup sp sp' \<longleftrightarrow> swp_source_config sp' = swp_source_config sp \<and> swp_max_delay sp' = swp_max_delay sp"

lemma same_names: "same_setup sp sp' \<Longrightarrow>
    source_processor_name sp' q = source_processor_name sp q \<and> isb_processor_name sp' q = isb_processor_name sp q"
  by (simp add: same_setup_def source_processor_name_def isb_processor_name_def)

lemma state_of_stores [simp]: "state_of (pub\<lparr>pub_ot_stores := x\<rparr>) v q = state_of pub v q"
  by (simp add: state_of_def)

lemma new_publisher_watermark:
  "state_of (isb_publisher_new now name stores configs src) v q = Some lp \<Longrightarrow> lp_watermark lp = -1"
  by (auto dest: state_of_new)

lemma ensure_source_publisher_spec:
  "same_setup sp (ensure_source_publisher now q sp)"
  "published (ensure_source_publisher now q sp) p = published sp p"
  "hm_get (swp_publishers (ensure_source_publisher now q sp)) (source_processor_name sp q) \<noteq> None"
proof -
  show same: "same_setup sp (ensure_source_publisher now q sp)"
    by (simp add: same_setup_def ensure_source_publisher_def Let_def)
  show "published (ensure_source_publisher now q sp) p = published sp p"
  proof (cases "hm_contains (source_processor_name sp q) (swp_publishers sp)")
    case False
    then have none: "hm_get (swp_publishers sp) (source_processor_name sp q) = None" by (simp add: hm_contains_def)
    let ?new = "isb_publisher_new now (source_processor_name sp q) (swp_source_ot_stores sp) [swp_source_config sp] True"
    have get: "hm_get (swp_publishers (ensure_source_publisher now q sp)) (source_processor_name sp p) =
        (if p = q then Some ?new else hm_get (swp_publishers sp) (source_processor_name sp p))"
      using False by (simp add: ensure_source_publisher_def Let_def)
    show ?thesis
    proof (cases "p = q")
      case True
      then show ?thesis using get none same
        by (auto simp: published_def same_names [OF same] same_setup_def split: option.split
          dest: new_publisher_watermark)
    next
      case False
      then show ?thesis using get same by (simp add: published_def same_names [OF same] same_setup_def)
    qed
  qed (simp add: ensure_source_publisher_def)
  show "hm_get (swp_publishers (ensure_source_publisher now q sp)) (source_processor_name sp q) \<noteq> None"
    by (simp add: ensure_source_publisher_def Let_def hm_contains_def)
qed

definition delayed :: "'s source_publisher \<Rightarrow> bool \<Rightarrow> i64 \<Rightarrow> i64" where
  "delayed sp idle wm = (if \<not> idle \<and> wm \<noteq> -1 then as_i64 (wm - dur_millis (swp_max_delay sp)) else wm)"

lemma publish_source_watermark_spec:
  assumes "publish_source_watermark kv encode clk q wm idle sp = Some (sp', w)"
  shows "same_setup sp sp'"
    and "published sp' p = (if p = q then max (published sp q) (delayed sp idle wm) else published sp p)"
    and "w = Some x \<Longrightarrow> wmb_watermark x = published sp' q"
proof -
  let ?s = "ensure_source_publisher (clk_instant clk) q sp" and ?n = "source_processor_name sp q"
  note ens = ensure_source_publisher_spec [where now = "clk_instant clk" and q = q and sp = sp]
  let ?v = "bc_vertex (swp_source_config sp)"
  have cfg: "swp_source_config ?s = swp_source_config sp" "swp_max_delay ?s = swp_max_delay sp"
    using ens(1) by (simp_all add: same_setup_def)
  from assms obtain pub pub' r where pub: "hm_get (swp_publishers ?s) ?n = Some pub"
    and run: "publish_watermark_with_processor_count kv encode (clk_instant clk) (clk_created clk)
       \<lparr>stream_name = ''source'', stream_vertex = ?v, stream_partition = 0\<rparr>
       (clk_utc clk div 1000) (delayed sp idle wm) idle (swp_processor_count ?s)
       (pub\<lparr>pub_ot_stores := swp_source_ot_stores ?s\<rparr>) = Some (pub', w, r)"
    and sp': "sp' = ?s\<lparr>swp_publishers := hm_insert ?n pub' (swp_publishers ?s), swp_source_ot_stores := pub_ot_stores pub'\<rparr>"
    by (auto simp: publish_source_watermark_def Let_def bind_eq_Some_conv delayed_def cfg cong: if_cong)
  show "same_setup sp sp'" using cfg by (simp add: same_setup_def sp')
  then have names: "source_processor_name sp' p = source_processor_name sp p" for p using same_names by blast
  have "published sp' p = (if p = q then max (published sp q) (delayed sp idle wm) else published sp p) \<and>
      (w = Some x \<longrightarrow> wmb_watermark x = published sp' q)"
  proof (rule publish_cases [OF run], unfold stream.select_convs state_of_stores)
    fix st st' bo bw rg
    assume st: "state_of pub ?v 0 = Some st"
      and upd: "lp_update (clk_utc clk div 1000) (delayed sp idle wm) st = (st', bo, bw, rg)"
      and w: "w = (if delay_crossed (clk_instant clk) st' then Some \<lparr>wmb_idle = idle, wmb_offset = bo,
        wmb_watermark = bw, wmb_partition = 0, wmb_processor_count = swp_processor_count ?s\<rparr> else None)"
      and st': "\<And>v q. state_of pub' v q = (if v = ?v \<and> q = 0 then Some (if delay_crossed (clk_instant clk) st'
        then mark_published (clk_instant clk) st' else st') else state_of pub v q)"
    have old: "published sp q = lp_watermark st"
      using ens(2) [of q] pub st cfg same_names [OF ens(1)] by (simp add: published_def)
    have mine: "published sp' q = lp_watermark st'"
      using st' names by (simp add: published_def sp' cfg mark_published_def)
    with old lp_update_fields [OF upd]
    have new: "published sp' q = max (published sp q) (delayed sp idle wm)" by simp
    have other: "published sp' p = published sp p" if "p \<noteq> q"
      using that ens(2) [of p] names [of p] same_names [OF ens(1), of p] cfg by (simp add: published_def sp')
    have "w = Some x \<longrightarrow> wmb_watermark x = published sp' q"
      using w mine lp_update_fields [OF upd] by (auto split: if_splits)
    with new other show ?thesis by simp
  qed
  then show "published sp' p = (if p = q then max (published sp q) (delayed sp idle wm) else published sp p)"
    and "w = Some x \<Longrightarrow> wmb_watermark x = published sp' q" by blast+
qed

text \<open>Publishing to the streams of the next vertices leaves the watermarks of the partitions alone.\<close>

definition keeps_published :: "'s source_publisher \<Rightarrow> 's source_publisher \<Rightarrow> bool" where
  "keeps_published sp sp' \<longleftrightarrow> same_setup sp sp' \<and> published sp' = published sp"

lemma keeps_published_refl [simp]: "keeps_published sp sp"
  by (simp add: keeps_published_def same_setup_def)

lemma keeps_published_trans [trans]:
  "keeps_published a b \<Longrightarrow> keeps_published b c \<Longrightarrow> keeps_published a c"
  by (auto simp: keeps_published_def same_setup_def)

lemma publish_isb_watermark_keeps:
  assumes "publish_isb_watermark kv encode clk q s off wm idle sp = Some (sp', w)"
  shows "keeps_published sp sp'"
proof -
  let ?s = "ensure_isb_publisher (clk_instant clk) q sp"
  from assms obtain pub' where sp': "sp' = ?s\<lparr>swp_publishers := hm_insert (isb_processor_name sp q) pub' (swp_publishers ?s),
      swp_isb_ot_stores := pub_ot_stores pub'\<rparr>"
    by (auto simp: publish_isb_watermark_def Let_def bind_eq_Some_conv)
  have "same_setup sp sp'" by (simp add: same_setup_def sp' ensure_isb_publisher_def Let_def)
  moreover from this have "published sp' p = published sp p" for p
    using same_names [of sp sp'] by (simp add: published_def) (simp add: sp' ensure_isb_publisher_def Let_def)
  ultimately show ?thesis by (auto simp: keeps_published_def)
qed

lemma publish_isb_partitions_keeps:
  "publish_isb_partitions kv encode clk s off wm qs sp = Some sp' \<Longrightarrow> keeps_published sp sp'"
  by (induction qs arbitrary: sp)
    (auto simp: bind_eq_Some_conv dest!: publish_isb_watermark_keeps intro: keeps_published_trans)

lemma publish_isb_idle_streams_keeps:
  "publish_isb_idle_streams kv encode wr clks i wm ss st = Some st' \<Longrightarrow>
   keeps_published (sws_publisher st) (sws_publisher st') \<and> sws_source_idle_manager st' = sws_source_idle_manager st"
proof (induction ss arbitrary: i st)
  case (Cons s ss)
  then obtain off sp d' where
    sp: "publish_isb_partitions kv encode (clks i) s off wm
      (hm_keys (sws_active_input_partitions st)) (sws_publisher st) = Some sp"
    and rest: "publish_isb_idle_streams kv encode wr clks (Suc i) wm ss
      (st\<lparr>sws_publisher := sp, sws_isb_idle_manager := d'\<rparr>) = Some st'"
    by (simp add: bind_eq_Some_conv Let_def split_beta) blast
  from Cons.IH [OF rest] publish_isb_partitions_keeps [OF sp] show ?case
    by (auto intro: keeps_published_trans)
qed simp

section \<open>Batches and ticks\<close>

lemma lowest_event_times_snoc:
  "lowest_event_times (b @ [e]) = hm_insert (swe_partition_id e)
     (case hm_get (lowest_event_times b) (swe_partition_id e) of
        None \<Rightarrow> swe_event_time_ms e
      | Some lowest \<Rightarrow> if swe_event_time_ms e < lowest then swe_event_time_ms e else lowest) (lowest_event_times b)"
  by (simp add: lowest_event_times_def)

lemma lowest_event_times_spec:
  "hm_wf (lowest_event_times b) \<and>
   (hm_get (lowest_event_times b) p = None \<longleftrightarrow> (\<forall>e \<in> set b. swe_partition_id e \<noteq> p)) \<and>
   (\<forall>m. hm_get (lowest_event_times b) p = Some m \<longrightarrow>
      (\<exists>e \<in> set b. swe_partition_id e = p \<and> swe_event_time_ms e = m) \<and>
      (\<forall>e \<in> set b. swe_partition_id e = p \<longrightarrow> m \<le> swe_event_time_ms e))"
proof (induction b rule: rev_induct)
  case Nil
  then show ?case by (simp add: lowest_event_times_def)
next
  case (snoc e b)
  show ?case
  proof (cases "swe_partition_id e = p")
    case True
    with snoc show ?thesis by (cases "hm_get (lowest_event_times b) p") (auto simp: lowest_event_times_snoc)
  next
    case False
    with snoc show ?thesis by (auto simp: lowest_event_times_snoc)
  qed
qed

lemma publish_batch_spec:
  assumes "publish_batch kv encode clks i ms st = Some (st', ws)"
  shows "same_setup (sws_publisher st) (sws_publisher st') \<and>
    (\<forall>p. published (sws_publisher st) p \<le> published (sws_publisher st') p) \<and>
    (\<forall>p. published (sws_publisher st') p = published (sws_publisher st) p \<or>
       (\<exists>m. (p, m) \<in> set ms \<and> published (sws_publisher st') p = delayed (sws_publisher st) False m)) \<and>
    (\<forall>q x. (q, Some x) \<in> set ws \<longrightarrow> wmb_watermark x \<le> published (sws_publisher st') q) \<and>
    si_config (sws_source_idle_manager st') = si_config (sws_source_idle_manager st)"
  using assms
proof (induction ms arbitrary: i st ws)
  case (Cons m ms)
  obtain q t where m: "m = (q, t)" by (cases m)
  from Cons.prems obtain sp w st1 ws' where
    sp: "publish_source_watermark kv encode (clks i) q t False (sws_publisher st) = Some (sp, w)"
    and st1: "st1 = st\<lparr>sws_publisher := sp, sws_active_input_partitions := hm_insert q True (sws_active_input_partitions st),
      sws_source_idle_manager := si_reset (clk_utc (clks i)) q (sws_source_idle_manager st)\<rparr>"
    and rest: "publish_batch kv encode clks (Suc i) ms st1 = Some (st', ws')" and ws: "ws = (q, w) # ws'"
    by (auto simp: m bind_eq_Some_conv)
  note one = publish_source_watermark_spec [OF sp]
  have same: "delayed sp idle x = delayed (sws_publisher st) idle x" for idle x
    using one(1) by (simp add: delayed_def same_setup_def)
  have cfg: "si_config (si_reset now q d) = si_config d" for now d
    by (simp add: si_reset_def Let_def split: option.split)
  have s1: "sws_publisher st1 = sp" "si_config (sws_source_idle_manager st1) = si_config (sws_source_idle_manager st)"
    by (simp_all add: st1 cfg)
  note IH = Cons.IH [OF rest, unfolded s1 same]
  have le: "published (sws_publisher st) p \<le> published sp p" for p using one(2) by simp
  have "published (sws_publisher st') p = published (sws_publisher st) p \<or>
      (\<exists>m'. (p, m') \<in> set (m # ms) \<and> published (sws_publisher st') p = delayed (sws_publisher st) False m')" for p
  proof -
    from IH have "published (sws_publisher st') p = published sp p \<or>
        (\<exists>m'. (p, m') \<in> set ms \<and> published (sws_publisher st') p = delayed (sws_publisher st) False m')"
      by (simp add: same)
    moreover have "published sp p = published (sws_publisher st) p \<or>
        (p, t) = m \<and> published sp p = delayed (sws_publisher st) False t"
      using one(2) [of p] m by (simp add: max_def)
    ultimately show ?thesis by (metis list.set_intros)
  qed
  moreover have "wmb_watermark x \<le> published (sws_publisher st') p" if "(p, Some x) \<in> set ws" for p x
  proof (cases "(p, Some x) = (q, w)")
    case True
    then have "wmb_watermark x = published sp q" "p = q" using one(3) by auto
    with IH show ?thesis by simp
  next
    case False
    with that ws IH show ?thesis by auto
  qed
  moreover have "same_setup (sws_publisher st) (sws_publisher st')" using IH one(1) by (simp add: same_setup_def)
  ultimately show ?case using IH le by (meson order_trans)
qed (simp add: same_setup_def)

text \<open>
  Without a threshold no partition is ever idle, and a tick repeats the fetched watermark. When that
  is not ahead of what the partitions have published, nothing changes.
\<close>

lemma compute_watermark_not_idle:
  assumes "ic_threshold (si_config d) = 0"
  shows "is_partition_idle now q d = False"
    and "\<exists>d'. compute_watermark now q wm t d = (d', wm) \<and> si_config d' = si_config d"
  using assms by (simp_all add: is_partition_idle_def compute_watermark_def Let_def)

lemma publish_idle_partitions_spec:
  assumes "publish_idle_partitions kv encode clks i wm t qs st = Some (st', ws)"
    and "ic_threshold (si_config (sws_source_idle_manager st)) = 0"
    and "\<forall>q \<in> set qs. delayed (sws_publisher st) False wm \<le> published (sws_publisher st) q"
  shows "keeps_published (sws_publisher st) (sws_publisher st') \<and>
    (\<forall>q x. (q, Some x) \<in> set ws \<longrightarrow> wmb_watermark x \<le> published (sws_publisher st') q) \<and>
    si_config (sws_source_idle_manager st') = si_config (sws_source_idle_manager st)"
  using assms
proof (induction qs arbitrary: i st ws)
  case (Cons q qs)
  obtain d where d: "compute_watermark (clk_utc (clks i)) q wm t (sws_source_idle_manager st) = (d, wm)"
    "si_config d = si_config (sws_source_idle_manager st)"
    using compute_watermark_not_idle(2) [OF Cons.prems(2)] by blast
  from Cons.prems(1) d compute_watermark_not_idle(1) [OF Cons.prems(2)] obtain sp w ws' where
    sp: "publish_source_watermark kv encode (clks i) q wm False (sws_publisher st) = Some (sp, w)"
    and rest: "publish_idle_partitions kv encode clks (Suc i) wm t qs
      (st\<lparr>sws_publisher := sp, sws_source_idle_manager := d\<rparr>) = Some (st', ws')" and ws: "ws = (q, w) # ws'"
    by (auto simp: bind_eq_Some_conv)
  note one = publish_source_watermark_spec [OF sp]
  have same: "published sp = published (sws_publisher st)" using one(2) Cons.prems(3) by (auto simp: max_def)
  have delay: "delayed sp idle x = delayed (sws_publisher st) idle x" for idle x
    using one(1) by (simp add: delayed_def same_setup_def)
  from Cons.IH [OF rest] d(2) Cons.prems(2,3) same delay have
    IH: "keeps_published sp (sws_publisher st')"
      "\<forall>q x. (q, Some x) \<in> set ws' \<longrightarrow> wmb_watermark x \<le> published (sws_publisher st') q"
      "si_config (sws_source_idle_manager st') = si_config (sws_source_idle_manager st)" by auto
  have "keeps_published (sws_publisher st) sp" using one(1) same by (simp add: keeps_published_def)
  moreover have "wmb_watermark x = published sp q" if "w = Some x" for x using one(3) [OF that] .
  ultimately show ?case using IH ws by (auto simp: keeps_published_def same_setup_def)
qed simp

section \<open>Runs of a source\<close>

text \<open>
  What a source does, in order: it writes watermarks for its partitions, and forwards the messages it
  has read.
\<close>

datatype source_item = Wrote u16 wmb | Forward source_entry

definition writes :: "(u16 \<times> wmb option) list \<Rightarrow> source_item list" where
  "writes ws = List.map_filter (\<lambda>(q, w). map_option (Wrote q) w) ws"

text \<open>
  The watermark a tick repeats is one the partitions it is repeated for have reached: their own
  publications are visible to the fetcher.
\<close>

definition caught_up :: "datetime \<Rightarrow> ('s, 'w) source_watermark_state \<Rightarrow> bool" where
  "caught_up utc st \<longleftrightarrow>
     (let wm = timestamp_millis (fetch_source_watermark (sws_fetcher st))
      in -1 \<le> wm \<and> (\<forall>q \<in> set (partitions_needing_publish utc (sws_source_idle_manager st)).
           wm \<le> published (sws_publisher st) q))"

inductive source_run ::
    "(i64 \<Rightarrow> string \<Rightarrow> bytes \<Rightarrow> 's \<Rightarrow> 's \<times> (kv_error + kv_history_entry option)) \<Rightarrow>
     (proto_wmb \<Rightarrow> string + bytes) \<Rightarrow> (message \<Rightarrow> 'w \<Rightarrow> 'w \<times> (string + offset)) \<Rightarrow>
     ('s, 'w) source_watermark_state \<Rightarrow> source_item list \<Rightarrow> ('s, 'w) source_watermark_state \<Rightarrow> bool"
  for kv encode wr where
  source_start: "source_run kv encode wr st [] st"
| source_batch: "source_run kv encode wr st0 tr st \<Longrightarrow>
    generate_and_publish_source_watermark kv encode clks batch st = Some (st', ws) \<Longrightarrow>
    source_run kv encode wr st0 (tr @ writes ws @ map Forward batch) st'"
| source_isb: "source_run kv encode wr st0 tr st \<Longrightarrow>
    publish_source_isb_watermark kv encode clk s off q st = Some (st', w) \<Longrightarrow> source_run kv encode wr st0 tr st'"
| source_tick: "source_run kv encode wr st0 tr st \<Longrightarrow> caught_up utc st \<Longrightarrow>
    publish_idle_watermarks kv encode wr utc clks st = Some (st', ws) \<Longrightarrow>
    source_run kv encode wr st0 (tr @ writes ws) st'"
| source_shared: "source_run kv encode wr st0 tr st \<Longrightarrow>
    source_run kv encode wr st0 tr (st\<lparr>sws_fetcher := ps, sws_tracker := t\<rparr>)"

text \<open>A message is not behind a watermark written before it for its partition.\<close>

fun not_late :: "source_item \<Rightarrow> source_item \<Rightarrow> bool" where
  "not_late (Wrote q w) (Forward e) \<longleftrightarrow> (swe_partition_id e = q \<longrightarrow> wmb_watermark w \<le> swe_event_time_ms e)"
| "not_late _ _ \<longleftrightarrow> True"

text \<open>A message is at most \<open>D\<close> milliseconds behind one read before it from its partition.\<close>

fun within_delay :: "i64 \<Rightarrow> source_item \<Rightarrow> source_item \<Rightarrow> bool" where
  "within_delay D (Forward e) (Forward f) \<longleftrightarrow>
     (swe_partition_id e = swe_partition_id f \<longrightarrow> swe_event_time_ms e - D \<le> swe_event_time_ms f)"
| "within_delay D _ _ \<longleftrightarrow> True"

definition sane_times :: "source_item list \<Rightarrow> bool" where
  "sane_times tr \<longleftrightarrow> (\<forall>e. Forward e \<in> set tr \<longrightarrow> 0 \<le> swe_event_time_ms e \<and> swe_event_time_ms e < 2 ^ 62)"

definition source_inv :: "i64 \<Rightarrow> source_item list \<Rightarrow> ('s, 'w) source_watermark_state \<Rightarrow> bool" where
  "source_inv D tr st \<longleftrightarrow>
     dur_millis (swp_max_delay (sws_publisher st)) = D \<and>
     ic_threshold (si_config (sws_source_idle_manager st)) = 0 \<and>
     (\<forall>q. published (sws_publisher st) q = -1 \<or>
        (\<exists>e. Forward e \<in> set tr \<and> swe_partition_id e = q \<and> published (sws_publisher st) q \<le> swe_event_time_ms e - D)) \<and>
     (\<forall>q. -1 \<le> published (sws_publisher st) q) \<and>
     (\<forall>q w. Wrote q w \<in> set tr \<longrightarrow> wmb_watermark w \<le> published (sws_publisher st) q) \<and>
     sorted_wrt not_late tr"

lemma writes_iff: "Wrote q x \<in> set (writes ws) \<longleftrightarrow> (q, Some x) \<in> set ws"
  by (force simp: writes_def set_map_filter_eq)

lemma writes_only: "i \<in> set (writes ws) \<Longrightarrow> \<exists>q x. i = Wrote q x"
  by (auto simp: writes_def set_map_filter_eq)

lemma sorted_writes: "sorted_wrt not_late (writes ws)"
proof -
  have "sorted_wrt not_late xs" if "\<forall>i \<in> set xs. \<exists>q x. i = Wrote q x" for xs
    using that by (induction xs) auto
  then show ?thesis using writes_only by blast
qed

lemma source_inv_batch:
  assumes inv: "source_inv D tr st" and D: "0 \<le> D" "D < 2 ^ 62"
    and run: "generate_and_publish_source_watermark kv encode clks batch st = Some (st', ws)"
    and sane: "sane_times (tr @ map Forward batch)" and delay: "sorted_wrt (within_delay D) (tr @ writes ws @ map Forward batch)"
  shows "source_inv D (tr @ writes ws @ map Forward batch) st'"
proof -
  let ?p = "published (sws_publisher st)" and ?p' = "published (sws_publisher st')"
  note spec = publish_batch_spec [OF run [unfolded generate_and_publish_source_watermark_def]]
  have d: "dur_millis (swp_max_delay (sws_publisher st)) = D" using inv by (simp add: source_inv_def)
  have new: "?p' q = ?p q \<or> (\<exists>e \<in> set batch. swe_partition_id e = q \<and> ?p' q \<le> swe_event_time_ms e - D \<and>
      (\<forall>f \<in> set batch. swe_partition_id f = q \<longrightarrow> ?p' q \<le> swe_event_time_ms f))" for q
  proof (cases "?p' q = ?p q")
    case False
    with spec obtain m where "(q, m) \<in> set (lowest_event_times batch)" and m: "?p' q = delayed (sws_publisher st) False m"
      by blast
    then have "hm_get (lowest_event_times batch) q = Some m"
      using lowest_event_times_spec [of batch q] by (simp add: hm_get_iff)
    then obtain e where e: "e \<in> set batch" "swe_partition_id e = q" "swe_event_time_ms e = m"
      and least: "\<forall>f \<in> set batch. swe_partition_id f = q \<longrightarrow> m \<le> swe_event_time_ms f"
      using lowest_event_times_spec [of batch q] by blast
    have "0 \<le> m \<and> m < 2 ^ 62" using sane e by (force simp: sane_times_def)
    then have "?p' q = m - D" using m d D by (simp add: delayed_def is_i64_def i64_MAX_def)
    then have "?p' q \<le> swe_event_time_ms e - D"
      and "\<forall>f \<in> set batch. swe_partition_id f = q \<longrightarrow> ?p' q \<le> swe_event_time_ms f"
      using e(3) least D(1) by force+
    with e show ?thesis by blast
  qed simp
  have behind: "?p' (swe_partition_id f) \<le> swe_event_time_ms f" if f: "f \<in> set batch" for f
  proof -
    let ?q = "swe_partition_id f"
    have "?p' ?q = -1 \<or> ?p' ?q \<le> swe_event_time_ms f"
    proof (cases "?p' ?q = ?p ?q")
      case True
      have "swe_event_time_ms e - D \<le> swe_event_time_ms f" if "Forward e \<in> set tr" "swe_partition_id e = ?q" for e
        using delay f that by (force simp: sorted_wrt_append)
      with inv True show ?thesis unfolding source_inv_def by (metis order_trans)
    next
      case False
      with new [of ?q] f show ?thesis by blast
    qed
    moreover have "0 \<le> swe_event_time_ms f" using sane f by (force simp: sane_times_def)
    ultimately show ?thesis by auto
  qed
  have wrote: "wmb_watermark w \<le> ?p' q" if "Wrote q w \<in> set (tr @ writes ws)" for q w
    using that inv spec by (auto simp: writes_iff source_inv_def) (meson order_trans)
  have forwards: "sorted_wrt not_late (map Forward batch)" for batch by (induction batch) auto
  have "sorted_wrt not_late (tr @ writes ws @ map Forward batch)"
  proof -
    have "not_late x y" if x: "x \<in> set (tr @ writes ws)" and y: "y \<in> set (map Forward batch)" for x y
    proof (cases x)
      case (Wrote q w)
      obtain f where f: "f \<in> set batch" "y = Forward f" using y by auto
      have "wmb_watermark w \<le> ?p' q" using wrote x Wrote by blast
      with behind [OF f(1)] f(2) Wrote show ?thesis by auto
    qed simp
    moreover have "not_late x y" if "y \<in> set (writes ws)" for x y
      using writes_only [OF that] by auto
    moreover have "sorted_wrt not_late tr" using inv by (simp add: source_inv_def)
    ultimately show ?thesis using forwards sorted_writes by (auto simp: sorted_wrt_append)
  qed
  moreover have "?p' q = -1 \<or> (\<exists>e. Forward e \<in> set (tr @ writes ws @ map Forward batch) \<and> swe_partition_id e = q \<and>
      ?p' q \<le> swe_event_time_ms e - D)" for q
  proof -
    from inv have "?p q = -1 \<or> (\<exists>e. Forward e \<in> set tr \<and> swe_partition_id e = q \<and> ?p q \<le> swe_event_time_ms e - D)"
      by (simp add: source_inv_def)
    with new [of q] show ?thesis by (metis UnCI image_eqI list.set_map set_append)
  qed
  moreover have "-1 \<le> ?p' q" for q using inv spec unfolding source_inv_def by (meson order_trans)
  moreover have "Wrote q w \<notin> set (map Forward batch)" for q w by auto
  ultimately show ?thesis using spec inv wrote d unfolding source_inv_def same_setup_def by auto
qed

lemma source_inv_tick:
  assumes inv: "source_inv D tr st" and D: "0 \<le> D" "D < 2 ^ 62" and sane: "sane_times tr"
    and "caught_up utc st" and run: "publish_idle_watermarks kv encode wr utc clks st = Some (st', ws)"
  shows "source_inv D (tr @ writes ws) st'"
proof -
  let ?wm = "timestamp_millis (fetch_source_watermark (sws_fetcher st))"
    and ?qs = "partitions_needing_publish utc (sws_source_idle_manager st)"
  from run obtain st1 where first: "publish_source_idle_watermark kv encode utc clks st = Some (st1, ws)"
    and second: "publish_isb_idle_watermark kv encode wr utc clks st1 = Some st'"
    by (auto simp: publish_idle_watermarks_def bind_eq_Some_conv)
  have "delayed (sws_publisher st) False ?wm \<le> published (sws_publisher st) q" if q: "q \<in> set ?qs" for q
  proof (cases "?wm = -1")
    case False
    from assms(5) q have wm: "-1 \<le> ?wm" "?wm \<le> published (sws_publisher st) q" by (simp_all add: caught_up_def Let_def)
    with False have "published (sws_publisher st) q \<noteq> -1" by linarith
    with inv obtain e where "Forward e \<in> set tr" "published (sws_publisher st) q \<le> swe_event_time_ms e - D"
      unfolding source_inv_def by blast
    with sane D have "published (sws_publisher st) q < 2 ^ 62" by (auto simp: sane_times_def)
    with wm D have "is_i64 (?wm - D)" by (simp add: is_i64_def i64_MAX_def)
    with inv wm(2) D False show ?thesis by (simp add: delayed_def source_inv_def)
  qed (use inv in \<open>simp add: delayed_def source_inv_def\<close>)
  then have "keeps_published (sws_publisher st) (sws_publisher st1) \<and>
      (\<forall>q x. (q, Some x) \<in> set ws \<longrightarrow> wmb_watermark x \<le> published (sws_publisher st1) q) \<and>
      si_config (sws_source_idle_manager st1) = si_config (sws_source_idle_manager st)"
    using first inv publish_idle_partitions_spec [of kv encode clks 0 ?wm _ ?qs st st1 ws]
    by (auto simp: publish_source_idle_watermark_def Let_def source_inv_def split: if_splits)
  with publish_isb_idle_streams_keeps [OF second [unfolded publish_isb_idle_watermark_def]]
  have spec: "keeps_published (sws_publisher st) (sws_publisher st')"
    "\<And>q x. (q, Some x) \<in> set ws \<Longrightarrow> wmb_watermark x \<le> published (sws_publisher st') q"
    "si_config (sws_source_idle_manager st') = si_config (sws_source_idle_manager st)"
    by (auto simp: keeps_published_def same_setup_def)
  have "not_late x y" if "y \<in> set (writes ws)" for x y using writes_only [OF that] by auto
  then have "sorted_wrt not_late (tr @ writes ws)"
    using inv sorted_writes by (auto simp: sorted_wrt_append source_inv_def)
  moreover have "wmb_watermark w \<le> published (sws_publisher st') q" if "Wrote q w \<in> set (tr @ writes ws)" for q w
    using that spec inv by (auto simp: writes_iff source_inv_def keeps_published_def)
  ultimately show ?thesis using spec(1,3) inv unfolding source_inv_def keeps_published_def same_setup_def by auto
qed

lemma source_run_inv:
  assumes "source_run kv encode wr st0 tr st" and "source_inv D [] st0" and "0 \<le> D" "D < 2 ^ 62"
    and "sane_times tr" and "sorted_wrt (within_delay D) tr"
  shows "source_inv D tr st"
  using assms
proof (induction rule: source_run.induct)
  case (source_batch st0 tr st clks batch st' ws)
  have "sane_times tr" "sane_times (tr @ map Forward batch)" using source_batch.prems(4) by (auto simp: sane_times_def)
  moreover have "sorted_wrt (within_delay D) tr" using source_batch.prems(5) by (simp add: sorted_wrt_append)
  ultimately show ?case using source_inv_batch source_batch by blast
next
  case (source_isb st0 tr st clk s off q st' w)
  then have inv: "source_inv D tr st" by blast
  from source_isb.hyps(2) obtain sp where "publish_isb_watermark kv encode clk q s (io_offset off)
      (timestamp_millis (fetch_source_watermark (sws_fetcher st))) False (sws_publisher st) = Some (sp, w)"
    and sp: "sws_publisher st' = sp" "sws_source_idle_manager st' = sws_source_idle_manager st"
    by (auto simp: publish_source_isb_watermark_def bind_eq_Some_conv)
  from publish_isb_watermark_keeps [OF this(1)] inv sp show ?case
    by (simp add: source_inv_def keeps_published_def same_setup_def)
next
  case (source_tick st0 tr st utc clks st' ws)
  have "sane_times tr" using source_tick.prems(4) by (auto simp: sane_times_def)
  moreover have "sorted_wrt (within_delay D) tr" using source_tick.prems(5) by (simp add: sorted_wrt_append)
  ultimately show ?case using source_inv_tick source_tick by blast
next
  case (source_shared st0 tr st ps t)
  then have "source_inv D tr st" by blast
  then show ?case by (simp add: source_inv_def)
qed simp

section \<open>Properties\<close>


definition example_source_config :: bucket_config where
  "example_source_config = \<lparr>bc_vertex = ''src'', bc_partitions = [0], bc_ot_bucket = ''OT'', bc_delay = None\<rparr>"

definition example_source :: "(simple_kv, unit) source_watermark_state" where
  "example_source = source_watermark_state_new
     \<lparr>swp_max_delay = 5000000, swp_source_config = example_source_config, swp_to_vertex_configs = [],
      swp_publishers = [], swp_processor_count = None, swp_source_ot_stores = [(''src'', simple_kv_new)],
      swp_isb_ot_stores = []\<rparr> [] example_idle (source_idle_new idle_config_default) (tracker_new False)"

definition example_entry :: "i64 \<Rightarrow> source_entry" where
  "example_entry t = \<lparr>swe_partition_id = 0, swe_event_time_ms = t\<rparr>"

lemma example_source_batch:
  "\<exists>st' w. generate_and_publish_source_watermark kv_put byte_encode (\<lambda>_. \<lparr>clk_instant = 0, clk_created = 0, clk_utc = 0\<rparr>)
     [example_entry 20, example_entry 17] example_source = Some (st', [(0, Some w)]) \<and> wmb_watermark w = 12"
  by (simp add: generate_and_publish_source_watermark_def lowest_event_times_def example_entry_def publish_source_watermark_def
      ensure_source_publisher_def source_processor_name_def example_source_def source_watermark_state_new_def example_source_config_def
      isb_publisher_new_def bucket_state_def last_published_default_def lp_update_def hm_contains_def
      publish_watermark_with_processor_count_def delay_crossed_def mark_published_def dur_millis_def as_i64_def
      wmb_to_bytes_def byte_encode_def kv_put_def Let_def split_beta decrement_counter_def)


text \<open>
  The hypothesis that a tick repeats a watermark its partitions have reached is needed: with no
  processor count given, none is set, and a partition that has never had a message takes over the
  watermark of the others at the first tick, so its first message can be behind it.
\<close>

lemma processor_count_not_derived:
  "swp_processor_count (sws_publisher (initialize_active_partitions clk qs None st)) =
   swp_processor_count (sws_publisher st)"
proof -
  have "swp_processor_count (fold (\<lambda>q sp. ensure_isb_publisher now q (ensure_source_publisher now q sp)) qs sp) =
      swp_processor_count sp" for now qs and sp :: "'a source_publisher"
    by (induction qs arbitrary: sp) (simp_all add: ensure_isb_publisher_def ensure_source_publisher_def Let_def)
  then show ?thesis by (simp add: initialize_active_partitions_def initialize_publishers_def Let_def)
qed

text \<open>
  When the control message of an idle stream cannot be written, the offset \<open>-1\<close> is published and
  recorded in its place, so the next ticks reuse it and never write the message.
\<close>

lemma failed_idle_write_is_kept:
  assumes "fetch_idle_offset wr (clk_utc (clks 0)) s (sws_isb_idle_manager st) = Some (d, Inl e)"
    and "publish_isb_idle_streams kv encode wr clks 0 wm [s] st = Some st'"
  shows "fetch_idle_offset wr' now s (sws_isb_idle_manager st') = Some (sws_isb_idle_manager st', Inr (-1))"
proof -
  from assms obtain d' where upd: "update_idle_metadata (clk_utc (clks 0)) s (-1) d = Some d'"
    and st': "sws_isb_idle_manager st' = d'"
    by (auto simp: bind_eq_Some_conv Let_def)
  from upd have "update_idle_state (\<lambda>st. st\<lparr>ist_wmb_msg_offset := Some (-1),
      ist_last_wm_published_time := clk_utc (clks 0)\<rparr>) s d = Some d'" by (simp add: update_idle_metadata_def)
  from update_idle_state_of [OF this, of s] this obtain ist where "idle_state_of s d' = Some ist" "ist_wmb_msg_offset ist = Some (-1)"
    by (auto simp: idle_state_of_def update_idle_state_def Let_def split: option.splits if_splits)
  then show ?thesis by (simp add: st' fetch_idle_offset_def)
qed

end
