(* ===== verification/WalSegment.thy ===== *)
theory WalSegment
  imports Message "HOL-Library.Product_Lexorder" "HOL-Library.Multiset"
begin

text \<open>
  The segments of the write-ahead log of a reduce vertex (\<^verbatim>\<open>numaflow-core/src/reduce/wal.rs\<close> and
  \<^verbatim>\<open>reduce/wal/segment\<close>): the messages as they are stored, the actor that appends to segments and
  freezes them (\<^verbatim>\<open>append.rs\<close>), and the reader that replays frozen segments in order (\<^verbatim>\<open>replay.rs\<close>). The
  disk is the content of the files of the log's directory, by their names there, and, for each kind of
  call, whether it works. A buffered writer keeps up to 8 KiB in memory. The clock is read once for a
  command, as the argument \<open>now\<close>, and the protobuf codec is a parameter. \<open>None\<close> is a panic.
\<close>

section \<open>Messages in the log\<close>

datatype wal_error = Write_entry string string | Io_error string | Wal_other string

definition wal_error_to_string :: "wal_error \<Rightarrow> string" where
  "wal_error_to_string e =
     (case e of
        Write_entry i err \<Rightarrow> ''Error::WriteEntry '' @ i @ '' '' @ err
      | Io_error err \<Rightarrow> ''Error::Io '' @ err
      | Wal_other err \<Rightarrow> ''Error::Other '' @ err)"

record proto_read_message =
  prm_message :: "proto_message option"
  prm_read_offset :: i64
  prm_watermark :: "timestamp option"

definition wal_message_to_bytes ::
    "(proto_read_message \<Rightarrow> bytes) \<Rightarrow> (string \<Rightarrow> string) \<Rightarrow> message \<Rightarrow> string + bytes" where
  "wal_message_to_bytes encode lossy m =
     (case msg_offset m of
        String_offset _ \<Rightarrow> Inl ''Invalid offset''
      | Int_offset int_offset \<Rightarrow>
          Inr (encode
            \<lparr>prm_message = Some
               \<lparr>pm_header = Some
                  \<lparr>ph_message_info = Some \<lparr>pmi_event_time = Some (prost_timestamp_from_utc (msg_event_time m)),
                     pmi_is_late = msg_is_late m\<rparr>,
                   ph_kind = message_type_to_i32 (msg_typ m),
                   ph_id = Some (message_id_to_proto lossy (msg_id m)),
                   ph_keys = msg_keys m, ph_headers = msg_headers m, ph_metadata = msg_metadata m\<rparr>,
                pm_body = Some (msg_value m)\<rparr>,
             prm_read_offset = io_offset int_offset,
             prm_watermark = map_option prost_timestamp_from_utc (msg_watermark m)\<rparr>))"

definition wal_message_from_bytes ::
    "(bytes \<Rightarrow> string + proto_read_message) \<Rightarrow> (i64 \<Rightarrow> nat \<Rightarrow> datetime option) \<Rightarrow> bytes \<Rightarrow> (string + message) option" where
  "wal_message_from_bytes decode from_timestamp bs =
     (case decode bs of
        Inl e \<Rightarrow> Some (Inl e)
      | Inr rm \<Rightarrow>
     (case prm_message rm of
        None \<Rightarrow> Some (Inl ''Missing inner message'')
      | Some proto \<Rightarrow>
     (case pm_header proto of
        None \<Rightarrow> Some (Inl ''Missing header'')
      | Some header \<Rightarrow>
     (case pm_body proto of
        None \<Rightarrow> Some (Inl ''Missing body'')
      | Some payload \<Rightarrow>
          Option.bind (ph_message_info header) (\<lambda>info.
          Option.bind (pmi_event_time info) (\<lambda>event_time.
            Some (Inr ((message_default 0)
              \<lparr>msg_typ := message_type_from_i32 (ph_kind header), msg_keys := ph_keys header, msg_tags := None,
               msg_value := payload,
               msg_offset := Int_offset \<lparr>io_offset = prm_read_offset rm, io_partition_idx = 0\<rparr>,
               msg_event_time := utc_from_timestamp from_timestamp event_time,
               msg_watermark := map_option (utc_from_timestamp from_timestamp) (prm_watermark rm),
               msg_id := (case ph_id header of Some i \<Rightarrow> i | None \<Rightarrow> message_id_default),
               msg_is_late := pmi_is_late info\<rparr>))))))))"

section \<open>Segment names\<close>

datatype wal_type = Data_wal | Gc_wal | Compact_wal

definition segment_prefix :: "wal_type \<Rightarrow> string" where
  "segment_prefix t = (case t of Data_wal \<Rightarrow> ''data'' | Gc_wal \<Rightarrow> ''gc'' | Compact_wal \<Rightarrow> ''compaction'')"

definition segment_suffix :: "wal_type \<Rightarrow> string" where
  "segment_suffix t = []"

definition segment_file_name :: "wal_type \<Rightarrow> nat \<Rightarrow> i64 \<Rightarrow> string" where
  "segment_file_name t idx micros =
     segment_prefix t @ ''_'' @ show_nat idx @ ''_'' @ show_int micros @ ''.wal'' @ segment_suffix t"

text \<open>Every suffix is empty, so freezing only appends.\<close>

definition frozen_name :: "string \<Rightarrow> string" where
  "frozen_name name = name @ ''.frozen''"

text \<open>\<^verbatim>\<open>str::split\<close> at a character.\<close>

fun split_at_char :: "char \<Rightarrow> string \<Rightarrow> string list" where
  "split_at_char c [] = [[]]"
| "split_at_char c (x # xs) =
     (if x = c then [] # split_at_char c xs
      else case split_at_char c xs of [] \<Rightarrow> [[x]] | p # ps \<Rightarrow> (x # p) # ps)"

text \<open>\<^verbatim>\<open>str::parse\<close> of an unsigned number of \<open>w\<close> bits: an optional plus and at least one digit.\<close>

definition parse_unsigned :: "nat \<Rightarrow> string \<Rightarrow> nat option" where
  "parse_unsigned w s =
     (let ds = (case s of [] \<Rightarrow> [] | c # cs \<Rightarrow> if c = CHR ''+'' then cs else s)
      in if ds \<noteq> [] \<and> list_all is_digit ds \<and> read_nat ds < 2 ^ w then Some (read_nat ds) else None)"

definition nth_part :: "nat \<Rightarrow> string list \<Rightarrow> string option" where
  "nth_part n ps = (if n < length ps then Some (ps ! n) else None)"

definition parse_segment_create_micros :: "string \<Rightarrow> nat" where
  "parse_segment_create_micros name =
     (let ts_part = (case nth_part 2 (split_at_char (CHR ''_'') name) of Some p \<Rightarrow> p | None \<Rightarrow> ''0'')
      in case parse_unsigned 64 (hd (split_at_char (CHR ''.'') ts_part)) of Some n \<Rightarrow> n | None \<Rightarrow> 0)"

definition parse_segment_file_index :: "string \<Rightarrow> nat" where
  "parse_segment_file_index name =
     (case Option.bind (nth_part 1 (split_at_char (CHR ''_'') name)) (parse_unsigned 32) of Some n \<Rightarrow> n | None \<Rightarrow> 0)"

text \<open>\<^verbatim>\<open>Path::extension\<close>: what follows the last dot, when something precedes it.\<close>

definition extension :: "string \<Rightarrow> string option" where
  "extension name =
     (if CHR ''.'' \<notin> set name then None
      else let rest = dropWhile (\<lambda>c. c \<noteq> CHR ''.'') (rev name)
           in if tl rest = [] then None else Some (rev (takeWhile (\<lambda>c. c \<noteq> CHR ''.'') (rev name))))"

definition sort_filenames :: "string list \<Rightarrow> string list" where
  "sort_filenames files = sort_key (\<lambda>f. (parse_segment_create_micros f, parse_segment_file_index f)) files"

section \<open>The disk\<close>

record wal_disk =
  dk_files :: "(string, bytes) hashmap"
  dk_can_open :: bool
  dk_can_write :: bool
  dk_can_rename :: bool
  dk_can_read :: bool
  dk_can_remove :: bool
  dk_io_error :: string

definition starts_with :: "string \<Rightarrow> string \<Rightarrow> bool" where
  "starts_with p s \<longleftrightarrow> take (length p) s = p"

definition list_files_filtered :: "wal_type \<Rightarrow> (string \<Rightarrow> bool) \<Rightarrow> wal_disk \<Rightarrow> string list" where
  "list_files_filtered t is_segment_ext dk =
     filter (\<lambda>f. starts_with (segment_prefix t) f \<and> (case extension f of Some e \<Rightarrow> is_segment_ext e | None \<Rightarrow> False))
       (hm_keys (dk_files dk))"

definition list_files :: "wal_type \<Rightarrow> wal_disk \<Rightarrow> string list" where
  "list_files t dk = list_files_filtered t (\<lambda>e. e = ''frozen'') dk"

definition list_files_with_active :: "wal_type \<Rightarrow> wal_disk \<Rightarrow> string list" where
  "list_files_with_active t dk = list_files_filtered t (\<lambda>e. e = ''frozen'' \<or> e = ''wal'') dk"

definition append_file :: "string \<Rightarrow> bytes \<Rightarrow> wal_disk \<Rightarrow> wal_disk" where
  "append_file name bs dk =
     dk\<lparr>dk_files := hm_insert name ((case hm_get (dk_files dk) name of Some c \<Rightarrow> c | None \<Rightarrow> []) @ bs) (dk_files dk)\<rparr>"

section \<open>Entries\<close>

text \<open>A number as eight bytes, the least significant first.\<close>

fun le_bytes :: "nat \<Rightarrow> nat \<Rightarrow> bytes" where
  "le_bytes 0 n = []"
| "le_bytes (Suc k) n = of_nat (n mod 256) # le_bytes k (n div 256)"

fun le_value :: "bytes \<Rightarrow> nat" where
  "le_value [] = 0"
| "le_value (b # bs) = unat b + 256 * le_value bs"

definition frame :: "bytes \<Rightarrow> bytes" where
  "frame data = le_bytes 8 (length data) @ data"

datatype segment_entry = DataEntry nat bytes | CmdFileSwitch string | DataFooter nat bytes

text \<open>
  The entries of a segment, and the error that stopped the reader. The end of the file inside the
  length of an entry ends the segment; inside the data it is an error.
\<close>

function read_segment :: "bytes \<Rightarrow> segment_entry list \<times> wal_error option" where
  "read_segment bs =
     (if length bs < 8 then ([], None)
      else
        let data_len = le_value (take 8 bs); rest = drop 8 bs
        in if length rest < data_len
           then ([], Some (Wal_other ''expected to read data_len, but couldn't read_exact''))
           else (case read_segment (drop data_len rest) of
                   (es, r) \<Rightarrow> (DataEntry data_len (take data_len rest) # es, r)))"
  by pat_completeness auto
termination by (relation "measure length") auto

declare read_segment.simps [simp del]

fun replay_files :: "wal_disk \<Rightarrow> string list \<Rightarrow> segment_entry list \<times> wal_error option" where
  "replay_files dk [] = ([], None)"
| "replay_files dk (f # fs) =
     (case (if dk_can_read dk then hm_get (dk_files dk) f else None) of
        None \<Rightarrow> ([], Some (Io_error (dk_io_error dk)))
      | Some bs \<Rightarrow>
          (case read_segment bs of
             (es, Some e) \<Rightarrow> (es, Some e)
           | (es, None) \<Rightarrow>
               (case replay_files dk fs of (es', r) \<Rightarrow> (es @ CmdFileSwitch f # es', r))))"

definition streaming_read :: "wal_type \<Rightarrow> wal_disk \<Rightarrow> segment_entry list \<times> wal_error option" where
  "streaming_read t dk = replay_files dk (sort_filenames (list_files t dk))"

section \<open>The appending actor\<close>

record segment_actor =
  swa_wal_type :: wal_type
  swa_current_file_name :: string
  swa_create_time :: datetime
  swa_current_file_buf :: bytes
  swa_current_size :: nat
  swa_file_index :: nat
  swa_max_file_size :: nat
  swa_max_segment_age :: int

definition ROTATE_IF_STALE_DURATION :: int where
  "ROTATE_IF_STALE_DURATION = 30 * 1000000000"

definition segment_actor_new :: "wal_type \<Rightarrow> string \<Rightarrow> datetime \<Rightarrow> nat \<Rightarrow> int \<Rightarrow> segment_actor" where
  "segment_actor_new t name create_time max_file_size max_segment_age =
     \<lparr>swa_wal_type = t, swa_current_file_name = name, swa_create_time = create_time, swa_current_file_buf = [],
      swa_current_size = 0, swa_file_index = 0, swa_max_file_size = max_file_size,
      swa_max_segment_age = max_segment_age\<rparr>"

type_synonym wal_step = "segment_actor \<times> wal_disk \<times> (wal_error + unit)"

text \<open>The question mark: an error ends the call.\<close>

definition and_then :: "wal_step \<Rightarrow> (segment_actor \<Rightarrow> wal_disk \<Rightarrow> wal_step) \<Rightarrow> wal_step" where
  "and_then r f = (case r of (a, dk, Inl e) \<Rightarrow> (a, dk, Inl e) | (a, dk, Inr _) \<Rightarrow> f a dk)"

definition flush :: "segment_actor \<Rightarrow> wal_disk \<Rightarrow> wal_step" where
  "flush a dk =
     (if swa_current_file_buf a = [] then (a, dk, Inr ())
      else if dk_can_write dk
      then (a\<lparr>swa_current_file_buf := []\<rparr>, append_file (swa_current_file_name a) (swa_current_file_buf a) dk, Inr ())
      else (a, dk, Inl (Io_error (dk_io_error dk))))"

text \<open>\<^verbatim>\<open>BufWriter::write_all\<close> with the default capacity.\<close>

definition buf_write :: "bytes \<Rightarrow> segment_actor \<Rightarrow> wal_disk \<Rightarrow> wal_step" where
  "buf_write data a dk =
     and_then (if length (swa_current_file_buf a) + length data > 8192 then flush a dk else (a, dk, Inr ()))
       (\<lambda>a dk. if length data \<ge> 8192
               then (if dk_can_write dk then (a, append_file (swa_current_file_name a) data dk, Inr ())
                     else (a, dk, Inl (Io_error (dk_io_error dk))))
               else (a\<lparr>swa_current_file_buf := swa_current_file_buf a @ data\<rparr>, dk, Inr ()))"

definition open_segment :: "wal_type \<Rightarrow> nat \<Rightarrow> datetime \<Rightarrow> wal_disk \<Rightarrow> wal_disk \<times> (wal_error + string)" where
  "open_segment t idx now dk =
     (if dk_can_open dk
      then let name = segment_file_name t idx (now div 1000)
           in (dk\<lparr>dk_files := hm_insert name [] (dk_files dk)\<rparr>, Inr name)
      else (dk, Inl (Io_error (dk_io_error dk))))"

definition rename_file :: "string \<Rightarrow> string \<Rightarrow> wal_disk \<Rightarrow> wal_disk \<times> (wal_error + unit)" where
  "rename_file from to dk =
     (case (if dk_can_rename dk then hm_get (dk_files dk) from else None) of
        None \<Rightarrow> (dk, Inl (Io_error (dk_io_error dk)))
      | Some c \<Rightarrow> (dk\<lparr>dk_files := hm_insert to c (hm_remove from (dk_files dk))\<rparr>, Inr ()))"

definition rotate_file :: "bool \<Rightarrow> datetime \<Rightarrow> segment_actor \<Rightarrow> wal_disk \<Rightarrow> wal_step" where
  "rotate_file open_new now a dk =
     (if swa_current_size a = 0 then (a, dk, Inr ())
      else and_then (flush a dk) (\<lambda>a dk.
        case rename_file (swa_current_file_name a) (frozen_name (swa_current_file_name a)) dk of
          (dk, Inl e) \<Rightarrow> (a, dk, Inl e)
        | (dk, Inr _) \<Rightarrow>
            if open_new
            then let a = a\<lparr>swa_file_index := swa_file_index a + 1\<rparr>
                 in (case open_segment (swa_wal_type a) (swa_file_index a) now dk of
                       (dk, Inl e) \<Rightarrow> (a, dk, Inl e)
                     | (dk, Inr name) \<Rightarrow>
                         (a\<lparr>swa_current_file_name := name, swa_current_file_buf := [], swa_create_time := now,
                            swa_current_size := 0\<rparr>, dk, Inr ()))
            else (a, dk, Inr ())))"

definition flush_and_rotate :: "datetime \<Rightarrow> segment_actor \<Rightarrow> wal_disk \<Rightarrow> wal_step" where
  "flush_and_rotate now a dk =
     (if now - swa_create_time a > ROTATE_IF_STALE_DURATION then rotate_file True now a dk else flush a dk)"

definition write_data :: "datetime \<Rightarrow> bytes \<Rightarrow> segment_actor \<Rightarrow> wal_disk \<Rightarrow> wal_step" where
  "write_data now data a dk =
     and_then (if swa_current_size a > 0 \<and> swa_current_size a + length data \<ge> swa_max_file_size a
               then rotate_file True now a dk else (a, dk, Inr ())) (\<lambda>a dk.
     and_then (if swa_current_size a > 0 \<and> now - swa_create_time a > swa_max_segment_age a
               then rotate_file True now a dk else (a, dk, Inr ())) (\<lambda>a dk.
     and_then (buf_write (le_bytes 8 (length data)) a dk) (\<lambda>a dk.
     and_then (buf_write data a dk) (\<lambda>a dk.
       (a\<lparr>swa_current_size := swa_current_size a + length data\<rparr>, dk, Inr ())))))"

datatype segment_write_message = WriteMessage message | WriteGcEvent bytes | Rotate bool

text \<open>What happens to the handle of a message that was to be written is the last component.\<close>

definition handle_segment_message ::
    "(proto_read_message \<Rightarrow> bytes) \<Rightarrow> (string \<Rightarrow> string) \<Rightarrow> datetime \<Rightarrow> segment_write_message \<Rightarrow> segment_actor \<Rightarrow>
     wal_disk \<Rightarrow> (wal_step \<times> ack_event option) option" where
  "handle_segment_message encode lossy now msg a dk =
     (case msg of
        WriteMessage m \<Rightarrow>
          (case wal_message_to_bytes encode lossy m of
             Inl e \<Rightarrow> None
           | Inr data \<Rightarrow>
               (case write_data now data a dk of
                  (a, dk, Inr _) \<Rightarrow> Some ((a, dk, Inr ()), Some Succeed)
                | (a, dk, Inl e) \<Rightarrow> Some ((a, dk, Inl e), Some (Fail (wal_error_to_string e) None))))
      | WriteGcEvent data \<Rightarrow> Some (write_data now data a dk, None)
      | Rotate on_size \<Rightarrow>
          Some (if \<not> on_size \<or> swa_current_size a \<ge> swa_max_file_size a then rotate_file True now a dk
                else (a, dk, Inr ()), None))"

text \<open>
  The loop of the actor: commands, timeouts of the input and ticks of the flush timer arrive in any
  order; the end of the input freezes the last segment. The result carries the settled handles.
\<close>

datatype segment_input = Command segment_write_message | Timed_out | Flush_tick

definition run_input ::
    "(proto_read_message \<Rightarrow> bytes) \<Rightarrow> (string \<Rightarrow> string) \<Rightarrow> datetime \<Rightarrow> segment_input \<Rightarrow> segment_actor \<Rightarrow>
     wal_disk \<Rightarrow> (wal_step \<times> ack_event option) option" where
  "run_input encode lossy t inp a dk =
     (case inp of
         Command msg \<Rightarrow> handle_segment_message encode lossy t msg a dk
       | Timed_out \<Rightarrow> Some (flush_and_rotate t a dk, None)
       | Flush_tick \<Rightarrow> Some (flush a dk, None))"

fun run_inputs ::
    "(proto_read_message \<Rightarrow> bytes) \<Rightarrow> (string \<Rightarrow> string) \<Rightarrow> (datetime \<times> segment_input) list \<Rightarrow>
     segment_actor \<Rightarrow> wal_disk \<Rightarrow> (wal_step \<times> ack_event list) option" where
  "run_inputs encode lossy [] a dk = Some ((a, dk, Inr ()), [])"
| "run_inputs encode lossy ((t, inp) # inputs) a dk =
     Option.bind (run_input encode lossy t inp a dk)
       (\<lambda>(r, settled).
          let acks = (case settled of None \<Rightarrow> [] | Some e \<Rightarrow> [e])
          in case r of
               (a, dk, Inl e) \<Rightarrow> Some ((a, dk, Inl e), acks)
             | (a, dk, Inr _) \<Rightarrow>
                 map_option (\<lambda>(r', acks'). (r', acks @ acks')) (run_inputs encode lossy inputs a dk))"

definition start_processing ::
    "(proto_read_message \<Rightarrow> bytes) \<Rightarrow> (string \<Rightarrow> string) \<Rightarrow> (datetime \<times> segment_input) list \<Rightarrow> datetime \<Rightarrow>
     segment_actor \<Rightarrow> wal_disk \<Rightarrow> (wal_step \<times> ack_event list) option" where
  "start_processing encode lossy inputs now a dk =
     map_option (\<lambda>(r, acks). (and_then r (rotate_file False now), acks)) (run_inputs encode lossy inputs a dk)"

definition streaming_write ::
    "(proto_read_message \<Rightarrow> bytes) \<Rightarrow> (string \<Rightarrow> string) \<Rightarrow> wal_type \<Rightarrow> nat \<Rightarrow> nat \<Rightarrow> datetime \<Rightarrow>
     (datetime \<times> segment_input) list \<Rightarrow> datetime \<Rightarrow> wal_disk \<Rightarrow> (wal_disk \<times> (wal_error + unit) \<times> ack_event list) option" where
  "streaming_write encode lossy t max_file_size_mb max_segment_age_secs now inputs stop dk =
     (case open_segment t 0 now dk of
        (dk, Inl e) \<Rightarrow> Some (dk, Inl e, [])
      | (dk, Inr name) \<Rightarrow>
          map_option (\<lambda>((_, dk, r), acks). (dk, r, acks))
            (start_processing encode lossy inputs stop
               (segment_actor_new t name now (max_file_size_mb * 1024 * 1024)
                  (int max_segment_age_secs * 1000000000)) dk))"

section \<open>Reading back what was framed\<close>

lemma length_le_bytes [simp]: "length (le_bytes k n) = k"
  by (induction k n rule: le_bytes.induct) auto

lemma le_value_le_bytes [simp]: "n < 256 ^ k \<Longrightarrow> le_value (le_bytes k n) = n"
proof (induction k n rule: le_bytes.induct)
  case (2 k n)
  then have "n div 256 < 256 ^ k" by (simp add: less_mult_imp_div_less mult.commute)
  with "2.IH" show ?case by (simp add: unat_of_nat)
qed simp

lemma length_frame [simp]: "length (frame d) = 8 + length d"
  by (simp add: frame_def)

definition storable :: "bytes \<Rightarrow> bool" where
  "storable d \<longleftrightarrow> length d < 2 ^ 64"

lemma le_value_length: "storable d \<Longrightarrow> le_value (le_bytes 8 (length d)) = length d"
  by (rule le_value_le_bytes) (simp add: storable_def)

definition data_entries :: "bytes list \<Rightarrow> segment_entry list" where
  "data_entries ds = map (\<lambda>d. DataEntry (length d) d) ds"

lemma read_segment_frame:
  assumes "storable d"
  shows "read_segment (frame d @ rest) = (case read_segment rest of (es, r) \<Rightarrow> (DataEntry (length d) d # es, r))"
  using assms by (subst read_segment.simps) (simp add: frame_def le_value_length)

lemma read_segment_frames_append:
  assumes "list_all storable ds"
  shows "read_segment (concat (map frame ds) @ rest) = (case read_segment rest of (es, r) \<Rightarrow> (data_entries ds @ es, r))"
  using assms by (induction ds) (auto simp: data_entries_def read_segment_frame split: prod.splits)

lemma read_segment_Nil [simp]: "read_segment [] = ([], None)"
  by (simp add: read_segment.simps)

lemma read_segment_frames: "list_all storable ds \<Longrightarrow> read_segment (concat (map frame ds)) = (data_entries ds, None)"
  using read_segment_frames_append [of ds "[]"] by simp

definition torn_error :: "nat \<Rightarrow> wal_error option" where
  "torn_error n = (if n < 8 then None else Some (Wal_other ''expected to read data_len, but couldn't read_exact''))"

lemma read_segment_torn:
  assumes "storable d" and "n < length (frame d)"
  shows "read_segment (take n (frame d)) = ([], torn_error n)"
proof (cases "n < 8")
  case True
  then show ?thesis using assms(2) by (subst read_segment.simps) (simp add: torn_error_def)
next
  case False
  then have "take 8 (take n (frame d)) = le_bytes 8 (length d)" by (simp add: frame_def)
  moreover have "length (drop 8 (take n (frame d))) < length d" using assms(2) False by simp
  ultimately show ?thesis using False le_value_length [OF assms(1)] assms(2)
    by (subst read_segment.simps) (simp add: torn_error_def)
qed

fun replayed :: "segment_entry list \<Rightarrow> bytes list" where
  "replayed [] = []"
| "replayed (DataEntry n d # es) = d # replayed es"
| "replayed (CmdFileSwitch f # es) = replayed es"
| "replayed (DataFooter n d # es) = replayed es"

lemma replayed_append [simp]: "replayed (xs @ ys) = replayed xs @ replayed ys"
  by (induction xs rule: replayed.induct) auto

lemma replayed_data_entries [simp]: "replayed (data_entries ds) = ds"
  by (induction ds) (auto simp: data_entries_def)

text \<open>The content of a file, as the entries that were written to it.\<close>

definition holds_data :: "wal_disk \<Rightarrow> string \<Rightarrow> bytes list \<Rightarrow> bool" where
  "holds_data dk f ds \<longleftrightarrow> hm_get (dk_files dk) f = Some (concat (map frame ds)) \<and> list_all storable ds"

lemma replay_files_intact:
  assumes "dk_can_read dk" and "list_all2 (holds_data dk) fs dss"
  shows "replay_files dk (fs @ gs) =
    (concat (map2 (\<lambda>f ds. data_entries ds @ [CmdFileSwitch f]) fs dss) @ fst (replay_files dk gs), snd (replay_files dk gs))"
  using assms(2)
proof (induction rule: list_all2_induct)
  case (Cons f fs ds dss)
  then have "read_segment (concat (map frame ds)) = (data_entries ds, None)"
    by (simp add: holds_data_def read_segment_frames)
  with Cons assms(1) show ?case by (simp add: holds_data_def)
qed simp

text \<open>
  C24. A segment that was cut, at any byte, stops the replay where it was cut. Every entry before
  the cut is replayed, in the order of the segments. When the cut falls inside the data of an entry
  the replay ends with an error and no later segment is read; when it falls inside the length the
  incomplete entry is dropped without an error and the later segments follow.
\<close>

theorem torn_segment_stops_replay:
  assumes "dk_can_read dk" and "sort_filenames (list_files t dk) = fs @ f # gs"
    and "list_all2 (holds_data dk) fs dss"
    and "hm_get (dk_files dk) f = Some (concat (map frame ds) @ take n (frame d))"
    and "list_all storable ds" and "storable d" and "n < length (frame d)"
  shows "streaming_read t dk =
    (let intact = concat (map2 (\<lambda>g ds. data_entries ds @ [CmdFileSwitch g]) fs dss) @ data_entries ds
     in if n < 8 then (intact @ CmdFileSwitch f # fst (replay_files dk gs), snd (replay_files dk gs))
        else (intact, Some (Wal_other ''expected to read data_len, but couldn't read_exact'')))"
proof -
  have "read_segment (concat (map frame ds) @ take n (frame d)) = (data_entries ds, torn_error n)"
    using read_segment_frames_append [OF assms(5)] read_segment_torn [OF assms(6,7)] by simp
  then have "replay_files dk (f # gs) =
      (if n < 8 then (data_entries ds @ CmdFileSwitch f # fst (replay_files dk gs), snd (replay_files dk gs))
       else (data_entries ds, Some (Wal_other ''expected to read data_len, but couldn't read_exact'')))"
    using assms(1,4) by (simp add: torn_error_def split: prod.splits)
  then show ?thesis
    using replay_files_intact [OF assms(1,3), of "f # gs"] assms(2)
    by (simp add: streaming_read_def Let_def)
qed

definition example_disk :: "(string, bytes) hashmap \<Rightarrow> wal_disk" where
  "example_disk files =
     \<lparr>dk_files = files, dk_can_open = True, dk_can_write = True, dk_can_rename = True, dk_can_read = True,
      dk_can_remove = True, dk_io_error = []\<rparr>"

section \<open>Names of segments\<close>

lemma split_at_char_none: "c \<notin> set p \<Longrightarrow> split_at_char c p = [p]"
  by (induction p) auto

lemma split_at_char_sep: "c \<notin> set p \<Longrightarrow> split_at_char c (p @ c # s) = p # split_at_char c s"
  by (induction p) auto

lemma not_digit_chars [simp]: "\<not> is_digit (CHR ''_'')" "\<not> is_digit (CHR ''.'')" "\<not> is_digit (CHR ''+'')"
  by (simp_all add: is_digit_def of_char_def)

lemma parse_unsigned_show_nat:
  assumes "n < 2 ^ w"
  shows "parse_unsigned w (show_nat n) = Some n"
proof -
  obtain c cs where s: "show_nat n = c # cs" by (cases "show_nat n") auto
  then have "c \<noteq> CHR ''+''" using show_nat_digits [of c n] by auto
  moreover have "list_all is_digit (show_nat n)" using show_nat_digits by (simp add: list_all_iff)
  ultimately show ?thesis using assms s read_show_nat [of n] unfolding parse_unsigned_def by (simp add: Let_def)
qed

lemma segment_prefix_chars: "CHR ''_'' \<notin> set (segment_prefix t)" "CHR ''.'' \<notin> set (segment_prefix t)"
  by (cases t; simp add: segment_prefix_def)+

definition segment_key :: "string \<Rightarrow> nat \<times> nat" where
  "segment_key f = (parse_segment_create_micros f, parse_segment_file_index f)"

lemma frozen_segment_key:
  assumes "0 \<le> micros" and "micros < 2 ^ 64" and "idx < 2 ^ 32"
  shows "segment_key (frozen_name (segment_file_name t idx micros)) = (nat micros, idx)"
proof -
  have no: "CHR ''_'' \<notin> set (show_nat k)" "CHR ''.'' \<notin> set (show_nat k)" for k
    using show_nat_digits not_digit_chars by blast+
  let ?last = "show_nat (nat micros) @ CHR ''.'' # ''wal.frozen''"
  have name: "frozen_name (segment_file_name t idx micros) =
      segment_prefix t @ CHR ''_'' # (show_nat idx @ CHR ''_'' # ?last)"
    using assms(1) by (simp add: frozen_name_def segment_file_name_def show_int_def segment_suffix_def)
  have split: "split_at_char (CHR ''_'') (frozen_name (segment_file_name t idx micros)) =
      [segment_prefix t, show_nat idx, ?last]"
    unfolding name split_at_char_sep [OF segment_prefix_chars(1)] split_at_char_sep [OF no(1)]
    using no(1) by (simp add: split_at_char_none)
  have "hd (split_at_char (CHR ''.'') ?last) = show_nat (nat micros)" using split_at_char_sep [OF no(2)] by simp
  moreover have "nat micros < 2 ^ 64" using assms by simp
  ultimately show ?thesis using assms(3)
    by (simp add: segment_key_def parse_segment_create_micros_def parse_segment_file_index_def split nth_part_def
        parse_unsigned_show_nat)
qed

lemma extension_frozen: "name \<noteq> [] \<Longrightarrow> extension (frozen_name name) = Some ''frozen''"
  by (simp add: extension_def frozen_name_def)

lemma extension_segment: "extension (segment_file_name t idx micros) = Some ''wal''"
  by (simp add: extension_def segment_file_name_def segment_suffix_def segment_prefix_def)

lemma prefix_of_segment: "starts_with (segment_prefix u) (segment_file_name t idx micros @ s) \<longleftrightarrow> u = t"
  by (cases u; cases t) (simp_all add: starts_with_def segment_file_name_def segment_prefix_def)

lemma prefix_of_frozen: "starts_with (segment_prefix u) (frozen_name (segment_file_name t idx micros)) \<longleftrightarrow> u = t"
  by (simp add: frozen_name_def prefix_of_segment)

lemma segment_file_name_nonempty [simp]: "segment_file_name t idx micros \<noteq> []"
  by (simp add: segment_file_name_def)

lemma frozen_is_not_segment: "frozen_name (segment_file_name t idx micros) \<noteq> segment_file_name u i m"
  using extension_frozen [of "segment_file_name t idx micros"] extension_segment [of u i m] by auto

definition example_segment :: "nat \<Rightarrow> int \<Rightarrow> string" where
  "example_segment idx micros = frozen_name (segment_file_name Data_wal idx micros)"

lemma example_segment_facts:
  "extension (example_segment i m) = Some ''frozen''" "starts_with (segment_prefix Data_wal) (example_segment i m)"
  by (simp_all add: example_segment_def extension_frozen prefix_of_frozen)

lemma example_segments_sorted:
  "segment_key (example_segment 0 10) = (10, 0)" "segment_key (example_segment 3 20) = (20, 3)"
  "segment_key (example_segment 5 30) = (30, 5)"
  by (simp_all add: example_segment_def frozen_segment_key)

theorem torn_segment_stops_replay_witness:
  "streaming_read Data_wal (example_disk [(example_segment 3 20, frame [7] @ take 9 (frame [8, 9])),
     (example_segment 0 10, frame [5, 6]), (example_segment 5 30, frame [4])]) =
   ([DataEntry 2 [5, 6], CmdFileSwitch (example_segment 0 10), DataEntry 1 [7]],
    Some (Wal_other ''expected to read data_len, but couldn't read_exact''))"
  (is "streaming_read _ ?dk = _")
proof -
  have ne: "example_segment 3 20 \<noteq> example_segment 0 10" using example_segments_sorted by (metis Pair_inject zero_neq_numeral)
  have "list_files Data_wal ?dk = [example_segment 3 20, example_segment 0 10, example_segment 5 30]"
    by (simp add: example_disk_def list_files_def list_files_filtered_def example_segment_facts)
  then have "sort_filenames (list_files Data_wal ?dk) =
      [example_segment 0 10] @ example_segment 3 20 # [example_segment 5 30]"
    by (simp add: sort_filenames_def segment_key_def [symmetric] example_segments_sorted less_eq_prod_def)
  from torn_segment_stops_replay [OF _ this, of "[[[5, 6]]]" "[[7]]" 9 "[8, 9]"] show ?thesis using ne
    by (simp add: holds_data_def example_disk_def storable_def data_entries_def)
qed

section \<open>What the writer leaves for the reader\<close>

definition disk_ok :: "wal_disk \<Rightarrow> bool" where
  "disk_ok dk \<longleftrightarrow> dk_can_open dk \<and> dk_can_write dk \<and> dk_can_rename dk \<and> dk_can_read dk \<and> dk_can_remove dk"

lemma disk_ok_files [simp]: "disk_ok (dk\<lparr>dk_files := m\<rparr>) = disk_ok dk"
  by (simp add: disk_ok_def)

lemma replay_files_append:
  "snd (replay_files dk fs) = None \<Longrightarrow>
   replay_files dk (fs @ gs) = (fst (replay_files dk fs) @ fst (replay_files dk gs), snd (replay_files dk gs))"
  by (induction fs) (auto split: option.splits prod.splits if_splits)

lemma replay_files_cong:
  assumes "\<And>f. f \<in> set fs \<Longrightarrow> hm_get (dk_files dk') f = hm_get (dk_files dk) f"
    and "dk_can_read dk' = dk_can_read dk" and "dk_io_error dk' = dk_io_error dk"
  shows "replay_files dk' fs = replay_files dk fs"
  using assms(1) by (induction fs) (simp_all add: assms(2,3) split: option.splits prod.splits)

lemma set_sort_filenames [simp]: "set (sort_filenames fs) = set fs"
  by (simp add: sort_filenames_def)

lemma streaming_read_cong:
  assumes "list_files u dk' = list_files u dk"
    and "\<And>f. f \<in> set (list_files u dk) \<Longrightarrow> hm_get (dk_files dk') f = hm_get (dk_files dk) f"
    and "dk_can_read dk' = dk_can_read dk" and "dk_io_error dk' = dk_io_error dk"
  shows "streaming_read u dk' = streaming_read u dk"
  unfolding streaming_read_def assms(1) by (rule replay_files_cong) (use assms in auto)

lemma list_files_frozen: "f \<in> set (list_files u dk) \<Longrightarrow> extension f = Some ''frozen''"
  by (auto simp: list_files_def list_files_filtered_def split: option.splits)

lemma list_files_insert_active:
  "extension name = Some ''wal'' \<Longrightarrow>
   list_files u (dk\<lparr>dk_files := hm_insert name c (dk_files dk)\<rparr>) = list_files u dk"
  by (simp add: list_files_def list_files_filtered_def update_keys)

lemma streaming_read_insert_active:
  assumes "extension name = Some ''wal''"
  shows "streaming_read u (dk\<lparr>dk_files := hm_insert name c (dk_files dk)\<rparr>) = streaming_read u dk"
  by (rule streaming_read_cong) (use assms list_files_insert_active list_files_frozen in fastforce)+

lemma filter_removeAll_other: "\<not> P x \<Longrightarrow> filter P (removeAll x xs) = filter P xs"
  by (induction xs) auto

lemma list_files_freeze:
  assumes "extension name = Some ''wal''" and "frozen_name name \<notin> set (hm_keys (dk_files dk))" and "name \<noteq> []"
  shows "list_files u (dk\<lparr>dk_files := hm_insert (frozen_name name) c (hm_remove name (dk_files dk))\<rparr>) =
    list_files u dk @ (if starts_with (segment_prefix u) (frozen_name name) then [frozen_name name] else [])"
proof -
  let ?P = "\<lambda>f. starts_with (segment_prefix u) f \<and> extension f = Some ''frozen''"
  have other: "frozen_name name \<notin> fst ` set (dk_files dk)" using assms(2) by simp
  have "list_files u dk' = filter ?P (hm_keys (dk_files dk'))" for dk'
    unfolding list_files_def list_files_filtered_def by (rule filter_cong) (auto split: option.splits)
  then show ?thesis
    using other assms(1) extension_frozen [OF assms(3)]
    by (simp add: update_keys delete_keys filter_removeAll_other)
qed

lemma sort_filenames_snoc:
  assumes "\<And>g. g \<in> set fs \<Longrightarrow> segment_key g \<le> segment_key f"
  shows "sort_filenames (fs @ [f]) = sort_filenames fs @ [f]"
proof -
  have flip: "(\<lambda>x. segment_key k = segment_key x) = (\<lambda>x. segment_key x = segment_key k)" for k by auto
  have "sort_key segment_key (fs @ [f]) = sort_key segment_key fs @ [f]"
  proof (rule properties_for_sort_key)
    show "sorted (map segment_key (sort_key segment_key fs @ [f]))"
      using assms by (simp add: sorted_append)
  qed (simp_all add: flip sort_key_stable)
  then show ?thesis unfolding sort_filenames_def segment_key_def .
qed

text \<open>
  Between two calls of the actor for log \<open>t\<close>: the frozen segments replay to \<open>L\<close> without an error and
  are older than the current one, which together with the buffer holds \<open>bs\<close>; the other logs read as
  they did on the disk \<open>dk0\<close>.
\<close>

definition good_time :: "datetime \<Rightarrow> bool" where
  "good_time now \<longleftrightarrow> 0 \<le> now \<and> now div 1000 < 2 ^ 64"

definition wal_core :: "wal_type \<Rightarrow> wal_disk \<Rightarrow> bytes list \<Rightarrow> bytes \<Rightarrow> segment_actor \<Rightarrow> wal_disk \<Rightarrow> bool" where
  "wal_core t dk0 L bs a dk \<longleftrightarrow>
     disk_ok dk \<and> swa_wal_type a = t \<and>
     swa_current_file_name a = segment_file_name t (swa_file_index a) (swa_create_time a div 1000) \<and>
     good_time (swa_create_time a) \<and> swa_file_index a < 2 ^ 32 \<and>
     (\<forall>f\<in>set (list_files t dk). segment_key f < (nat (swa_create_time a div 1000), swa_file_index a)) \<and>
     (\<forall>u. u \<noteq> t \<longrightarrow> streaming_read u dk = streaming_read u dk0) \<and>
     (\<exists>c. hm_get (dk_files dk) (swa_current_file_name a) = Some c \<and> c @ swa_current_file_buf a = bs) \<and>
     snd (streaming_read t dk) = None \<and> replayed (fst (streaming_read t dk)) = L"

lemma wal_core_append:
  assumes "wal_core t dk0 L bs a dk"
    and "hm_get (dk_files dk) (swa_current_file_name a) = Some c"
    and "c @ x @ buf = bs'"
  shows "wal_core t dk0 L bs' (a\<lparr>swa_current_file_buf := buf\<rparr>) (append_file (swa_current_file_name a) x dk)"
proof -
  have ext: "extension (swa_current_file_name a) = Some ''wal''"
    using assms(1) extension_segment by (simp add: wal_core_def)
  have "append_file (swa_current_file_name a) x dk =
      dk\<lparr>dk_files := hm_insert (swa_current_file_name a) (c @ x) (dk_files dk)\<rparr>"
    using assms(2) by (simp add: append_file_def)
  with assms show ?thesis
    using list_files_insert_active [OF ext] streaming_read_insert_active [OF ext]
    unfolding wal_core_def by simp
qed

lemma wal_core_buffer:
  assumes "wal_core t dk0 L bs a dk"
  shows "wal_core t dk0 L (bs @ x) (a\<lparr>swa_current_file_buf := swa_current_file_buf a @ x\<rparr>) dk"
  using assms unfolding wal_core_def by auto

lemma flush_core:
  assumes "wal_core t dk0 L bs a dk"
  shows "\<exists>dk'. flush a dk = (a\<lparr>swa_current_file_buf := []\<rparr>, dk', Inr ()) \<and>
    wal_core t dk0 L bs (a\<lparr>swa_current_file_buf := []\<rparr>) dk'"
proof (cases "swa_current_file_buf a = []")
  case True
  then have same: "a\<lparr>swa_current_file_buf := []\<rparr> = a" by (cases a) simp
  show ?thesis unfolding same using True assms by (simp add: flush_def)
next
  case False
  obtain c where c: "hm_get (dk_files dk) (swa_current_file_name a) = Some c" "c @ swa_current_file_buf a = bs"
    using assms unfolding wal_core_def by blast
  have "dk_can_write dk" using assms by (simp add: wal_core_def disk_ok_def)
  with False wal_core_append [OF assms c(1), of "swa_current_file_buf a" "[]"] c(2) show ?thesis
    by (simp add: flush_def)
qed

lemma and_then_ok: "r = (a, dk, Inr ()) \<Longrightarrow> and_then r f = f a dk"
  by (simp add: and_then_def)

lemma buf_write_core:
  assumes "wal_core t dk0 L bs a dk"
  shows "\<exists>buf dk'. buf_write data a dk = (a\<lparr>swa_current_file_buf := buf\<rparr>, dk', Inr ()) \<and>
    wal_core t dk0 L (bs @ data) (a\<lparr>swa_current_file_buf := buf\<rparr>) dk'"
proof -
  obtain buf1 dk1 where
    1: "(if length (swa_current_file_buf a) + length data > 8192 then flush a dk else (a, dk, Inr ())) =
        (a\<lparr>swa_current_file_buf := buf1\<rparr>, dk1, Inr ())"
    and core: "wal_core t dk0 L bs (a\<lparr>swa_current_file_buf := buf1\<rparr>) dk1"
    and full: "length data \<ge> 8192 \<longrightarrow> buf1 = []"
  proof (cases "length (swa_current_file_buf a) + length data > 8192")
    case True
    then show thesis using flush_core [OF assms] that by auto
  next
    case False
    then have "length data \<ge> 8192 \<longrightarrow> length (swa_current_file_buf a) = 0" by linarith
    then have "length data \<ge> 8192 \<longrightarrow> swa_current_file_buf a = []" by simp
    moreover have "a\<lparr>swa_current_file_buf := swa_current_file_buf a\<rparr> = a" by (cases a) simp
    ultimately show thesis using False assms that [of "swa_current_file_buf a" dk] by simp
  qed
  let ?a = "a\<lparr>swa_current_file_buf := buf1\<rparr>"
  show ?thesis
  proof (cases "length data \<ge> 8192")
    case True
    then have [simp]: "buf1 = []" using full by simp
    obtain c where c: "hm_get (dk_files dk1) (swa_current_file_name ?a) = Some c" "c @ swa_current_file_buf ?a = bs"
      using core unfolding wal_core_def by blast
    have "dk_can_write dk1" using core by (simp add: wal_core_def disk_ok_def)
    with True wal_core_append [OF core c(1), of data "[]"] c(2) show ?thesis
      unfolding buf_write_def and_then_ok [OF 1] by auto
  next
    case False
    with wal_core_buffer [OF core, of data] show ?thesis unfolding buf_write_def and_then_ok [OF 1] by auto
  qed
qed

lemma list_files_member:
  "f \<in> set (list_files u dk) \<longleftrightarrow>
   f \<in> set (hm_keys (dk_files dk)) \<and> starts_with (segment_prefix u) f \<and> extension f = Some ''frozen''"
  by (auto simp: list_files_def list_files_filtered_def split: option.splits)

lemma current_frozen_facts:
  assumes "wal_core t dk0 L bs a dk"
  shows "segment_key (frozen_name (swa_current_file_name a)) = (nat (swa_create_time a div 1000), swa_file_index a)"
    and "extension (swa_current_file_name a) = Some ''wal''" and "swa_current_file_name a \<noteq> []"
    and "starts_with (segment_prefix u) (frozen_name (swa_current_file_name a)) \<longleftrightarrow> u = t"
    and "frozen_name (swa_current_file_name a) \<notin> set (hm_keys (dk_files dk))"
proof -
  let ?n = "swa_current_file_name a"
  have name: "?n = segment_file_name t (swa_file_index a) (swa_create_time a div 1000)"
    and older: "\<forall>f\<in>set (list_files t dk). segment_key f < (nat (swa_create_time a div 1000), swa_file_index a)"
    using assms unfolding wal_core_def by blast+
  show key: "segment_key (frozen_name ?n) = (nat (swa_create_time a div 1000), swa_file_index a)"
    unfolding name using assms by (intro frozen_segment_key) (auto simp: wal_core_def good_time_def)
  show "extension ?n = Some ''wal''" "?n \<noteq> []" unfolding name by (simp_all add: extension_segment)
  show pre: "starts_with (segment_prefix u) (frozen_name ?n) \<longleftrightarrow> u = t" for u
    unfolding name by (rule prefix_of_frozen)
  have ext: "extension (frozen_name ?n) = Some ''frozen''" unfolding name by (simp add: extension_frozen)
  show "frozen_name ?n \<notin> set (hm_keys (dk_files dk))"
  proof
    assume "frozen_name ?n \<in> set (hm_keys (dk_files dk))"
    then have "frozen_name ?n \<in> set (list_files t dk)" unfolding list_files_member using pre ext by blast
    with older have "segment_key (frozen_name ?n) < (nat (swa_create_time a div 1000), swa_file_index a)" by blast
    then show False unfolding key by blast
  qed
qed

lemma rename_segment:
  assumes core: "wal_core t dk0 L (concat (map frame cur)) a dk" and "swa_current_file_buf a = []"
    and cur: "list_all storable cur"
  shows "\<exists>dk'. rename_file (swa_current_file_name a) (frozen_name (swa_current_file_name a)) dk = (dk', Inr ()) \<and>
    disk_ok dk' \<and>
    (\<forall>f\<in>set (list_files t dk'). segment_key f \<le> (nat (swa_create_time a div 1000), swa_file_index a)) \<and>
    (\<forall>u. u \<noteq> t \<longrightarrow> streaming_read u dk' = streaming_read u dk0) \<and>
    snd (streaming_read t dk') = None \<and> replayed (fst (streaming_read t dk')) = L @ cur"
proof -
  let ?n = "swa_current_file_name a" and ?c = "concat (map frame cur)"
  let ?key = "(nat (swa_create_time a div 1000), swa_file_index a)"
  let ?dk = "dk\<lparr>dk_files := hm_insert (frozen_name ?n) ?c (hm_remove ?n (dk_files dk))\<rparr>"
  note key = current_frozen_facts(1) [OF core] and ext = current_frozen_facts(2) [OF core]
    and new = current_frozen_facts(5) [OF core]
  have ok: "disk_ok dk" and older: "\<forall>f\<in>set (list_files t dk). segment_key f < ?key"
    using core unfolding wal_core_def by blast+
  have get: "hm_get (dk_files dk) ?n = Some ?c" using core assms(2) unfolding wal_core_def by auto
  have list: "list_files u ?dk = list_files u dk @ (if u = t then [frozen_name ?n] else [])" for u
    using list_files_freeze [OF ext new current_frozen_facts(3) [OF core]] current_frozen_facts(4) [OF core] by simp
  have kept: "hm_get (dk_files ?dk) f = hm_get (dk_files dk) f" if "f \<in> set (list_files u dk)" for f u
  proof -
    have "f \<noteq> ?n" using list_files_frozen [OF that] ext by auto
    moreover have "f \<noteq> frozen_name ?n" using that new unfolding list_files_member by blast
    ultimately show ?thesis by simp
  qed
  have other: "streaming_read u ?dk = streaming_read u dk" if "u \<noteq> t" for u
    by (rule streaming_read_cong) (use list that kept in simp_all)
  have sorted: "sort_filenames (list_files t ?dk) = sort_filenames (list_files t dk) @ [frozen_name ?n]"
    unfolding list using older key by (simp add: sort_filenames_snoc less_imp_le)
  have old: "replay_files ?dk (sort_filenames (list_files t dk)) = streaming_read t dk"
    unfolding streaming_read_def by (rule replay_files_cong) (use kept in simp_all)
  have last: "replay_files ?dk [frozen_name ?n] = (data_entries cur @ [CmdFileSwitch (frozen_name ?n)], None)"
    using ok read_segment_frames [OF cur] by (simp add: disk_ok_def)
  have none: "snd (replay_files ?dk (sort_filenames (list_files t dk))) = None"
    unfolding old using core unfolding wal_core_def by blast
  have "streaming_read t ?dk =
      (fst (streaming_read t dk) @ data_entries cur @ [CmdFileSwitch (frozen_name ?n)], None)"
    unfolding streaming_read_def [of t ?dk] sorted replay_files_append [OF none] unfolding old last by (simp only: fst_conv snd_conv)
  moreover have "rename_file ?n (frozen_name ?n) dk = (?dk, Inr ())"
    using ok get by (simp add: rename_file_def disk_ok_def)
  moreover have "\<forall>f\<in>set (list_files t ?dk). segment_key f \<le> ?key" unfolding list using older key by (auto simp: less_imp_le)
  moreover have "\<forall>u. u \<noteq> t \<longrightarrow> streaming_read u ?dk = streaming_read u dk0"
    and "replayed (fst (streaming_read t dk)) = L"
    using other core unfolding wal_core_def by simp_all
  ultimately show ?thesis using ok by (intro exI [of _ ?dk]) simp
qed

lemma open_segment_core:
  assumes "disk_ok dk" and "\<forall>f\<in>set (list_files t dk). segment_key f < (nat (now div 1000), swa_file_index a)"
    and "\<forall>u. u \<noteq> t \<longrightarrow> streaming_read u dk = streaming_read u dk0"
    and "snd (streaming_read t dk) = None" and "replayed (fst (streaming_read t dk)) = L"
    and "swa_wal_type a = t" and "good_time now" and "swa_file_index a < 2 ^ 32"
    and "swa_current_file_name a = segment_file_name t (swa_file_index a) (now div 1000)"
    and "swa_create_time a = now" and "swa_current_file_buf a = []"
  shows "\<exists>dk'. open_segment t (swa_file_index a) now dk = (dk', Inr (swa_current_file_name a)) \<and>
    wal_core t dk0 L [] a dk'"
proof -
  let ?dk = "dk\<lparr>dk_files := hm_insert (swa_current_file_name a) [] (dk_files dk)\<rparr>"
  have ext: "extension (swa_current_file_name a) = Some ''wal''" by (simp add: assms(9) extension_segment)
  have "open_segment t (swa_file_index a) now dk = (?dk, Inr (swa_current_file_name a))"
    using assms(1,9) by (simp add: open_segment_def disk_ok_def Let_def)
  moreover have "wal_core t dk0 L [] a ?dk"
    unfolding wal_core_def list_files_insert_active [OF ext] streaming_read_insert_active [OF ext] disk_ok_files
    using assms by simp
  ultimately show ?thesis by blast
qed

definition wal_inv :: "wal_type \<Rightarrow> wal_disk \<Rightarrow> bytes list \<Rightarrow> bytes list \<Rightarrow> segment_actor \<Rightarrow> wal_disk \<Rightarrow> bool" where
  "wal_inv t dk0 L cur a dk \<longleftrightarrow>
     wal_core t dk0 L (concat (map frame cur)) a dk \<and> list_all (\<lambda>d. storable d \<and> d \<noteq> []) cur \<and>
     swa_current_size a = sum_list (map length cur)"

lemma wal_inv_storable: "wal_inv t dk0 L cur a dk \<Longrightarrow> list_all storable cur"
  by (auto simp: wal_inv_def list_all_iff)

lemma wal_inv_empty: "wal_inv t dk0 L cur a dk \<Longrightarrow> swa_current_size a = 0 \<longleftrightarrow> cur = []"
  by (cases cur) (auto simp: wal_inv_def)

lemma next_segment_later:
  fixes m m' :: int and i :: nat
  shows "m \<le> m' \<Longrightarrow> (nat m, i) < (nat m', i + 1)"
  by (cases "nat m = nat m'") (auto simp: less_prod_def less_le nat_mono)

lemma flush_inv:
  assumes "wal_inv t dk0 L cur a dk"
  shows "\<exists>dk'. flush a dk = (a\<lparr>swa_current_file_buf := []\<rparr>, dk', Inr ()) \<and>
    wal_inv t dk0 L cur (a\<lparr>swa_current_file_buf := []\<rparr>) dk'"
  using assms flush_core [of t dk0 L "concat (map frame cur)" a dk] unfolding wal_inv_def by auto

lemma rotate_new_inv:
  assumes "wal_inv t dk0 L cur a dk" and "good_time now" and "swa_create_time a \<le> now"
    and "swa_file_index a + 1 < 2 ^ 32" and "cur \<noteq> []"
  shows "\<exists>a' dk'. rotate_file True now a dk = (a', dk', Inr ()) \<and> wal_inv t dk0 (L @ cur) [] a' dk' \<and>
    swa_file_index a' = swa_file_index a + 1 \<and> swa_create_time a' = now"
proof -
  let ?a = "a\<lparr>swa_current_file_buf := []\<rparr>"
  obtain dk1 where fl: "flush a dk = (?a, dk1, Inr ())" and inv1: "wal_inv t dk0 L cur ?a dk1"
    using flush_inv [OF assms(1)] by blast
  obtain dk2 where rn: "rename_file (swa_current_file_name ?a) (frozen_name (swa_current_file_name ?a)) dk1 = (dk2, Inr ())"
    and ok: "disk_ok dk2"
    and older: "\<forall>f\<in>set (list_files t dk2). segment_key f \<le> (nat (swa_create_time ?a div 1000), swa_file_index ?a)"
    and rest_of: "\<forall>u. u \<noteq> t \<longrightarrow> streaming_read u dk2 = streaming_read u dk0"
      "snd (streaming_read t dk2) = None" "replayed (fst (streaming_read t dk2)) = L @ cur"
    using rename_segment [of t dk0 L cur ?a dk1] inv1 wal_inv_storable [OF inv1] unfolding wal_inv_def by auto
  let ?b = "a\<lparr>swa_file_index := swa_file_index a + 1,
    swa_current_file_name := segment_file_name t (swa_file_index a + 1) (now div 1000), swa_current_file_buf := [],
    swa_create_time := now, swa_current_size := 0\<rparr>"
  have kind: "swa_wal_type a = t" using assms(1) by (simp add: wal_inv_def wal_core_def)
  have "swa_create_time a div 1000 \<le> now div 1000" using assms(3) by (rule zdiv_mono1) simp
  from next_segment_later [OF this] have "\<forall>f\<in>set (list_files t dk2). segment_key f < (nat (now div 1000), swa_file_index ?b)"
    using older by (auto intro: le_less_trans)
  from open_segment_core [OF ok this rest_of] obtain dk3 where
    opened: "open_segment t (swa_file_index a + 1) now dk2 = (dk3, Inr (swa_current_file_name ?b))"
    and core: "wal_core t dk0 (L @ cur) [] ?b dk3"
    using kind assms(2,4) by auto
  have size: "swa_current_size a \<noteq> 0" using wal_inv_empty [OF assms(1)] assms(5) by simp
  have "rotate_file True now a dk = (?b, dk3, Inr ())"
    using size opened rn kind unfolding rotate_file_def and_then_ok [OF fl] by simp
  moreover have "wal_inv t dk0 (L @ cur) [] ?b dk3" using core by (simp add: wal_inv_def)
  ultimately show ?thesis by auto
qed

text \<open>\<open>W\<close> is what was written so far, frozen or not; one command freezes at most one segment.\<close>

definition wal_state :: "wal_type \<Rightarrow> wal_disk \<Rightarrow> bytes list \<Rightarrow> segment_actor \<Rightarrow> wal_disk \<Rightarrow> bool" where
  "wal_state t dk0 W a dk \<longleftrightarrow> (\<exists>L cur. W = L @ cur \<and> wal_inv t dk0 L cur a dk)"

definition stepped :: "wal_type \<Rightarrow> wal_disk \<Rightarrow> bytes list \<Rightarrow> datetime \<Rightarrow> segment_actor \<Rightarrow> wal_step \<Rightarrow> bool" where
  "stepped t dk0 W now a r \<longleftrightarrow>
     (\<exists>a' dk'. r = (a', dk', Inr ()) \<and> wal_state t dk0 W a' dk' \<and>
        swa_file_index a' \<le> swa_file_index a + 1 \<and> swa_create_time a' \<le> now)"

definition ready :: "datetime \<Rightarrow> segment_actor \<Rightarrow> bool" where
  "ready now a \<longleftrightarrow> good_time now \<and> swa_create_time a \<le> now \<and> swa_file_index a + 1 < 2 ^ 32"

lemma flush_stepped: "wal_state t dk0 W a dk \<Longrightarrow> ready now a \<Longrightarrow> stepped t dk0 W now a (flush a dk)"
  using flush_inv unfolding wal_state_def stepped_def ready_def by fastforce

lemma rotate_stepped:
  assumes "wal_state t dk0 W a dk" and "ready now a"
  shows "\<exists>a' dk'. rotate_file True now a dk = (a', dk', Inr ()) \<and> wal_state t dk0 W a' dk' \<and>
    swa_file_index a' \<le> swa_file_index a + 1 \<and> swa_create_time a' \<le> now \<and> swa_current_size a' = 0"
proof -
  obtain L cur where W: "W = L @ cur" and inv: "wal_inv t dk0 L cur a dk"
    using assms(1) unfolding wal_state_def by blast
  show ?thesis
  proof (cases "cur = []")
    case True
    then have "swa_current_size a = 0" using wal_inv_empty [OF inv] by simp
    then show ?thesis using assms by (simp add: rotate_file_def ready_def)
  next
    case False
    obtain a' dk' where "rotate_file True now a dk = (a', dk', Inr ())" and inv': "wal_inv t dk0 W [] a' dk'"
      and "swa_file_index a' = swa_file_index a + 1" and "swa_create_time a' = now"
      using rotate_new_inv [OF inv _ _ _ False] assms(2) W unfolding ready_def by blast
    moreover have "wal_state t dk0 W a' dk'" using inv' unfolding wal_state_def by auto
    moreover have "swa_current_size a' = 0" using wal_inv_empty [OF inv'] by simp
    ultimately show ?thesis by simp
  qed
qed

lemma frame_stepped:
  assumes "wal_state t dk0 W a dk" and "storable data" and "data \<noteq> []"
  shows "\<exists>a' dk'. and_then (buf_write (le_bytes 8 (length data)) a dk) (\<lambda>a dk.
       and_then (buf_write data a dk) (\<lambda>a dk.
         (a\<lparr>swa_current_size := swa_current_size a + length data\<rparr>, dk, Inr ()))) = (a', dk', Inr ()) \<and>
     wal_state t dk0 (W @ [data]) a' dk' \<and> swa_file_index a' = swa_file_index a \<and> swa_create_time a' = swa_create_time a"
proof -
  obtain L cur where W: "W = L @ cur" and inv: "wal_inv t dk0 L cur a dk"
    using assms(1) unfolding wal_state_def by blast
  then have "wal_core t dk0 L (concat (map frame cur)) a dk" unfolding wal_inv_def by blast
  from buf_write_core [OF this] obtain b1 dk1 where
    1: "buf_write (le_bytes 8 (length data)) a dk = (a\<lparr>swa_current_file_buf := b1\<rparr>, dk1, Inr ())"
    and "wal_core t dk0 L (concat (map frame cur) @ le_bytes 8 (length data)) (a\<lparr>swa_current_file_buf := b1\<rparr>) dk1"
    by blast
  from buf_write_core [OF this(2), of data] obtain b2 dk2 where
    2: "buf_write data (a\<lparr>swa_current_file_buf := b1\<rparr>) dk1 = (a\<lparr>swa_current_file_buf := b2\<rparr>, dk2, Inr ())"
    and core: "wal_core t dk0 L (concat (map frame (cur @ [data]))) (a\<lparr>swa_current_file_buf := b2\<rparr>) dk2"
    by (auto simp: frame_def)
  let ?a = "a\<lparr>swa_current_file_buf := b2, swa_current_size := swa_current_size a + length data\<rparr>"
  have "wal_inv t dk0 L (cur @ [data]) ?a dk2"
    using core inv assms(2,3) unfolding wal_inv_def wal_core_def by simp
  then have "wal_state t dk0 (W @ [data]) ?a dk2" unfolding wal_state_def W by (metis append_assoc)
  then show ?thesis unfolding and_then_ok [OF 1] and_then_ok [OF 2] by simp
qed

lemma write_data_stepped:
  assumes "wal_state t dk0 W a dk" and "ready now a" and "storable data" and "data \<noteq> []"
  shows "stepped t dk0 (W @ [data]) now a (write_data now data a dk)"
proof -
  define big where "big \<longleftrightarrow> swa_current_size a > 0 \<and> swa_current_size a + length data \<ge> swa_max_file_size a"
  define old where "old \<longleftrightarrow> swa_current_size a > 0 \<and> now - swa_create_time a > swa_max_segment_age a"
  have "\<exists>a' dk'. stepped t dk0 W now a (a', dk', Inr ()) \<and>
      write_data now data a dk = and_then (buf_write (le_bytes 8 (length data)) a' dk') (\<lambda>a dk.
         and_then (buf_write data a dk) (\<lambda>a dk.
           (a\<lparr>swa_current_size := swa_current_size a + length data\<rparr>, dk, Inr ())))"
  proof (cases "big \<or> old")
    case True
    obtain a' dk' where rot: "rotate_file True now a dk = (a', dk', Inr ())" and size: "swa_current_size a' = 0"
      and st: "stepped t dk0 W now a (a', dk', Inr ())"
      using rotate_stepped [OF assms(1,2)] unfolding stepped_def by blast
    have "and_then (if big then rotate_file True now a dk else (a, dk, Inr ())) (\<lambda>a dk.
       and_then (if swa_current_size a > 0 \<and> now - swa_create_time a > swa_max_segment_age a
         then rotate_file True now a dk else (a, dk, Inr ())) k) = k a' dk'" for k
      using True rot size by (cases big) (simp_all add: and_then_def old_def)
    with st show ?thesis unfolding write_data_def big_def by blast
  next
    case False
    then have "stepped t dk0 W now a (a, dk, Inr ())"
      using assms(1,2) unfolding stepped_def ready_def by simp
    moreover have "and_then (if big then rotate_file True now a dk else (a, dk, Inr ())) (\<lambda>a dk.
       and_then (if swa_current_size a > 0 \<and> now - swa_create_time a > swa_max_segment_age a
         then rotate_file True now a dk else (a, dk, Inr ())) k) = k a dk" for k
      using False by (cases big) (auto simp: and_then_def old_def)
    ultimately show ?thesis unfolding write_data_def big_def by blast
  qed
  then show ?thesis using frame_stepped [OF _ assms(3,4)] unfolding stepped_def by fastforce
qed

definition input_data :: "(proto_read_message \<Rightarrow> bytes) \<Rightarrow> (string \<Rightarrow> string) \<Rightarrow> segment_input \<Rightarrow> bytes list" where
  "input_data encode lossy inp =
     (case inp of
        Command (WriteMessage m) \<Rightarrow> (case wal_message_to_bytes encode lossy m of Inl e \<Rightarrow> [] | Inr d \<Rightarrow> [d])
      | Command (WriteGcEvent d) \<Rightarrow> [d]
      | _ \<Rightarrow> [])"

definition input_acks :: "segment_input \<Rightarrow> ack_event list" where
  "input_acks inp = (case inp of Command (WriteMessage m) \<Rightarrow> [Succeed] | _ \<Rightarrow> [])"

text \<open>A message has an integer offset and every entry is between one byte and the largest length.\<close>

definition input_ok :: "(proto_read_message \<Rightarrow> bytes) \<Rightarrow> (string \<Rightarrow> string) \<Rightarrow> segment_input \<Rightarrow> bool" where
  "input_ok encode lossy inp \<longleftrightarrow>
     list_all (\<lambda>d. storable d \<and> d \<noteq> []) (input_data encode lossy inp) \<and>
     (case inp of Command (WriteMessage m) \<Rightarrow> (\<exists>i. msg_offset m = Int_offset i) | _ \<Rightarrow> True)"

lemma run_input_stepped:
  assumes "wal_state t dk0 W a dk" and "ready now a" and "input_ok encode lossy inp"
  shows "\<exists>r. run_input encode lossy now inp a dk =
      Some (r, case input_acks inp of [] \<Rightarrow> None | e # es \<Rightarrow> Some e) \<and>
    stepped t dk0 (W @ input_data encode lossy inp) now a r"
proof -
  have rot: "stepped t dk0 W now a (rotate_file True now a dk)"
    using rotate_stepped [OF assms(1,2)] unfolding stepped_def by blast
  have keep: "stepped t dk0 W now a (a, dk, Inr ())" using assms(1,2) unfolding stepped_def ready_def by simp
  show ?thesis
  proof (cases inp)
    case (Command msg)
    show ?thesis
    proof (cases msg)
      case (WriteMessage m)
      then obtain d where d: "wal_message_to_bytes encode lossy m = Inr d" "storable d" "d \<noteq> []"
        using assms(3) Command by (auto simp: input_ok_def input_data_def wal_message_to_bytes_def)
      from write_data_stepped [OF assms(1,2) d(2,3)] obtain a' dk' where
        "write_data now d a dk = (a', dk', Inr ())" and "stepped t dk0 (W @ [d]) now a (a', dk', Inr ())"
        unfolding stepped_def by blast
      with d(1) show ?thesis
        by (simp add: run_input_def handle_segment_message_def Command WriteMessage input_acks_def input_data_def)
    next
      case (WriteGcEvent d)
      with assms(3) Command have "storable d" "d \<noteq> []" by (simp_all add: input_ok_def input_data_def)
      from write_data_stepped [OF assms(1,2) this] show ?thesis
        by (simp add: run_input_def handle_segment_message_def Command WriteGcEvent input_acks_def input_data_def)
    next
      case (Rotate on_size)
      with rot keep show ?thesis
        by (simp add: run_input_def handle_segment_message_def Command input_acks_def input_data_def)
    qed
  next
    case Timed_out
    with rot flush_stepped [OF assms(1,2)] show ?thesis
      by (simp add: run_input_def flush_and_rotate_def input_acks_def input_data_def)
  next
    case Flush_tick
    with flush_stepped [OF assms(1,2)] show ?thesis by (simp add: run_input_def input_acks_def input_data_def)
  qed
qed

text \<open>The log \<open>t\<close> replays to \<open>W\<close> without an error, and the other logs as they did on \<open>dk0\<close>.\<close>

definition log_is :: "wal_type \<Rightarrow> wal_disk \<Rightarrow> bytes list \<Rightarrow> wal_disk \<Rightarrow> bool" where
  "log_is t dk0 W dk \<longleftrightarrow>
     disk_ok dk \<and> snd (streaming_read t dk) = None \<and> replayed (fst (streaming_read t dk)) = W \<and>
     (\<forall>u. u \<noteq> t \<longrightarrow> streaming_read u dk = streaming_read u dk0)"

lemma final_rotate:
  assumes "wal_state t dk0 W a dk"
  shows "\<exists>a' dk'. rotate_file False now a dk = (a', dk', Inr ()) \<and> log_is t dk0 W dk'"
proof -
  obtain L cur where W: "W = L @ cur" and inv: "wal_inv t dk0 L cur a dk"
    using assms unfolding wal_state_def by blast
  show ?thesis
  proof (cases "cur = []")
    case True
    then show ?thesis using wal_inv_empty [OF inv] inv W
      by (simp add: rotate_file_def log_is_def wal_inv_def wal_core_def)
  next
    case False
    let ?a = "a\<lparr>swa_current_file_buf := []\<rparr>"
    obtain dk1 where fl: "flush a dk = (?a, dk1, Inr ())" and inv1: "wal_inv t dk0 L cur ?a dk1"
      using flush_inv [OF inv] by blast
    from rename_segment [of t dk0 L cur ?a dk1] wal_inv_storable [OF inv1] inv1
    obtain dk2 where "rename_file (swa_current_file_name ?a) (frozen_name (swa_current_file_name ?a)) dk1 = (dk2, Inr ())"
      and "log_is t dk0 W dk2"
      unfolding wal_inv_def log_is_def W by auto
    then show ?thesis using wal_inv_empty [OF inv] False unfolding rotate_file_def and_then_ok [OF fl] by simp
  qed
qed

lemma run_inputs_state:
  assumes "wal_state t dk0 W a dk" and "list_all (\<lambda>(now, inp). input_ok encode lossy inp) inputs"
    and "sorted (swa_create_time a # map fst inputs)" and "list_all (\<lambda>(now, inp). good_time now) inputs"
    and "swa_file_index a + length inputs < 2 ^ 32"
  shows "\<exists>a' dk'. run_inputs encode lossy inputs a dk =
      Some ((a', dk', Inr ()), concat (map (\<lambda>(now, inp). input_acks inp) inputs)) \<and>
    wal_state t dk0 (W @ concat (map (\<lambda>(now, inp). input_data encode lossy inp) inputs)) a' dk'"
  using assms
proof (induction inputs arbitrary: W a dk)
  case (Cons x inputs)
  obtain now inp where x: "x = (now, inp)" by (cases x)
  let ?W = "W @ input_data encode lossy inp"
  have "ready now a" using Cons.prems(3,4,5) by (simp add: x ready_def)
  from run_input_stepped [OF Cons.prems(1) this, of encode lossy inp] Cons.prems(2)
  obtain a1 dk1 where run: "run_input encode lossy now inp a dk =
      Some ((a1, dk1, Inr ()), case input_acks inp of [] \<Rightarrow> None | e # es \<Rightarrow> Some e)"
    and st: "wal_state t dk0 ?W a1 dk1" and i: "swa_file_index a1 \<le> swa_file_index a + 1"
    and le: "swa_create_time a1 \<le> now"
    unfolding stepped_def x by auto
  have "sorted (swa_create_time a1 # map fst inputs)" using Cons.prems(3) le by (auto simp: x)
  moreover have "swa_file_index a1 + length inputs < 2 ^ 32" using Cons.prems(5) i by simp
  ultimately obtain a' dk' where "run_inputs encode lossy inputs a1 dk1 =
      Some ((a', dk', Inr ()), concat (map (\<lambda>(now, inp). input_acks inp) inputs))"
    and "wal_state t dk0 (?W @ concat (map (\<lambda>(now, inp). input_data encode lossy inp) inputs)) a' dk'"
    using Cons.IH [OF st] Cons.prems(2,4) by auto
  moreover have "(case (case input_acks inp of [] \<Rightarrow> None | e # es \<Rightarrow> Some e) of None \<Rightarrow> [] | Some e \<Rightarrow> [e]) = input_acks inp"
    by (auto simp: input_acks_def split: segment_input.splits segment_write_message.splits)
  ultimately show ?case by (auto simp: x run)
qed simp

lemma start_processing_run:
  assumes "wal_state t dk0 W a dk" and "list_all (\<lambda>(now, inp). input_ok encode lossy inp) inputs"
    and "sorted (swa_create_time a # map fst inputs)" and "list_all (\<lambda>(now, inp). good_time now) inputs"
    and "swa_file_index a + length inputs < 2 ^ 32"
  shows "\<exists>a' dk'. start_processing encode lossy inputs stop a dk =
      Some ((a', dk', Inr ()), concat (map (\<lambda>(now, inp). input_acks inp) inputs)) \<and>
    log_is t dk0 (W @ concat (map (\<lambda>(now, inp). input_data encode lossy inp) inputs)) dk'"
proof -
  obtain a1 dk1 where run: "run_inputs encode lossy inputs a dk =
      Some ((a1, dk1, Inr ()), concat (map (\<lambda>(now, inp). input_acks inp) inputs))"
    and "wal_state t dk0 (W @ concat (map (\<lambda>(now, inp). input_data encode lossy inp) inputs)) a1 dk1"
    using run_inputs_state [OF assms] by blast
  from final_rotate [OF this(2), of stop] show ?thesis
    unfolding start_processing_def run by (auto simp: and_then_def)
qed

text \<open>
  C7. What the writer of the log is given is what a replay returns. Whatever the order in which
  messages, garbage-collection events, rotations, timeouts and flushes arrive, and wherever the
  segments are cut by size or by age, once the writer has stopped every message is acknowledged as
  written and the log replays to the entries it held before followed by the new ones, in the order of
  the writes, with no entry lost, repeated or torn; the other logs of the directory are unchanged.
\<close>

theorem wal_write_then_replay:
  assumes "disk_ok dk" and "snd (streaming_read t dk) = None"
    and "\<forall>f\<in>set (list_files t dk). parse_segment_create_micros f < nat (now div 1000)"
    and "list_all (\<lambda>(at_time, inp). input_ok encode lossy inp) inputs"
    and "sorted (now # map fst inputs)" and "list_all good_time (now # map fst inputs)"
    and "length inputs < 2 ^ 32"
  shows "\<exists>dk'. streaming_write encode lossy t max_file_size_mb max_segment_age_secs now inputs stop dk =
      Some (dk', Inr (), concat (map (\<lambda>(at_time, inp). input_acks inp) inputs)) \<and>
    snd (streaming_read t dk') = None \<and>
    replayed (fst (streaming_read t dk')) =
      replayed (fst (streaming_read t dk)) @ concat (map (\<lambda>(at_time, inp). input_data encode lossy inp) inputs) \<and>
    (\<forall>u. u \<noteq> t \<longrightarrow> streaming_read u dk' = streaming_read u dk)"
proof -
  let ?L = "replayed (fst (streaming_read t dk))"
  let ?a = "segment_actor_new t (segment_file_name t 0 (now div 1000)) now (max_file_size_mb * 1024 * 1024)
    (int max_segment_age_secs * 1000000000)"
  have "\<forall>f\<in>set (list_files t dk). segment_key f < (nat (now div 1000), swa_file_index ?a)"
    using assms(3) by (simp add: segment_key_def less_prod_def)
  from open_segment_core [OF assms(1) this, of dk ?L] obtain dk1 where
    opened: "open_segment t 0 now dk = (dk1, Inr (segment_file_name t 0 (now div 1000)))"
    and "wal_core t dk ?L [] ?a dk1"
    using assms(2,6) by (auto simp: segment_actor_new_def)
  then have "wal_inv t dk ?L [] ?a dk1" by (simp add: wal_inv_def segment_actor_new_def)
  then have "wal_state t dk ?L ?a dk1" unfolding wal_state_def by auto
  moreover have "sorted (swa_create_time ?a # map fst inputs)" using assms(5) by (simp add: segment_actor_new_def)
  moreover have "list_all (\<lambda>(at_time, inp). good_time at_time) inputs"
    using assms(6) by (auto simp: list_all_iff)
  ultimately obtain a' dk' where "start_processing encode lossy inputs stop ?a dk1 =
      Some ((a', dk', Inr ()), concat (map (\<lambda>(at_time, inp). input_acks inp) inputs))"
    and "log_is t dk (?L @ concat (map (\<lambda>(at_time, inp). input_data encode lossy inp) inputs)) dk'"
    using start_processing_run [of t dk ?L ?a dk1 encode lossy inputs stop] assms(4,7)
    by (auto simp: segment_actor_new_def)
  then show ?thesis by (simp add: streaming_write_def opened log_is_def)
qed

definition example_message :: message where
  "example_message = (message_default 5)\<lparr>msg_offset := Int_offset \<lparr>io_offset = 7, io_partition_idx = 0\<rparr>\<rparr>"

theorem wal_write_then_replay_witness:
  "\<exists>dk'. streaming_write (\<lambda>_. [42]) (\<lambda>s. s) Data_wal 1 60 5000
     [(6000, Command (WriteMessage example_message)), (7000, Flush_tick), (7000, Command (Rotate False)),
      (9000, Timed_out), (9500, Command (WriteMessage example_message)), (9600, Command (WriteGcEvent [1, 2]))]
     9700 (example_disk [(example_segment 0 3, frame [9])]) = Some (dk', Inr (), [Succeed, Succeed]) \<and>
   snd (streaming_read Data_wal dk') = None \<and>
   replayed (fst (streaming_read Data_wal dk')) = [[9], [42], [42], [1, 2]]"
  (is "\<exists>dk'. streaming_write ?encode ?lossy _ _ _ _ ?inputs _ ?dk = _ \<and> _")
proof -
  have key: "segment_key (example_segment 0 3) = (3, 0)" by (simp add: example_segment_def frozen_segment_key)
  have files: "list_files Data_wal ?dk = [example_segment 0 3]"
    by (simp add: example_disk_def list_files_def list_files_filtered_def example_segment_facts)
  have rd: "streaming_read Data_wal ?dk = (data_entries [[9]] @ [CmdFileSwitch (example_segment 0 3)], None)"
    unfolding streaming_read_def files using read_segment_frames [of "[[9]]"]
    by (simp add: sort_filenames_def example_disk_def storable_def)
  have older: "\<forall>f\<in>set (list_files Data_wal ?dk). parse_segment_create_micros f < nat (5000 div 1000)"
    using key by (simp add: files segment_key_def)
  have ok: "disk_ok ?dk" by (simp add: disk_ok_def example_disk_def)
  have none: "snd (streaming_read Data_wal ?dk) = None" by (simp add: rd)
  have inputs: "list_all (\<lambda>(at_time, inp). input_ok ?encode ?lossy inp) ?inputs"
    by (simp add: input_ok_def input_data_def example_message_def wal_message_to_bytes_def storable_def)
  have acks: "concat (map (\<lambda>(at_time, inp). input_acks inp) ?inputs) = [Succeed, Succeed]"
    by (simp add: input_acks_def)
  have data: "concat (map (\<lambda>(at_time, inp). input_data ?encode ?lossy inp) ?inputs) = [[42], [42], [1, 2]]"
    by (simp add: input_data_def example_message_def wal_message_to_bytes_def)
  show ?thesis
    using wal_write_then_replay [OF ok none older inputs, of 1 60 9700] replayed_data_entries [of "[[9]]"]
    unfolding acks data by (auto simp: rd good_time_def)
qed

section \<open>What a message keeps in the log\<close>

lemma wal_message_roundtrip:
  assumes "\<And>rm. decode (encode rm) = Inr rm" and "decodes_timestamps from_timestamp"
    and "representable (msg_event_time m)" and "\<And>w. msg_watermark m = Some w \<Longrightarrow> representable w"
    and "lossy (mid_vertex_name (msg_id m)) = mid_vertex_name (msg_id m)"
    and "lossy (mid_offset (msg_id m)) = mid_offset (msg_id m)"
    and "wal_message_to_bytes encode lossy m = Inr bs"
  shows "\<exists>i. msg_offset m = Int_offset i \<and> wal_message_from_bytes decode from_timestamp bs =
    Some (Inr (m\<lparr>msg_tags := None, msg_offset := Int_offset \<lparr>io_offset = io_offset i, io_partition_idx = 0\<rparr>,
      msg_headers := [], msg_metadata := None, msg_nack_options := None\<rparr>))"
proof -
  obtain i where i: "msg_offset m = Int_offset i"
    using assms(7) by (cases "msg_offset m") (simp_all add: wal_message_to_bytes_def)
  have kind: "message_type_from_i32 (message_type_to_i32 (msg_typ m)) = msg_typ m"
    by (cases "msg_typ m") (simp_all add: message_type_from_i32_def message_type_to_i32_def)
  have wm: "map_option (utc_from_timestamp from_timestamp) (map_option prost_timestamp_from_utc (msg_watermark m)) =
      msg_watermark m"
    using assms(4) timestamp_roundtrip [OF assms(2)] by (cases "msg_watermark m") simp_all
  have "encode \<lparr>prm_message = Some
      \<lparr>pm_header = Some
         \<lparr>ph_message_info = Some \<lparr>pmi_event_time = Some (prost_timestamp_from_utc (msg_event_time m)),
            pmi_is_late = msg_is_late m\<rparr>,
          ph_kind = message_type_to_i32 (msg_typ m), ph_id = Some (message_id_to_proto lossy (msg_id m)),
          ph_keys = msg_keys m, ph_headers = msg_headers m, ph_metadata = msg_metadata m\<rparr>,
       pm_body = Some (msg_value m)\<rparr>,
      prm_read_offset = io_offset i,
      prm_watermark = map_option prost_timestamp_from_utc (msg_watermark m)\<rparr> = bs"
    using assms(7) by (simp add: wal_message_to_bytes_def i)
  from this [symmetric] show ?thesis using assms(5,6) wm kind timestamp_roundtrip [OF assms(2,3)]
    by (simp add: i wal_message_from_bytes_def assms(1) message_default_def message_id_to_proto_def)
qed

text \<open>
  A message is acknowledged when it is in the buffer: as long as the buffer has room the disk is the
  same before and after.
\<close>

lemma acknowledged_before_flush:
  assumes "wal_message_to_bytes encode lossy m = Inr data" and "swa_current_size a = 0"
    and "length (swa_current_file_buf a) + 8 + length data < 8192"
  shows "\<exists>a'. handle_segment_message encode lossy now (WriteMessage m) a dk = Some ((a', dk, Inr ()), Some Succeed)"
  using assms by (simp add: handle_segment_message_def write_data_def buf_write_def and_then_def)

end
