(* ===== verification/WalCompactor.thy ===== *)
theory WalCompactor
  imports WalSegment AlignedReducer UnalignedWindows
begin

text \<open>
  The compaction of the write-ahead log (\<^verbatim>\<open>numaflow-core/src/reduce/wal/segment/compactor.rs\<close>): the
  garbage-collection events are read into the time below which messages have been processed, for the
  whole vertex or for each key; the compacted and the data segments are replayed, what has not been
  processed is sent to the writer of the compaction log and, at boot, to the reduce loop, and the
  segments that were read are deleted. The writer is the actor of WalSegment: it receives what was
  sent in order, after the compactor sent it. The protobuf codecs are parameters and \<open>None\<close> is a panic.
\<close>

section \<open>Garbage-collection events\<close>

record gc_event_entry =
  gce_start_time :: datetime
  gce_end_time :: datetime
  gce_keys :: "string list option"

definition gc_event_entry_of :: "(i64 \<Rightarrow> nat \<Rightarrow> datetime option) \<Rightarrow> gc_event \<Rightarrow> gc_event_entry option" where
  "gc_event_entry_of from_timestamp g =
     (case (gc_start_time g, gc_end_time g) of
        (Some s, Some e) \<Rightarrow> Some \<lparr>gce_start_time = utc_from_timestamp from_timestamp s,
           gce_end_time = utc_from_timestamp from_timestamp e, gce_keys = Some (gc_keys g)\<rparr>
      | _ \<Rightarrow> None)"

definition gc_event_of_entry :: "gc_event_entry \<Rightarrow> gc_event" where
  "gc_event_of_entry g =
     \<lparr>gc_start_time = Some (prost_timestamp_from_utc (gce_start_time g)),
      gc_end_time = Some (prost_timestamp_from_utc (gce_end_time g)),
      gc_keys = (case gce_keys g of Some keys \<Rightarrow> keys | None \<Rightarrow> [])\<rparr>"

datatype window_kind = Aligned_kind | Unaligned_kind

text \<open>Codecs: garbage-collection events and messages, each with the text of a decoding error.\<close>

record wal_codec =
  wc_decode_gc :: "bytes \<Rightarrow> string + gc_event"
  wc_decode_message :: "bytes \<Rightarrow> string + proto_read_message"
  wc_encode_message :: "proto_read_message \<Rightarrow> bytes"
  wc_lossy :: "string \<Rightarrow> string"
  wc_from_timestamp :: "i64 \<Rightarrow> nat \<Rightarrow> datetime option"

fun scan_aligned :: "wal_codec \<Rightarrow> segment_entry list \<Rightarrow> datetime \<Rightarrow> string list \<Rightarrow> (wal_error + (datetime \<times> string list)) option" where
  "scan_aligned cd [] oldest_time scanned = Some (Inr (oldest_time, scanned))"
| "scan_aligned cd (DataEntry n data # es) oldest_time scanned =
     (case wc_decode_gc cd data of
        Inl e \<Rightarrow> Some (Inl (Wal_other (''Failed to decode GC event: '' @ e)))
      | Inr g \<Rightarrow> Option.bind (gc_event_entry_of (wc_from_timestamp cd) g)
          (\<lambda>gc. scan_aligned cd es (max oldest_time (gce_end_time gc)) scanned))"
| "scan_aligned cd (DataFooter n data # es) oldest_time scanned = None"
| "scan_aligned cd (CmdFileSwitch f # es) oldest_time scanned = scan_aligned cd es oldest_time (scanned @ [f])"

text \<open>The result of the loop over a stream, and then that of the reader.\<close>

definition after_reader :: "wal_error option \<Rightarrow> wal_error + 'a \<Rightarrow> wal_error + 'a" where
  "after_reader r x = (case x of Inl e \<Rightarrow> Inl e | Inr v \<Rightarrow> (case r of Some e \<Rightarrow> Inl e | None \<Rightarrow> Inr v))"

definition build_aligned_compaction :: "wal_codec \<Rightarrow> wal_disk \<Rightarrow> (wal_error + (datetime \<times> string list)) option" where
  "build_aligned_compaction cd dk =
     (case streaming_read Gc_wal dk of (es, r) \<Rightarrow> map_option (after_reader r) (scan_aligned cd es 0 []))"

definition record_key_end :: "gc_event_entry \<Rightarrow> (string, datetime) hashmap \<Rightarrow> (string, datetime) hashmap" where
  "record_key_end gc oldest =
     (case gce_keys gc of
        None \<Rightarrow> oldest
      | Some keys \<Rightarrow>
          let key = combine_keys keys
          in case hm_get oldest key of
               Some dt \<Rightarrow> if gce_end_time gc > dt then hm_insert key (gce_end_time gc) oldest else oldest
             | None \<Rightarrow> hm_insert key (gce_end_time gc) oldest)"

fun scan_unaligned ::
    "wal_codec \<Rightarrow> segment_entry list \<Rightarrow> (string, datetime) hashmap \<Rightarrow> string list \<Rightarrow>
     (wal_error + ((string, datetime) hashmap \<times> string list)) option" where
  "scan_unaligned cd [] oldest scanned = Some (Inr (oldest, scanned))"
| "scan_unaligned cd (DataEntry n data # es) oldest scanned =
     (case wc_decode_gc cd data of
        Inl e \<Rightarrow> Some (Inl (Wal_other (''Failed to decode GC event: '' @ e)))
      | Inr g \<Rightarrow> Option.bind (gc_event_entry_of (wc_from_timestamp cd) g)
          (\<lambda>gc. scan_unaligned cd es (record_key_end gc oldest) scanned))"
| "scan_unaligned cd (DataFooter n data # es) oldest scanned = None"
| "scan_unaligned cd (CmdFileSwitch f # es) oldest scanned = scan_unaligned cd es oldest (scanned @ [f])"

definition build_unaligned_compaction ::
    "wal_codec \<Rightarrow> wal_disk \<Rightarrow> (wal_error + ((string, datetime) hashmap \<times> string list)) option" where
  "build_unaligned_compaction cd dk =
     (case streaming_read Gc_wal dk of (es, r) \<Rightarrow> map_option (after_reader r) (scan_unaligned cd es [] []))"

section \<open>What is retained\<close>

definition message_event_time :: "wal_codec \<Rightarrow> proto_message \<Rightarrow> datetime option" where
  "message_event_time cd m =
     Option.bind (pm_header m) (\<lambda>header. Option.bind (ph_message_info header) (\<lambda>info.
       map_option (utc_from_timestamp (wc_from_timestamp cd)) (pmi_event_time info)))"

definition should_retain_aligned :: "wal_codec \<Rightarrow> datetime \<Rightarrow> proto_message \<Rightarrow> bool option" where
  "should_retain_aligned cd oldest_time m = map_option (\<lambda>event_time. event_time \<ge> oldest_time) (message_event_time cd m)"

definition should_retain_unaligned :: "wal_codec \<Rightarrow> (string, datetime) hashmap \<Rightarrow> proto_message \<Rightarrow> bool option" where
  "should_retain_unaligned cd oldest m =
     map_option (\<lambda>event_time.
         let keys = (case pm_header m of Some header \<Rightarrow> ph_keys header | None \<Rightarrow> [])
         in case hm_get oldest (combine_keys keys) of
              Some oldest_time \<Rightarrow> event_time \<ge> oldest_time
            | None \<Rightarrow> True)
       (message_event_time cd m)"

section \<open>Compacting a log\<close>

text \<open>
  What the compactor works on: the disk, the commands it has sent to the writer of the compaction
  log, what it has sent to the reduce loop, the error that ended the writer and whether the reduce loop
  still receives.
\<close>

record compaction =
  cs_disk :: wal_disk
  cs_sent :: "segment_write_message list"
  cs_replayed :: "bytes list"
  cs_writer_error :: "wal_error option"
  cs_replay_open :: bool

type_synonym compaction_result = "(compaction \<times> (wal_error + unit)) option"

definition remove_file :: "string \<Rightarrow> wal_disk \<Rightarrow> wal_disk \<times> (wal_error + unit)" where
  "remove_file f dk =
     (if dk_can_remove dk \<and> hm_contains f (dk_files dk)
      then (dk\<lparr>dk_files := hm_remove f (dk_files dk)\<rparr>, Inr ())
      else (dk, Inl (Io_error (dk_io_error dk))))"

definition send_to_writer :: "string \<Rightarrow> segment_write_message \<Rightarrow> compaction \<Rightarrow> compaction \<times> (wal_error + unit)" where
  "send_to_writer what msg st =
     (if cs_writer_error st = None then (st\<lparr>cs_sent := cs_sent st @ [msg]\<rparr>, Inr ())
      else (st, Inl (Wal_other (what @ '': channel closed''))))"

definition send_to_replay :: "bool \<Rightarrow> bytes \<Rightarrow> compaction \<Rightarrow> compaction \<times> (wal_error + unit)" where
  "send_to_replay replay data st =
     (if \<not> replay then (st, Inr ())
      else if cs_replay_open st then (st\<lparr>cs_replayed := cs_replayed st @ [data]\<rparr>, Inr ())
      else (st, Inl (Wal_other ''Failed to send message to replay channel: channel closed'')))"

fun process_entries ::
    "wal_codec \<Rightarrow> (proto_message \<Rightarrow> bool option) \<Rightarrow> bool \<Rightarrow> segment_entry list \<Rightarrow> compaction \<Rightarrow> compaction_result" where
  "process_entries cd retain replay [] st = Some (st, Inr ())"
| "process_entries cd retain replay (DataEntry n data # es) st =
     (case wc_decode_message cd data of
        Inl e \<Rightarrow> Some (st, Inl (Wal_other (''Failed to decode message: '' @ e)))
      | Inr rm \<Rightarrow> Option.bind (prm_message rm) (\<lambda>m. Option.bind (retain m) (\<lambda>keep.
          if \<not> keep then process_entries cd retain replay es st
          else (case send_to_writer ''Failed to send message to compaction WAL'' (WriteGcEvent data) st of
                  (st, Inl e) \<Rightarrow> Some (st, Inl e)
                | (st, Inr _) \<Rightarrow>
                    (case send_to_replay replay data st of
                       (st, Inl e) \<Rightarrow> Some (st, Inl e)
                     | (st, Inr _) \<Rightarrow> process_entries cd retain replay es st)))))"
| "process_entries cd retain replay (DataFooter n data # es) st = None"
| "process_entries cd retain replay (CmdFileSwitch f # es) st =
     (case send_to_writer ''Failed to send rotate command'' (Rotate False) st of
        (st, Inl e) \<Rightarrow> Some (st, Inl e)
      | (st, Inr _) \<Rightarrow>
          (case remove_file f (cs_disk st) of
             (dk, Inl e) \<Rightarrow> Some (st, Inl (Wal_other (''Failed to delete segment file '' @ f @ '': '' @ dk_io_error dk)))
           | (dk, Inr _) \<Rightarrow> process_entries cd retain replay es (st\<lparr>cs_disk := dk\<rparr>)))"

definition process_wal_stream ::
    "wal_codec \<Rightarrow> (proto_message \<Rightarrow> bool option) \<Rightarrow> bool \<Rightarrow> wal_type \<Rightarrow> compaction \<Rightarrow> compaction_result" where
  "process_wal_stream cd retain replay t st =
     (case streaming_read t (cs_disk st) of
        (es, r) \<Rightarrow> map_option (\<lambda>(st, res). (st, after_reader r res)) (process_entries cd retain replay es st))"

section \<open>Deleting garbage-collection segments\<close>

definition newest_data_segment_micros :: "wal_disk \<Rightarrow> nat option" where
  "newest_data_segment_micros dk =
     (case map parse_segment_create_micros (list_files_with_active Data_wal dk) of
        [] \<Rightarrow> None
      | m # ms \<Rightarrow> Some (foldl max m ms))"

definition successor_create_micros :: "string list \<Rightarrow> string \<Rightarrow> nat option" where
  "successor_create_micros sorted_gc_files g =
     (case dropWhile (\<lambda>p. p \<noteq> g) sorted_gc_files of
        p # successor # ps \<Rightarrow> Some (parse_segment_create_micros successor)
      | _ \<Rightarrow> None)"

definition gc_deletable :: "nat option \<Rightarrow> string list \<Rightarrow> string \<Rightarrow> bool" where
  "gc_deletable newest_data_micros all_gc_sorted g =
     (case (newest_data_micros, successor_create_micros all_gc_sorted g) of
        (Some newest, Some successor) \<Rightarrow> newest > successor
      | _ \<Rightarrow> False)"

fun delete_each :: "(string \<Rightarrow> bool) \<Rightarrow> string list \<Rightarrow> wal_disk \<Rightarrow> wal_disk \<times> (wal_error + unit)" where
  "delete_each should_delete [] dk = (dk, Inr ())"
| "delete_each should_delete (f # fs) dk =
     (if should_delete f
      then (case remove_file f dk of
              (dk, Inl e) \<Rightarrow> (dk, Inl e)
            | (dk, Inr _) \<Rightarrow> delete_each should_delete fs dk)
      else delete_each should_delete fs dk)"

definition delete_gc_files :: "string list \<Rightarrow> bool \<Rightarrow> nat option \<Rightarrow> wal_disk \<Rightarrow> wal_disk \<times> (wal_error + unit)" where
  "delete_gc_files gc_files apply_retention_gate newest_data_micros dk =
     (if \<not> apply_retention_gate then (dk, Inr ())
      else let all_gc_sorted = sort_filenames (list_files_with_active Gc_wal dk)
           in delete_each (gc_deletable newest_data_micros all_gc_sorted) gc_files dk)"

section \<open>A compaction\<close>

definition if_ok :: "compaction_result \<Rightarrow> (compaction \<Rightarrow> compaction_result) \<Rightarrow> compaction_result" where
  "if_ok r f = Option.bind r (\<lambda>(st, res). case res of Inl e \<Rightarrow> Some (st, Inl e) | Inr _ \<Rightarrow> f st)"

definition compact_logs ::
    "wal_codec \<Rightarrow> (proto_message \<Rightarrow> bool option) \<Rightarrow> string list \<Rightarrow> nat option \<Rightarrow> bool \<Rightarrow> bool \<Rightarrow> compaction \<Rightarrow> compaction_result" where
  "compact_logs cd retain gc_files newest_data_micros replay apply_retention_gate st =
     if_ok (process_wal_stream cd retain replay Compact_wal st) (\<lambda>st.
     if_ok (process_wal_stream cd retain replay Data_wal st) (\<lambda>st.
       case delete_gc_files gc_files apply_retention_gate newest_data_micros (cs_disk st) of
         (dk, res) \<Rightarrow> Some (st\<lparr>cs_disk := dk\<rparr>, res)))"

definition compact_aligned :: "wal_codec \<Rightarrow> bool \<Rightarrow> bool \<Rightarrow> compaction \<Rightarrow> compaction_result" where
  "compact_aligned cd replay apply_retention_gate st =
     (let newest_data_micros = newest_data_segment_micros (cs_disk st)
      in Option.bind (build_aligned_compaction cd (cs_disk st)) (\<lambda>built.
           case built of
             Inl e \<Rightarrow> Some (st, Inl e)
           | Inr (oldest_time, gc_files) \<Rightarrow>
               compact_logs cd (should_retain_aligned cd oldest_time) gc_files newest_data_micros replay
                 apply_retention_gate st))"

definition compact_unaligned :: "wal_codec \<Rightarrow> bool \<Rightarrow> bool \<Rightarrow> compaction \<Rightarrow> compaction_result" where
  "compact_unaligned cd replay apply_retention_gate st =
     (let newest_data_micros = newest_data_segment_micros (cs_disk st)
      in Option.bind (build_unaligned_compaction cd (cs_disk st)) (\<lambda>built.
           case built of
             Inl e \<Rightarrow> Some (st, Inl e)
           | Inr (oldest_time_map, gc_files) \<Rightarrow>
               compact_logs cd (should_retain_unaligned cd oldest_time_map) gc_files newest_data_micros replay
                 apply_retention_gate st))"

definition compact :: "window_kind \<Rightarrow> wal_codec \<Rightarrow> bool \<Rightarrow> bool \<Rightarrow> compaction \<Rightarrow> compaction_result" where
  "compact kind cd replay apply_retention_gate st =
     (case kind of
        Aligned_kind \<Rightarrow> compact_aligned cd replay apply_retention_gate st
      | Unaligned_kind \<Rightarrow> compact_unaligned cd replay apply_retention_gate st)"

section \<open>The compactor and its writer\<close>

definition compactor_new :: "nat \<Rightarrow> nat \<Rightarrow> datetime \<Rightarrow> wal_disk \<Rightarrow> wal_disk \<times> (wal_error + (segment_actor \<times> compaction))" where
  "compactor_new max_file_size_mb max_segment_age_secs now dk =
     (case open_segment Compact_wal 0 now dk of
        (dk, Inl e) \<Rightarrow> (dk, Inl e)
      | (dk, Inr name) \<Rightarrow>
          (dk, Inr (segment_actor_new Compact_wal name now (max_file_size_mb * 1024 * 1024)
                 (int max_segment_age_secs * 1000000000),
               \<lparr>cs_disk = dk, cs_sent = [], cs_replayed = [], cs_writer_error = None, cs_replay_open = True\<rparr>)))"

text \<open>The commands in the channel, each with the time at which the writer takes it.\<close>

definition delivered :: "(nat \<Rightarrow> datetime) \<Rightarrow> segment_write_message list \<Rightarrow> (datetime \<times> segment_input) list" where
  "delivered clock sent = map (\<lambda>(i, c). (clock i, Command c)) (enumerate 0 sent)"

definition drain_writer ::
    "wal_codec \<Rightarrow> (nat \<Rightarrow> datetime) \<Rightarrow> segment_actor \<times> compaction \<Rightarrow> (segment_actor \<times> compaction) option" where
  "drain_writer cd clock = (\<lambda>(a, st).
     map_option (\<lambda>((a, dk, res), acks).
         (a, st\<lparr>cs_disk := dk, cs_sent := [],
               cs_writer_error := (case res of Inl e \<Rightarrow> Some e | Inr _ \<Rightarrow> cs_writer_error st)\<rparr>))
       (run_inputs (wc_encode_message cd) (wc_lossy cd) (delivered clock (cs_sent st)) a (cs_disk st)))"

text \<open>A compaction, after which the writer takes what was sent to it.\<close>

definition compaction_round ::
    "window_kind \<Rightarrow> wal_codec \<Rightarrow> bool \<Rightarrow> bool \<Rightarrow> (nat \<Rightarrow> datetime) \<Rightarrow> segment_actor \<times> compaction \<Rightarrow>
     ((segment_actor \<times> compaction) \<times> (wal_error + unit)) option" where
  "compaction_round kind cd replay apply_retention_gate clock = (\<lambda>(a, st).
     Option.bind (compact kind cd replay apply_retention_gate st)
       (\<lambda>(st, res). map_option (\<lambda>s. (s, res)) (drain_writer cd clock (a, st))))"

text \<open>Before each tick the writers of the other logs change the disk.\<close>

fun compaction_ticks ::
    "window_kind \<Rightarrow> wal_codec \<Rightarrow> ((wal_disk \<Rightarrow> wal_disk) \<times> (nat \<Rightarrow> datetime)) list \<Rightarrow> segment_actor \<times> compaction \<Rightarrow>
     ((segment_actor \<times> compaction) \<times> (wal_error + unit)) option" where
  "compaction_ticks kind cd [] s = Some (s, Inr ())"
| "compaction_ticks kind cd ((others, clock) # ticks) s =
     Option.bind (compaction_round kind cd False True clock (apsnd (\<lambda>st. st\<lparr>cs_disk := others (cs_disk st)\<rparr>) s))
       (\<lambda>(s, res). case res of Inl e \<Rightarrow> Some (s, Inl e) | Inr _ \<Rightarrow> compaction_ticks kind cd ticks s)"

definition stop_writer :: "datetime \<Rightarrow> segment_actor \<times> compaction \<Rightarrow> compaction \<times> (wal_error + unit)" where
  "stop_writer now = (\<lambda>(a, st).
     case cs_writer_error st of
       Some e \<Rightarrow> (st, Inl e)
     | None \<Rightarrow> (case rotate_file False now a (cs_disk st) of (a, dk, res) \<Rightarrow> (st\<lparr>cs_disk := dk\<rparr>, res)))"

definition start_compaction_with_replay ::
    "window_kind \<Rightarrow> wal_codec \<Rightarrow> (nat \<Rightarrow> datetime) \<Rightarrow> ((wal_disk \<Rightarrow> wal_disk) \<times> (nat \<Rightarrow> datetime)) list \<Rightarrow> datetime \<Rightarrow>
     segment_actor \<times> compaction \<Rightarrow> (compaction \<times> (wal_error + unit)) option" where
  "start_compaction_with_replay kind cd boot ticks stop s =
     Option.bind (compaction_round kind cd True False boot s)
       (\<lambda>(s, res). case res of
          Inl e \<Rightarrow> Some (snd s, Inl e)
        | Inr _ \<Rightarrow>
            map_option (\<lambda>(s, res). case res of Inl e \<Rightarrow> (snd s, Inl e) | Inr _ \<Rightarrow> stop_writer stop s)
              (compaction_ticks kind cd ticks s))"

section \<open>The times below which messages are processed\<close>

definition gc_entry :: "wal_codec \<Rightarrow> bytes \<Rightarrow> gc_event_entry option" where
  "gc_entry cd d = (case wc_decode_gc cd d of Inl e \<Rightarrow> None | Inr g \<Rightarrow> gc_event_entry_of (wc_from_timestamp cd) g)"

definition message_of :: "wal_codec \<Rightarrow> bytes \<Rightarrow> proto_message option" where
  "message_of cd d = (case wc_decode_message cd d of Inl e \<Rightarrow> None | Inr rm \<Rightarrow> prm_message rm)"

definition message_keys :: "proto_message \<Rightarrow> string list" where
  "message_keys m = (case pm_header m of Some header \<Rightarrow> ph_keys header | None \<Rightarrow> [])"

text \<open>
  What has not been processed according to the events \<open>G\<close>: the message is not before the end of a
  collected window, of any key for aligned windows and of its own key for unaligned ones.
\<close>

definition covers :: "window_kind \<Rightarrow> proto_message \<Rightarrow> gc_event_entry \<Rightarrow> bool" where
  "covers kind m g \<longleftrightarrow> kind = Aligned_kind \<or> map_option combine_keys (gce_keys g) = Some (combine_keys (message_keys m))"

definition unprocessed :: "window_kind \<Rightarrow> wal_codec \<Rightarrow> bytes list \<Rightarrow> bytes \<Rightarrow> bool" where
  "unprocessed kind cd G d =
     (case Option.bind (message_of cd d) (\<lambda>m. map_option (Pair m) (message_event_time cd m)) of
        None \<Rightarrow> False
      | Some (m, t) \<Rightarrow>
          (kind = Aligned_kind \<longrightarrow> 0 \<le> t) \<and>
          list_all (\<lambda>g. case gc_entry cd g of Some e \<Rightarrow> covers kind m e \<longrightarrow> gce_end_time e \<le> t | None \<Rightarrow> True) G)"

fun no_footer :: "segment_entry list \<Rightarrow> bool" where
  "no_footer [] = True"
| "no_footer (DataFooter n d # es) = False"
| "no_footer (e # es) = no_footer es"

fun switched :: "segment_entry list \<Rightarrow> string list" where
  "switched [] = []"
| "switched (CmdFileSwitch f # es) = f # switched es"
| "switched (e # es) = switched es"

lemma no_footer_append [simp]: "no_footer (xs @ ys) \<longleftrightarrow> no_footer xs \<and> no_footer ys"
  by (induction xs rule: no_footer.induct) auto

lemma switched_append [simp]: "switched (xs @ ys) = switched xs @ switched ys"
  by (induction xs rule: switched.induct) auto

lemma read_segment_shape: "no_footer (fst (read_segment bs)) \<and> switched (fst (read_segment bs)) = []"
proof (induction bs rule: read_segment.induct)
  case (1 bs)
  then show ?case by (subst (1 2) read_segment.simps) (auto simp: Let_def split: prod.splits)
qed

lemma replay_files_shape:
  "no_footer (fst (replay_files dk fs))"
  "snd (replay_files dk fs) = None \<Longrightarrow> switched (fst (replay_files dk fs)) = fs"
proof (induction fs)
  case (Cons f fs)
  {
    case 1
    show ?case using Cons.IH(1) read_segment_shape
      by (auto split: option.splits prod.splits if_splits) (metis fst_conv)+
  next
    case 2
    then show ?case using Cons.IH(2) read_segment_shape
      by (auto split: option.splits prod.splits if_splits) (metis fst_conv append_Nil)+
  }
qed simp_all

fun gc_end :: "wal_codec \<Rightarrow> bytes \<Rightarrow> datetime \<Rightarrow> datetime" where
  "gc_end cd d t = (case gc_entry cd d of Some g \<Rightarrow> max t (gce_end_time g) | None \<Rightarrow> t)"

lemma scan_aligned_result:
  assumes "no_footer es" and "list_all (\<lambda>d. gc_entry cd d \<noteq> None) (replayed es)"
  shows "scan_aligned cd es oldest scanned = Some (Inr (fold (gc_end cd) (replayed es) oldest, scanned @ switched es))"
  using assms
proof (induction cd es oldest scanned rule: scan_aligned.induct)
  case (2 cd n data es oldest scanned)
  then obtain g e where "wc_decode_gc cd data = Inr g" "gc_event_entry_of (wc_from_timestamp cd) g = Some e"
    by (auto simp: gc_entry_def split: sum.splits)
  with 2 show ?case by (simp add: gc_entry_def)
qed simp_all

lemma fold_gc_end:
  "fold (gc_end cd) G oldest \<le> t \<longleftrightarrow>
   oldest \<le> t \<and> list_all (\<lambda>g. case gc_entry cd g of Some e \<Rightarrow> gce_end_time e \<le> t | None \<Rightarrow> True) G"
  by (induction G arbitrary: oldest) (auto split: option.splits)

definition record_end :: "wal_codec \<Rightarrow> bytes \<Rightarrow> (string, datetime) hashmap \<Rightarrow> (string, datetime) hashmap" where
  "record_end cd d oldest = (case gc_entry cd d of Some g \<Rightarrow> record_key_end g oldest | None \<Rightarrow> oldest)"

lemma scan_unaligned_result:
  assumes "no_footer es" and "list_all (\<lambda>d. gc_entry cd d \<noteq> None) (replayed es)"
  shows "scan_unaligned cd es oldest scanned = Some (Inr (fold (record_end cd) (replayed es) oldest, scanned @ switched es))"
  using assms
proof (induction cd es oldest scanned rule: scan_unaligned.induct)
  case (2 cd n data es oldest scanned)
  then obtain g e where "wc_decode_gc cd data = Inr g" "gc_event_entry_of (wc_from_timestamp cd) g = Some e"
    by (auto simp: gc_entry_def split: sum.splits)
  with 2 show ?case by (simp add: gc_entry_def record_end_def)
qed simp_all

definition reached :: "(string, datetime) hashmap \<Rightarrow> string \<Rightarrow> datetime \<Rightarrow> bool" where
  "reached oldest key t = (case hm_get oldest key of Some o' \<Rightarrow> o' \<le> t | None \<Rightarrow> True)"

lemma reached_record_key_end:
  "reached (record_key_end g oldest) key t \<longleftrightarrow>
   reached oldest key t \<and> (map_option combine_keys (gce_keys g) = Some key \<longrightarrow> gce_end_time g \<le> t)"
  by (auto simp: reached_def record_key_end_def Let_def split: option.splits)

lemma fold_record_end:
  "reached (fold (record_end cd) G oldest) key t \<longleftrightarrow> reached oldest key t \<and>
   list_all (\<lambda>g. case gc_entry cd g of
     Some e \<Rightarrow> map_option combine_keys (gce_keys e) = Some key \<longrightarrow> gce_end_time e \<le> t | None \<Rightarrow> True) G"
  by (induction G arbitrary: oldest) (auto simp: record_end_def reached_record_key_end split: option.splits)

section \<open>Processing a log\<close>

text \<open>An entry that the compactor can judge and write back.\<close>

definition judged :: "wal_codec \<Rightarrow> bytes \<Rightarrow> bool" where
  "judged cd d \<longleftrightarrow> storable d \<and> d \<noteq> [] \<and>
     (case message_of cd d of None \<Rightarrow> False | Some m \<Rightarrow> message_event_time cd m \<noteq> None)"

definition decides :: "wal_codec \<Rightarrow> (proto_message \<Rightarrow> bool option) \<Rightarrow> (bytes \<Rightarrow> bool) \<Rightarrow> bool" where
  "decides cd retain P \<longleftrightarrow> (\<forall>d. judged cd d \<longrightarrow> Option.bind (message_of cd d) retain = Some (P d))"

lemma aligned_decides:
  "decides cd (should_retain_aligned cd (fold (gc_end cd) G 0)) (unprocessed Aligned_kind cd G)"
  by (auto simp: decides_def judged_def should_retain_aligned_def unprocessed_def fold_gc_end covers_def
      split: option.splits)

lemma unaligned_decides:
  "decides cd (should_retain_unaligned cd (fold (record_end cd) G [])) (unprocessed Unaligned_kind cd G)"
proof -
  have "should_retain_unaligned cd (fold (record_end cd) G []) m =
      map_option (reached (fold (record_end cd) G []) (combine_keys (message_keys m))) (message_event_time cd m)" for m
    unfolding should_retain_unaligned_def reached_def message_keys_def Let_def ..
  then show ?thesis
    unfolding decides_def judged_def unprocessed_def fold_record_end covers_def
    by (auto simp: reached_def split: option.splits)
qed

fun commands :: "(bytes \<Rightarrow> bool) \<Rightarrow> segment_entry list \<Rightarrow> segment_write_message list" where
  "commands P [] = []"
| "commands P (DataEntry n d # es) = (if P d then [WriteGcEvent d] else []) @ commands P es"
| "commands P (CmdFileSwitch f # es) = Rotate False # commands P es"
| "commands P (DataFooter n d # es) = commands P es"

definition removed :: "string list \<Rightarrow> wal_disk \<Rightarrow> wal_disk" where
  "removed fs dk = dk\<lparr>dk_files := fold hm_remove fs (dk_files dk)\<rparr>"

lemma removed_Cons: "removed (f # fs) dk = removed fs (dk\<lparr>dk_files := hm_remove f (dk_files dk)\<rparr>)"
  by (simp add: removed_def)

lemma process_entries_result:
  assumes "decides cd retain P" and "no_footer es" and "list_all (judged cd) (replayed es)"
    and "cs_writer_error st = None" and "cs_replay_open st" and "dk_can_remove (cs_disk st)"
    and "distinct (switched es)" and "\<And>f. f \<in> set (switched es) \<Longrightarrow> hm_contains f (dk_files (cs_disk st))"
  shows "process_entries cd retain replay es st =
    Some (st\<lparr>cs_disk := removed (switched es) (cs_disk st), cs_sent := cs_sent st @ commands P es,
       cs_replayed := cs_replayed st @ (if replay then filter P (replayed es) else [])\<rparr>, Inr ())"
  using assms
proof (induction cd retain replay es st rule: process_entries.induct)
  case (1 cd retain replay st)
  then show ?case by (simp add: removed_def)
next
  case (2 cd retain replay n data es st)
  then obtain rm m where "wc_decode_message cd data = Inr rm" "prm_message rm = Some m"
    by (auto simp: judged_def message_of_def split: sum.splits option.splits)
  moreover from this "2.prems" have "retain m = Some (P data)"
    unfolding decides_def by (auto simp: message_of_def)
  ultimately show ?case using 2 by (cases "P data"; cases replay) (simp_all add: send_to_writer_def send_to_replay_def)
next
  case (4 cd retain replay f es st)
  then have "remove_file f (cs_disk st) = ((cs_disk st)\<lparr>dk_files := hm_remove f (dk_files (cs_disk st))\<rparr>, Inr ())"
    by (simp add: remove_file_def)
  moreover have "hm_contains g (hm_remove f (dk_files (cs_disk st)))" if "g \<in> set (switched es)" for g
    using 4 that by (auto simp: hm_contains_def)
  ultimately show ?case using 4 by (cases replay) (simp_all add: send_to_writer_def removed_Cons)
qed simp_all

lemma fold_hm_remove_keys: "hm_keys (fold hm_remove fs m) = filter (\<lambda>f. f \<notin> set fs) (hm_keys m)"
proof (induction fs arbitrary: m)
  case (Cons f fs)
  have "filter (\<lambda>g. g \<notin> set fs) (removeAll f xs) = filter (\<lambda>g. g \<noteq> f \<and> g \<notin> set fs) xs" for xs :: "'a list"
    by (induction xs) auto
  with Cons show ?case by (simp add: delete_keys)
qed simp

lemma fold_hm_remove_get: "hm_get (fold hm_remove fs m) f = (if f \<in> set fs then None else hm_get m f)"
  by (induction fs arbitrary: m) auto

lemma list_files_removed: "list_files u (removed fs dk) = filter (\<lambda>f. f \<notin> set fs) (list_files u dk)"
  by (simp add: list_files_def list_files_filtered_def removed_def fold_hm_remove_keys conj_commute)

lemma segment_prefix_unique: "starts_with (segment_prefix t) f \<Longrightarrow> starts_with (segment_prefix u) f \<Longrightarrow> t = u"
  by (cases f; cases t; cases u) (auto simp: starts_with_def segment_prefix_def)

lemma list_files_disjoint: "f \<in> set (list_files t dk) \<Longrightarrow> u \<noteq> t \<Longrightarrow> f \<notin> set (list_files u dk)"
  unfolding list_files_member using segment_prefix_unique by blast

lemma streaming_read_removed_other:
  assumes "\<And>f. f \<in> set fs \<Longrightarrow> f \<notin> set (list_files u dk)"
  shows "streaming_read u (removed fs dk) = streaming_read u dk"
proof (rule streaming_read_cong)
  show "list_files u (removed fs dk) = list_files u dk"
    unfolding list_files_removed using assms by (auto intro: filter_True)
  show "hm_get (dk_files (removed fs dk)) f = hm_get (dk_files dk) f" if "f \<in> set (list_files u dk)" for f
    using that assms by (auto simp: removed_def fold_hm_remove_get)
qed (simp_all add: removed_def)

lemma streaming_read_none: "list_files u dk = [] \<Longrightarrow> streaming_read u dk = ([], None)"
  by (simp add: streaming_read_def sort_filenames_def)

text \<open>What a log reads as, and that its files are there once.\<close>

definition intact :: "wal_type \<Rightarrow> bytes list \<Rightarrow> wal_disk \<Rightarrow> bool" where
  "intact t ds dk \<longleftrightarrow> snd (streaming_read t dk) = None \<and> replayed (fst (streaming_read t dk)) = ds"

lemma list_files_distinct: "hm_wf (dk_files dk) \<Longrightarrow> distinct (list_files t dk)"
  by (simp add: list_files_def list_files_filtered_def hm_wf_def)

lemma list_files_contained: "f \<in> set (list_files t dk) \<Longrightarrow> hm_contains f (dk_files dk)"
  unfolding list_files_member hm_contains_def by (auto simp: map_of_eq_None_iff)

lemma process_wal_stream_result:
  assumes "decides cd retain P" and "intact t ds (cs_disk st)" and "list_all (judged cd) ds"
    and "cs_writer_error st = None" and "cs_replay_open st" and "disk_ok (cs_disk st)" and "hm_wf (dk_files (cs_disk st))"
  shows "process_wal_stream cd retain replay t st =
    Some (st\<lparr>cs_disk := removed (sort_filenames (list_files t (cs_disk st))) (cs_disk st),
       cs_sent := cs_sent st @ commands P (fst (streaming_read t (cs_disk st))),
       cs_replayed := cs_replayed st @ (if replay then filter P ds else [])\<rparr>, Inr ())"
proof -
  let ?es = "fst (streaming_read t (cs_disk st))" and ?fs = "sort_filenames (list_files t (cs_disk st))"
  have none: "snd (streaming_read t (cs_disk st)) = None" and ds: "replayed ?es = ds"
    using assms(2) unfolding intact_def by blast+
  have files: "no_footer ?es" "switched ?es = ?fs"
    using replay_files_shape none unfolding streaming_read_def by blast+
  have "distinct ?fs" using list_files_distinct [OF assms(7)] by (simp add: sort_filenames_def)
  then have "process_entries cd retain replay ?es st =
      Some (st\<lparr>cs_disk := removed ?fs (cs_disk st), cs_sent := cs_sent st @ commands P ?es,
         cs_replayed := cs_replayed st @ (if replay then filter P ds else [])\<rparr>, Inr ())"
    using process_entries_result [OF assms(1) files(1) _ assms(4,5), of replay] assms(3,6) list_files_contained
    by (simp add: files(2) ds disk_ok_def)
  then show ?thesis using none unfolding process_wal_stream_def
    by (cases "streaming_read t (cs_disk st)") (simp add: after_reader_def)
qed

lemma delete_each_result:
  assumes "dk_can_remove dk" and "distinct fs" and "\<And>f. f \<in> set fs \<Longrightarrow> hm_contains f (dk_files dk)"
  shows "delete_each P fs dk = (removed (filter P fs) dk, Inr ())"
  using assms
proof (induction fs arbitrary: dk)
  case (Cons f fs)
  let ?dk = "dk\<lparr>dk_files := hm_remove f (dk_files dk)\<rparr>"
  have "hm_contains g (dk_files ?dk)" if "g \<in> set fs" for g using Cons.prems that by (auto simp: hm_contains_def)
  with Cons.IH [of ?dk] Cons.IH [of dk] Cons.prems show ?case by (simp add: remove_file_def removed_Cons)
qed (simp add: removed_def)

text \<open>A compaction, up to the writer: what it leaves on the disk \<open>dk\<close> of what was on \<open>dk0\<close>.\<close>

definition compacted :: "wal_disk \<Rightarrow> bool \<Rightarrow> wal_disk \<Rightarrow> bool" where
  "compacted dk0 apply_retention_gate dk \<longleftrightarrow>
     disk_ok dk \<and> list_files Compact_wal dk = [] \<and> list_files Data_wal dk = [] \<and>
     (\<not> apply_retention_gate \<longrightarrow> streaming_read Gc_wal dk = streaming_read Gc_wal dk0) \<and>
     (\<forall>f. extension f = Some ''wal'' \<longrightarrow> hm_get (dk_files dk) f = hm_get (dk_files dk0) f)"

lemma removed_active: "extension f = Some ''wal'' \<Longrightarrow> (\<And>g. g \<in> set fs \<Longrightarrow> extension g = Some ''frozen'') \<Longrightarrow>
    hm_get (dk_files (removed fs dk)) f = hm_get (dk_files dk) f"
  by (force simp: removed_def fold_hm_remove_get)

lemma disk_ok_removed [simp]: "disk_ok (removed fs dk) = disk_ok dk"
  by (simp add: removed_def)

lemma hm_wf_removed: "hm_wf (dk_files dk) \<Longrightarrow> hm_wf (dk_files (removed fs dk))"
  by (simp add: hm_wf_def removed_def fold_hm_remove_keys)

lemma compacted_removed:
  fixes dk :: wal_disk
  defines "C \<equiv> sort_filenames (list_files Compact_wal dk)" and "D \<equiv> sort_filenames (list_files Data_wal dk)"
  assumes "disk_ok dk" and "set gone \<subseteq> set (list_files Gc_wal dk)" and "\<not> gate \<Longrightarrow> gone = []"
  shows "compacted dk gate (removed gone (removed D (removed C dk)))"
proof -
  have ext: "extension g = Some ''frozen''" if "g \<in> set gone \<union> set D \<union> set C" for g
    using that assms(4) list_files_frozen unfolding C_def D_def by auto
  have gc: "g \<notin> set (list_files Gc_wal dk)" if "g \<in> set D \<union> set C" for g
    using that list_files_disjoint [of g Data_wal dk Gc_wal] list_files_disjoint [of g Compact_wal dk Gc_wal]
    unfolding C_def D_def by auto
  have "streaming_read Gc_wal (removed D (removed C dk)) = streaming_read Gc_wal dk"
    using gc by (simp add: streaming_read_removed_other list_files_removed)
  then have "\<not> gate \<longrightarrow> streaming_read Gc_wal (removed gone (removed D (removed C dk))) = streaming_read Gc_wal dk"
    using assms(5) by (auto simp: removed_def)
  moreover have "list_files Compact_wal (removed gone (removed D (removed C dk))) = []"
    "list_files Data_wal (removed gone (removed D (removed C dk))) = []"
    by (auto simp: list_files_removed C_def D_def)
  ultimately show ?thesis using assms(3) ext by (simp add: compacted_def removed_active)
qed

lemma compact_logs_result:
  assumes "decides cd retain P" and "intact Compact_wal C (cs_disk st)" and "intact Data_wal D (cs_disk st)"
    and "list_all (judged cd) (C @ D)" and "cs_writer_error st = None" and "cs_replay_open st"
    and "disk_ok (cs_disk st)" and "hm_wf (dk_files (cs_disk st))"
    and "gc_files = sort_filenames (list_files Gc_wal (cs_disk st))"
  shows "\<exists>dk. compact_logs cd retain gc_files newest replay gate st =
      Some (st\<lparr>cs_disk := dk,
         cs_sent := cs_sent st @ commands P (fst (streaming_read Compact_wal (cs_disk st)) @ fst (streaming_read Data_wal (cs_disk st))),
         cs_replayed := cs_replayed st @ (if replay then filter P (C @ D) else [])\<rparr>, Inr ()) \<and>
    compacted (cs_disk st) gate dk"
proof -
  let ?dk = "cs_disk st"
  let ?Cf = "sort_filenames (list_files Compact_wal ?dk)" and ?Df = "sort_filenames (list_files Data_wal ?dk)"
  let ?st = "st\<lparr>cs_disk := removed ?Cf ?dk, cs_sent := cs_sent st @ commands P (fst (streaming_read Compact_wal ?dk)),
    cs_replayed := cs_replayed st @ (if replay then filter P C else [])\<rparr>"
  have first: "process_wal_stream cd retain replay Compact_wal st = Some (?st, Inr ())"
    by (rule process_wal_stream_result) (use assms in auto)
  have disj: "f \<notin> set (list_files u ?dk)" if "f \<in> set ?Cf \<and> u \<noteq> Compact_wal \<or> f \<in> set ?Df \<and> u \<noteq> Data_wal" for f u
    using that list_files_disjoint [of f Compact_wal ?dk u] list_files_disjoint [of f Data_wal ?dk u] by auto
  have same: "streaming_read Data_wal (removed ?Cf ?dk) = streaming_read Data_wal ?dk"
    by (rule streaming_read_removed_other) (use disj in blast)
  have list: "list_files Data_wal (removed ?Cf ?dk) = list_files Data_wal ?dk"
    unfolding list_files_removed using disj [of _ Data_wal] by (auto intro!: filter_True)
  define gone where "gone = (if gate then filter (gc_deletable newest
      (sort_filenames (list_files_with_active Gc_wal (removed ?Df (removed ?Cf ?dk))))) gc_files else [])"
  let ?dk2 = "removed ?Df (removed ?Cf ?dk)"
  have second: "process_wal_stream cd retain replay Data_wal ?st =
      Some (?st\<lparr>cs_disk := ?dk2, cs_sent := cs_sent ?st @ commands P (fst (streaming_read Data_wal ?dk)),
         cs_replayed := cs_replayed ?st @ (if replay then filter P D else [])\<rparr>, Inr ())"
    using process_wal_stream_result [OF assms(1), of Data_wal D ?st replay] assms(3-8) hm_wf_removed
    by (simp add: intact_def same list)
  have "list_files Gc_wal ?dk2 = list_files Gc_wal ?dk"
    unfolding list_files_removed using disj [of _ Gc_wal] by (auto intro!: filter_True)
  then have here: "hm_contains f (dk_files ?dk2)" if "f \<in> set gc_files" for f
    using that list_files_contained [of f Gc_wal ?dk2] by (simp add: assms(9))
  have "distinct gc_files" using list_files_distinct [OF assms(8)] by (simp add: assms(9) sort_filenames_def)
  then have third: "delete_gc_files gc_files gate newest ?dk2 = (removed gone ?dk2, Inr ())"
    using delete_each_result [of ?dk2 gc_files] here assms(7)
    by (simp add: delete_gc_files_def Let_def gone_def disk_ok_def removed_def)
  have "commands P (xs @ ys) = commands P xs @ commands P ys" for xs ys
    by (induction P xs rule: commands.induct) auto
  moreover have "compacted ?dk gate (removed gone ?dk2)"
    by (rule compacted_removed) (use assms(7,9) in \<open>auto simp: gone_def\<close>)
  ultimately show ?thesis unfolding compact_logs_def first if_ok_def using second third
    by (intro exI [of _ "removed gone ?dk2"]) (cases st, simp)
qed

lemma compact_result:
  assumes "intact Compact_wal C (cs_disk st)" and "intact Data_wal D (cs_disk st)" and "intact Gc_wal G (cs_disk st)"
    and "list_all (judged cd) (C @ D)" and "list_all (\<lambda>d. gc_entry cd d \<noteq> None) G"
    and "cs_writer_error st = None" and "cs_replay_open st"
    and "disk_ok (cs_disk st)" and "hm_wf (dk_files (cs_disk st))"
  shows "\<exists>dk. compact kind cd replay gate st =
      Some (st\<lparr>cs_disk := dk,
         cs_sent := cs_sent st @ commands (unprocessed kind cd G)
           (fst (streaming_read Compact_wal (cs_disk st)) @ fst (streaming_read Data_wal (cs_disk st))),
         cs_replayed := cs_replayed st @ (if replay then filter (unprocessed kind cd G) (C @ D) else [])\<rparr>, Inr ()) \<and>
    compacted (cs_disk st) gate dk"
proof -
  let ?files = "sort_filenames (list_files Gc_wal (cs_disk st))"
  obtain es where es: "streaming_read Gc_wal (cs_disk st) = (es, None)" "replayed es = G"
    using assms(3) unfolding intact_def by (cases "streaming_read Gc_wal (cs_disk st)") auto
  have shape: "no_footer es" "switched es = ?files"
    using replay_files_shape [of "cs_disk st" ?files] es(1) unfolding streaming_read_def by auto
  have logs: "\<exists>dk. compact_logs cd retain ?files (newest_data_segment_micros (cs_disk st)) replay gate st =
      Some (st\<lparr>cs_disk := dk,
         cs_sent := cs_sent st @ commands P (fst (streaming_read Compact_wal (cs_disk st)) @ fst (streaming_read Data_wal (cs_disk st))),
         cs_replayed := cs_replayed st @ (if replay then filter P (C @ D) else [])\<rparr>, Inr ()) \<and>
    compacted (cs_disk st) gate dk" if "decides cd retain P" for retain P
    by (rule compact_logs_result [OF that assms(1,2,4,6-9) refl])
  have scans: "scan_aligned cd es 0 [] = Some (Inr (fold (gc_end cd) G 0, ?files))"
    "scan_unaligned cd es [] [] = Some (Inr (fold (record_end cd) G [], ?files))"
    using scan_aligned_result [OF shape(1)] scan_unaligned_result [OF shape(1)] assms(5) es(2) shape(2) by simp_all
  show ?thesis
  proof (cases kind)
    case Aligned_kind
    have "compact Aligned_kind cd replay gate st =
        compact_logs cd (should_retain_aligned cd (fold (gc_end cd) G 0)) ?files
          (newest_data_segment_micros (cs_disk st)) replay gate st"
      by (simp add: compact_def compact_aligned_def build_aligned_compaction_def es scans after_reader_def)
    then show ?thesis unfolding Aligned_kind using logs [OF aligned_decides] by presburger
  next
    case Unaligned_kind
    have "compact Unaligned_kind cd replay gate st =
        compact_logs cd (should_retain_unaligned cd (fold (record_end cd) G [])) ?files
          (newest_data_segment_micros (cs_disk st)) replay gate st"
      by (simp add: compact_def compact_unaligned_def build_unaligned_compaction_def es scans after_reader_def)
    then show ?thesis unfolding Unaligned_kind using logs [OF unaligned_decides] by presburger
  qed
qed

section \<open>The writer takes what was sent\<close>

lemma length_commands: "length (commands P es) \<le> length es"
  by (induction P es rule: commands.induct) auto

lemma delivered_parts:
  "map fst (delivered clock sent) = map clock [0..<length sent]" "map snd (delivered clock sent) = map Command sent"
  by (rule nth_equalityI; simp add: delivered_def nth_enumerate_eq)+

lemma commands_data: "concat (map (input_data encode lossy \<circ> Command) (commands P es)) = filter P (replayed es)"
  by (induction P es rule: commands.induct) (auto simp: input_data_def)

lemma commands_ok:
  "list_all (judged cd) (replayed es) \<Longrightarrow> list_all (input_ok encode lossy \<circ> Command) (commands P es)"
  by (induction P es rule: commands.induct) (auto simp: input_ok_def input_data_def judged_def)

definition round_clock :: "(nat \<Rightarrow> datetime) \<Rightarrow> segment_actor \<Rightarrow> bool" where
  "round_clock clock a \<longleftrightarrow> mono clock \<and> swa_create_time a \<le> clock 0 \<and> (\<forall>i. good_time (clock i))"

lemma delivered_clock:
  assumes "round_clock clock a"
  shows "sorted (swa_create_time a # map fst (delivered clock sent))"
    and "list_all (\<lambda>(now, inp). good_time now) (delivered clock sent)"
proof -
  have "swa_create_time a \<le> clock i" for i
    using assms monoD [of clock 0 i] unfolding round_clock_def by fastforce
  moreover have "sorted (map clock [0..<n])" for n
    using assms unfolding round_clock_def by (simp add: sorted_iff_nth_mono monoD)
  ultimately show "sorted (swa_create_time a # map fst (delivered clock sent))" by (auto simp: delivered_parts)
  show "list_all (\<lambda>(now, inp). good_time now) (delivered clock sent)"
    using assms by (auto simp: delivered_def round_clock_def list_all_iff)
qed

lemma drain_result:
  assumes inv: "wal_inv Compact_wal dk [] [] a (cs_disk st)" and "round_clock clock a"
    and sent: "cs_sent st = commands P es" and "list_all (judged cd) (replayed es)"
    and "swa_file_index a + length es < 2 ^ 32"
  shows "\<exists>a' dk'. drain_writer cd clock (a, st) = Some (a', st\<lparr>cs_disk := dk', cs_sent := []\<rparr>) \<and>
    wal_state Compact_wal dk (filter P (replayed es)) a' dk'"
proof -
  let ?in = "delivered clock (commands P es)"
  have st: "wal_state Compact_wal dk [] a (cs_disk st)" using inv unfolding wal_state_def by auto
  have snds: "list_all (\<lambda>(now, inp). Q inp) ?in \<longleftrightarrow> list_all (Q \<circ> Command) (commands P es)" for Q
  proof -
    have "list_all (\<lambda>(now, inp). Q inp) ?in \<longleftrightarrow> list_all Q (map snd ?in)" by (auto simp: list_all_iff)
    then show ?thesis by (simp add: delivered_parts list.pred_map)
  qed
  have data: "concat (map (\<lambda>(now, inp). input_data (wc_encode_message cd) (wc_lossy cd) inp) ?in) = filter P (replayed es)"
  proof -
    have "map (\<lambda>(now, inp). input_data (wc_encode_message cd) (wc_lossy cd) inp) ?in =
        map (input_data (wc_encode_message cd) (wc_lossy cd)) (map snd ?in)" by auto
    then show ?thesis using commands_data [of _ _ P es] by (simp add: delivered_parts)
  qed
  have "length ?in \<le> length es" using length_commands [of P es] by (simp add: delivered_def)
  with assms(5) have "swa_file_index a + length ?in < 2 ^ 32" by simp
  from run_inputs_state [OF st _ delivered_clock [OF assms(2)] this, unfolded snds,
      OF commands_ok [OF assms(4)], of "wc_encode_message cd" "wc_lossy cd", unfolded data append_Nil]
  obtain a' dk' where "run_inputs (wc_encode_message cd) (wc_lossy cd) ?in a (cs_disk st) =
      Some ((a', dk', Inr ()), concat (map (\<lambda>(now, inp). input_acks inp) ?in))"
    and "wal_state Compact_wal dk (filter P (replayed es)) a' dk'"
    by auto
  then show ?thesis by (intro exI [of _ a'] exI [of _ dk']) (simp add: drain_writer_def sent)
qed

lemma compaction_round_result:
  assumes inv: "wal_inv Compact_wal dk0 C [] a (cs_disk st)" and "round_clock clock a"
    and "intact Data_wal D (cs_disk st)" and "intact Gc_wal G (cs_disk st)"
    and "list_all (judged cd) (C @ D)" and "list_all (\<lambda>d. gc_entry cd d \<noteq> None) G"
    and "cs_writer_error st = None" and "cs_replay_open st" and "cs_sent st = []" and "hm_wf (dk_files (cs_disk st))"
    and "swa_file_index a + length (fst (streaming_read Compact_wal (cs_disk st))) +
      length (fst (streaming_read Data_wal (cs_disk st))) < 2 ^ 32"
  shows "\<exists>a' dk1 dk'. compaction_round kind cd replay gate clock (a, st) =
      Some ((a', st\<lparr>cs_replayed := cs_replayed st @ (if replay then filter (unprocessed kind cd G) (C @ D) else []),
        cs_disk := dk', cs_sent := []\<rparr>), Inr ()) \<and>
    compacted (cs_disk st) gate dk1 \<and> wal_state Compact_wal dk1 (filter (unprocessed kind cd G) (C @ D)) a' dk'"
proof -
  let ?P = "unprocessed kind cd G" and ?dk = "cs_disk st"
  let ?es = "fst (streaming_read Compact_wal ?dk) @ fst (streaming_read Data_wal ?dk)"
  let ?rep = "cs_replayed st @ (if replay then filter ?P (C @ D) else [])"
  have core: "wal_core Compact_wal dk0 C [] a ?dk" and size: "swa_current_size a = 0" using inv by (simp_all add: wal_inv_def)
  then have C: "intact Compact_wal C ?dk" and ok: "disk_ok ?dk" unfolding wal_core_def intact_def by blast+
  have es: "replayed ?es = C @ D" using C assms(3) by (simp add: intact_def)
  obtain dk1 where run: "compact kind cd replay gate st =
      Some (st\<lparr>cs_disk := dk1, cs_sent := cs_sent st @ commands ?P ?es, cs_replayed := ?rep\<rparr>, Inr ())"
    and comp: "compacted ?dk gate dk1"
    using compact_result [OF C assms(3-8) ok assms(10)] by blast
  have "list_files Compact_wal dk1 = []" using comp by (simp add: compacted_def)
  then have none: "streaming_read Compact_wal dk1 = ([], None)" by (rule streaming_read_none)
  have "extension (swa_current_file_name a) = Some ''wal''" by (rule current_frozen_facts(2) [OF core])
  with comp have same: "hm_get (dk_files dk1) (swa_current_file_name a) = hm_get (dk_files ?dk) (swa_current_file_name a)"
    by (simp add: compacted_def)
  have "wal_inv Compact_wal dk1 [] [] a dk1"
    using core comp none same size unfolding wal_inv_def wal_core_def compacted_def by auto
  moreover have "list_all (judged cd) (replayed ?es)" unfolding es by (rule assms(5))
  ultimately obtain a' dk' where
    "drain_writer cd clock (a, st\<lparr>cs_disk := dk1, cs_sent := cs_sent st @ commands ?P ?es, cs_replayed := ?rep\<rparr>) =
      Some (a', st\<lparr>cs_disk := dk1, cs_sent := cs_sent st @ commands ?P ?es, cs_replayed := ?rep\<rparr>
        \<lparr>cs_disk := dk', cs_sent := []\<rparr>)"
    and "wal_state Compact_wal dk1 (filter ?P (C @ D)) a' dk'"
    using drain_result [of dk1 a "st\<lparr>cs_disk := dk1, cs_sent := cs_sent st @ commands ?P ?es, cs_replayed := ?rep\<rparr>"
        clock ?P ?es cd] assms(2,9,11) unfolding es by auto
  then show ?thesis using comp unfolding compaction_round_def
    by (intro exI [of _ a'] exI [of _ dk1] exI [of _ dk']) (simp add: run)
qed

section \<open>Recovery\<close>


definition example_codec :: wal_codec where
  "example_codec =
     \<lparr>wc_decode_gc = (\<lambda>d. Inr (window_to_gc_event \<lparr>win_start = 0, win_end = int (unat (hd d))\<rparr>)),
      wc_decode_message = (\<lambda>d. Inr \<lparr>prm_message = Some
         \<lparr>pm_header = Some
            \<lparr>ph_message_info = Some \<lparr>pmi_event_time = Some (prost_timestamp_from_utc (int (unat (hd d)))), pmi_is_late = False\<rparr>,
             ph_kind = 0, ph_id = None, ph_keys = [], ph_headers = [], ph_metadata = None\<rparr>,
          pm_body = Some d\<rparr>, prm_read_offset = 0, prm_watermark = None\<rparr>),
      wc_encode_message = (\<lambda>rm. [0]), wc_lossy = (\<lambda>s. s),
      wc_from_timestamp = (\<lambda>s n. Some (s * 1000000000 + int n))\<rparr>"

lemma example_codec_facts:
  "message_of example_codec d = Some m \<Longrightarrow> message_event_time example_codec m = Some (int (unat (hd d)))"
  "message_of example_codec d \<noteq> None"
  "\<exists>e. gc_entry example_codec d = Some e \<and> gce_end_time e = int (unat (hd d))"
proof -
  have "representable (int (unat b))" for b :: "8 word"
  proof -
    have "representable (int n)" if "n < 256" for n :: nat
      using that by (simp add: representable_def)
    moreover have "unat b < 256" using unsigned_less [of b] by simp
    ultimately show ?thesis .
  qed
  from timestamp_roundtrip [OF decodes_timestamps_example this]
  show "message_of example_codec d = Some m \<Longrightarrow> message_event_time example_codec m = Some (int (unat (hd d)))"
    "\<exists>e. gc_entry example_codec d = Some e \<and> gce_end_time e = int (unat (hd d))"
    by (auto simp: message_of_def message_event_time_def example_codec_def gc_entry_def gc_event_entry_of_def
        window_to_gc_event_def)
  show "message_of example_codec d \<noteq> None" by (simp add: message_of_def example_codec_def)
qed

lemma example_unprocessed:
  "unprocessed Aligned_kind example_codec [[10]] d \<longleftrightarrow> 10 \<le> uint (hd d)"
proof -
  obtain m where "message_of example_codec d = Some m" using example_codec_facts(2) by blast
  moreover obtain e where "gc_entry example_codec [10] = Some e" "gce_end_time e = 10"
    using example_codec_facts(3) [of "[10]"] by auto
  ultimately show ?thesis using example_codec_facts(1) by (simp add: unprocessed_def covers_def)
qed

definition example_boot_disk :: wal_disk where
  "example_boot_disk = example_disk
     [(example_segment 0 10, concat (map frame [[5], [50]])),
      (frozen_name (segment_file_name Gc_wal 0 4), concat (map frame [[10]]))]"

lemma example_boot_files:
  "list_files Data_wal example_boot_disk = [example_segment 0 10]"
  "list_files Gc_wal example_boot_disk = [frozen_name (segment_file_name Gc_wal 0 4)]"
  "list_files Compact_wal example_boot_disk = []"
  by (simp_all add: example_boot_disk_def example_disk_def list_files_def list_files_filtered_def example_segment_def
      extension_frozen prefix_of_frozen)

lemma example_boot_reads:
  "streaming_read Data_wal example_boot_disk = (data_entries [[5], [50]] @ [CmdFileSwitch (example_segment 0 10)], None)"
  "streaming_read Gc_wal example_boot_disk =
     (data_entries [[10]] @ [CmdFileSwitch (frozen_name (segment_file_name Gc_wal 0 4))], None)"
  "streaming_read Compact_wal example_boot_disk = ([], None)"
proof -
  have ne: "frozen_name (segment_file_name Gc_wal 0 4) \<noteq> example_segment 0 10"
    using prefix_of_frozen [of Gc_wal] unfolding example_segment_def by (metis wal_type.distinct(1))
  have ok: "list_all storable [[5], [50]]" "list_all storable [[10]]" by (simp_all add: storable_def)
  show "streaming_read Data_wal example_boot_disk =
      (data_entries [[5], [50]] @ [CmdFileSwitch (example_segment 0 10)], None)"
    "streaming_read Gc_wal example_boot_disk =
      (data_entries [[10]] @ [CmdFileSwitch (frozen_name (segment_file_name Gc_wal 0 4))], None)"
    using read_segment_frames [OF ok(1)] read_segment_frames [OF ok(2)] ne
    unfolding streaming_read_def example_boot_files sort_filenames_def
    by (simp_all add: example_boot_disk_def example_disk_def)
  show "streaming_read Compact_wal example_boot_disk = ([], None)"
    by (simp add: streaming_read_none example_boot_files)
qed


section \<open>What compaction can lose\<close>

text \<open>
  A segment is deleted as soon as its entries and the rotation have been sent: until the writer has
  taken them no file of the log holds the entries that were retained.
\<close>

lemma deleted_before_written:
  assumes "intact Compact_wal C (cs_disk st)" and "intact Data_wal D (cs_disk st)" and "intact Gc_wal G (cs_disk st)"
    and "list_all (judged cd) (C @ D)" and "list_all (\<lambda>d. gc_entry cd d \<noteq> None) G"
    and "cs_writer_error st = None" and "cs_replay_open st" and "disk_ok (cs_disk st)" and "hm_wf (dk_files (cs_disk st))"
  shows "\<exists>st'. compact kind cd replay gate st = Some (st', Inr ()) \<and>
    intact Compact_wal [] (cs_disk st') \<and> intact Data_wal [] (cs_disk st')"
proof -
  from compact_result [OF assms, of kind replay gate] obtain dk st' where
    "compact kind cd replay gate st = Some (st', Inr ())" and "cs_disk st' = dk" and "compacted (cs_disk st) gate dk"
    by auto
  then show ?thesis using streaming_read_none by (auto simp: compacted_def intact_def)
qed

text \<open>For aligned windows the time starts at the epoch: an earlier message is dropped although nothing was collected.\<close>

lemma before_epoch_dropped:
  "message_of cd d = Some m \<Longrightarrow> message_event_time cd m = Some t \<Longrightarrow> t < 0 \<Longrightarrow> \<not> unprocessed Aligned_kind cd [] d"
  by (simp add: unprocessed_def)

text \<open>An event for one list of keys covers the messages of every list that is joined to the same key.\<close>

lemma joined_keys_covered:
  assumes "message_of cd d = Some m" and "message_event_time cd m = Some t" and "message_keys m = [''a'', ''b'']"
    and "gc_entry cd g = Some e" and "gce_keys e = Some [''a:b'']" and "t < gce_end_time e"
  shows "\<not> unprocessed Unaligned_kind cd [g] d"
  using assms by (simp add: unprocessed_def covers_def)

section \<open>When garbage-collection segments go\<close>

lemma foldl_max_member: "foldl max m ms \<in> set (m # ms)" for m :: nat
  by (induction ms arbitrary: m) (auto simp: max_def split: if_splits)

text \<open>
  A garbage-collection segment goes only when a data segment exists that was created after the segment
  following it: the data its events cover was in segments that are frozen by then.
\<close>

lemma gc_segment_deleted_late:
  assumes "delete_gc_files gc_files gate (newest_data_segment_micros dk0) dk = (dk', Inr ())"
    and "hm_contains g (dk_files dk)" and "\<not> hm_contains g (dk_files dk')"
  shows "gate \<and> (\<exists>f s. f \<in> set (list_files_with_active Data_wal dk0) \<and>
    successor_create_micros (sort_filenames (list_files_with_active Gc_wal dk)) g = Some s \<and>
    s < parse_segment_create_micros f)"
proof -
  have "P g" if "delete_each P fs d = (d', Inr ())" "hm_contains g (dk_files d)" "\<not> hm_contains g (dk_files d')" for P fs d d'
    using that
  proof (induction fs arbitrary: d)
    case (Cons f fs)
    then show ?case by (cases "f = g") (auto simp: remove_file_def hm_contains_def split: if_splits)
  qed simp
  then have gate: "gate" and del: "gc_deletable (newest_data_segment_micros dk0) (sort_filenames (list_files_with_active Gc_wal dk)) g"
    using assms by (auto simp: delete_gc_files_def Let_def split: if_splits)
  obtain n s where "newest_data_segment_micros dk0 = Some n" and s: "s < n"
    "successor_create_micros (sort_filenames (list_files_with_active Gc_wal dk)) g = Some s"
    using del by (auto simp: gc_deletable_def split: option.splits)
  then have "n \<in> parse_segment_create_micros ` set (list_files_with_active Data_wal dk0)"
    using foldl_max_member by (fastforce simp: newest_data_segment_micros_def split: list.splits)
  with gate s show ?thesis by blast
qed

end
