(* ===== verification/ReduceRecovery.thy ===== *)
theory ReduceRecovery
  imports AlignedReducer WalCompactor
begin

text \<open>
  The aligned reducer and the compaction of its log together: the garbage-collection events that the
  reducer writes never cover a message of a window whose task has not ended, so that the replay after
  a restart brings back every message the reducer still needs. The windows are closed in the order of
  their ends, which the invariants here record over all interleavings of the loop and the actor.
\<close>

section \<open>The order in which windows are closed\<close>

definition closed_in :: "aligned_window_message list \<Rightarrow> window list" where
  "closed_in ops = concat (map (\<lambda>x. case awm_operation x of Close w \<Rightarrow> [w] | _ \<Rightarrow> []) ops)"

lemma closed_in_simps [simp]:
  "closed_in [] = []" "closed_in (xs @ ys) = closed_in xs @ closed_in ys"
  "closed_in (x # xs) = (case awm_operation x of Close w \<Rightarrow> [w] | _ \<Rightarrow> []) @ closed_in xs"
  by (simp_all add: closed_in_def)

lemma closed_in_closes [simp]: "closed_in (map close_message ws) = ws"
  by (induction ws) (simp_all add: close_message_def)

lemma closed_in_assigns [simp]: "closed_in (map (assign_message as msg) ws) = []"
  by (induction ws) (simp_all add: assign_message_def)

text \<open>
  Windows are closed in the order of their ends and by the watermark, what is still active ends later,
  and the manager keeps as closed only what was closed.
\<close>

definition order_inv :: "aligned_window_message list \<Rightarrow> 'e aligned_reducer \<Rightarrow> bool" where
  "order_inv ops r \<longleftrightarrow>
     sorted_wrt (\<lambda>v w. win_end v < win_end w) (closed_in ops) \<and>
     (\<forall>v\<in>set (closed_in ops). win_end v \<le> ar_current_watermark r) \<and>
     (\<forall>v\<in>set (closed_in ops). \<forall>w\<in>set (active_windows (ar_window_manager r)). win_end v < win_end w) \<and>
     set (closed_windows (ar_window_manager r)) \<subseteq> set (closed_in ops)"

text \<open>A close that the actor has not handled yet is of a window the manager keeps as closed.\<close>

definition queue_inv :: "aligned_window_message list \<Rightarrow> 'e aligned_reducer \<Rightarrow> bool" where
  "queue_inv channel r \<longleftrightarrow> set (closed_in channel) \<subseteq> set (closed_windows (ar_window_manager r))"

lemma order_inv_watermark:
  "order_inv ops r \<Longrightarrow> ar_current_watermark r \<le> wm \<Longrightarrow> order_inv ops (r\<lparr>ar_current_watermark := wm\<rparr>)"
  by (auto simp: order_inv_def)

lemma set_fold_bt_insert_fresh:
  assumes "bt_wf f ys" and "bt_wf f xs" and "\<And>x y. x \<in> set xs \<Longrightarrow> y \<in> set ys \<Longrightarrow> f y < f x"
  shows "set (fold (bt_insert f) xs ys) = set xs \<union> set ys"
proof -
  note fold = set_fold_bt_insert [OF assms(1), of xs]
  have "x \<in> set (fold (bt_insert f) xs ys)" if x: "x \<in> set xs" for x
  proof -
    have "f x \<in> f ` set (fold (bt_insert f) xs ys)" using fold(4) x by simp
    then obtain y where y: "y \<in> set (fold (bt_insert f) xs ys)" "f y = f x" by auto
    then have "y \<in> set xs" using fold(2) assms(3) [OF x] by fastforce
    then have "y = x" using inj_onD [OF bt_wf_inj [OF assms(2)] y(2)] x by blast
    with y show ?thesis by simp
  qed
  with fold(2,3) show ?thesis by blast
qed

lemma close_steps:
  assumes inv: "aligned_inv trunc (ar_window_manager r)" and ord: "order_inv ops r" and q: "queue_inv channel r"
    and cl: "close_windows_with_watermark (ar_current_watermark r) r = Some (r', closes)"
  shows "order_inv (ops @ closes) r'" and "queue_inv (channel @ closes) r'"
proof -
  let ?mgr = "ar_window_manager r" and ?wm = "ar_current_watermark r - int (ar_allowed_lateness r)"
  obtain mgr' where mgr': "close_windows ?wm ?mgr = (mgr', closes)" and r': "r' = r\<lparr>ar_window_manager := mgr'\<rparr>"
    using cl by (auto simp: close_windows_with_watermark_def checked_sub_def split: if_splits prod.splits)
  let ?out = "filter (\<lambda>w. win_end w \<le> ?wm) (active_windows ?mgr)"
  note law = close_law [OF inv mgr']
  have wf: "bt_wf win_end (active_windows ?mgr)" "bt_wf win_end (closed_windows ?mgr)" using awm.ordered [OF inv] by blast+
  then have out: "bt_wf win_end ?out" by simp
  have later: "win_end v < win_end w" if "v \<in> set (closed_in ops)" "w \<in> set (active_windows ?mgr)" for v w
    using ord that unfolding order_inv_def by blast
  have sub: "set (closed_windows ?mgr) \<subseteq> set (closed_in ops)" using ord unfolding order_inv_def by blast
  have clo: "set (closed_windows mgr') = set ?out \<union> set (closed_windows ?mgr)"
    using set_fold_bt_insert_fresh [OF wf(2) out] law later sub by (metis (no_types, lifting) filter_is_subset subsetD)
  show "queue_inv (channel @ closes) r'" using q law clo by (auto simp: queue_inv_def r')
  have "sorted_wrt (\<lambda>v w. win_end v < win_end w) (closed_in ops @ ?out)"
    using ord out later by (auto simp: order_inv_def sorted_wrt_append bt_wf_def sorted_wrt_map)
  moreover have "win_end v < win_end w" if "v \<in> set ?out" "w \<in> set (active_windows mgr')" for v w
    using that law by auto
  moreover have "win_end v \<le> ar_current_watermark r" if "v \<in> set ?out" for v using that by auto
  ultimately show "order_inv (ops @ closes) r'"
    using ord law clo by (auto simp: order_inv_def r')
qed

lemma assign_steps:
  assumes inv: "aligned_inv trunc (ar_window_manager r)" and ord: "order_inv ops r" and q: "queue_inv channel r"
    and asg: "assign_windows trunc msg (ar_window_manager r) = Some (mgr', opened)"
    and b: "collected_by (ar_current_watermark r) (ar_window_manager r)" "ar_current_watermark r \<le> msg_event_time msg"
  shows "order_inv (ops @ opened) (r\<lparr>ar_window_manager := mgr'\<rparr>)"
    and "queue_inv (channel @ opened) (r\<lparr>ar_window_manager := mgr'\<rparr>)"
proof -
  note law = assign_law [OF inv asg]
  from assign_on_grid [OF inv b] asg obtain ws where
    opened: "opened = map (assign_message (active_windows (ar_window_manager r)) msg) ws" by auto
  have "win_end v < win_end w" if v: "v \<in> set (closed_in ops)" and w: "w \<in> set (active_windows mgr')" for v w
  proof (cases "w \<in> set (active_windows (ar_window_manager r))")
    case True
    then show ?thesis using ord v unfolding order_inv_def by blast
  next
    case False
    then have "msg_event_time msg < win_end w" using law w by (auto simp: holds_def)
    moreover have "win_end v \<le> ar_current_watermark r" using ord v unfolding order_inv_def by blast
    ultimately show ?thesis using b(2) by simp
  qed
  then show "order_inv (ops @ opened) (r\<lparr>ar_window_manager := mgr'\<rparr>)"
    using ord law by (auto simp: order_inv_def opened)
  show "queue_inv (channel @ opened) (r\<lparr>ar_window_manager := mgr'\<rparr>)"
    using q law by (simp add: queue_inv_def opened)
qed

definition steps_ok :: "aligned_window_message list \<Rightarrow> aligned_window_message list \<Rightarrow> datetime \<Rightarrow> 'e aligned_reducer \<Rightarrow> bool" where
  "steps_ok ops channel wm r \<longleftrightarrow> order_inv ops r \<and> queue_inv channel r \<and> wm \<le> ar_current_watermark r"

lemma raise_steps:
  "steps_ok ops channel wm r \<Longrightarrow> ar_current_watermark r \<le> wm' \<Longrightarrow> steps_ok ops channel wm (r\<lparr>ar_current_watermark := wm'\<rparr>)"
  by (auto simp: steps_ok_def queue_inv_def intro: order_inv_watermark)

lemma close_step_ok:
  assumes "loop_inv trunc G acc ops r" and "steps_ok ops channel wm r"
    and "close_windows_with_watermark (ar_current_watermark r) r = Some (r', closes)"
  shows "steps_ok (ops @ closes) (channel @ closes) wm r'"
  using close_steps [of trunc r ops channel r' closes] loop_inv_close(2) [OF assms(1,3)] assms
  by (simp add: steps_ok_def loop_inv_def)

lemma assign_and_close_steps:
  assumes "loop_inv trunc G acc ops r" and "steps_ok ops channel wm r"
    and "assign_and_close_windows trunc msg r = Some (r', new)"
  shows "steps_ok (ops @ new) (channel @ new) wm r'"
proof -
  let ?r = "r\<lparr>ar_current_watermark := next_watermark msg r\<rparr>"
  have up: "ar_current_watermark r \<le> next_watermark msg r" by (simp add: next_watermark_def)
  have inv: "loop_inv trunc G acc ops ?r" and ok: "steps_ok ops channel wm ?r"
    using loop_inv_watermark [OF assms(1) up] raise_steps [OF assms(2) up] .
  show ?thesis
  proof (cases "in_time msg r")
    case False
    then have "r' = ?r" "new = []"
      using assms(3) unfolding assign_and_close_windows_def Let_def in_time_def
      by (auto simp: checked_sub_def split: if_splits)
    with ok show ?thesis by simp
  next
    case True
    then obtain r1 closes mgr opened where cl: "close_windows_with_watermark (next_watermark msg r) ?r = Some (r1, closes)"
      and asg: "assign_windows trunc msg (ar_window_manager r1) = Some (mgr, opened)"
      and res: "r' = r1\<lparr>ar_window_manager := mgr\<rparr>" "new = closes @ opened"
      using assms(3) unfolding assign_and_close_windows_def Let_def in_time_def
      by (auto simp: checked_sub_def bind_eq_Some_conv split: if_splits)
    have r1: "loop_inv trunc G acc (ops @ closes) r1" "ar_current_watermark r1 = next_watermark msg r"
      and ok1: "steps_ok (ops @ closes) (channel @ closes) wm r1"
      using loop_inv_close [OF inv, of r1 closes] close_step_ok [OF inv ok, of r1 closes] cl by simp_all
    have "ar_current_watermark r1 \<le> msg_event_time msg" using True r1(2) by (simp add: in_time_def)
    then show ?thesis
      using assign_steps [OF _ _ _ asg, of "ops @ closes" "channel @ closes"] r1(1) ok1
      by (simp add: steps_ok_def res loop_inv_def)
  qed
qed

lemma read_steps:
  assumes "loop_inv trunc G acc ops r" and "steps_ok ops channel wm r" and "read_message trunc msg r = Some (r', new)"
  shows "steps_ok (ops @ new) (channel @ new) wm r'"
proof (cases "ar_shutting_down_on_err r \<or> msg_typ msg \<noteq> WMB_message")
  case True
  then show ?thesis using assms assign_and_close_steps [OF assms(1,2)]
    by (auto simp: read_message_def split: if_splits)
next
  case False
  show ?thesis
  proof (cases "msg_watermark msg")
    case (Some idle)
    show ?thesis
    proof (cases "idle > ar_current_watermark r")
      case True
      then have "ar_current_watermark r \<le> idle" by simp
      from close_step_ok [OF loop_inv_watermark [OF assms(1) this] raise_steps [OF assms(2) this], of r' new]
      show ?thesis using assms(3) False Some True by (simp add: read_message_def)
    qed (use assms False Some in \<open>simp add: read_message_def\<close>)
  qed (use assms False in \<open>simp add: read_message_def\<close>)
qed

lemma accepted_after_watermark: "m \<in> set (accepted_input msg r) \<Longrightarrow> ar_current_watermark r \<le> msg_event_time m"
  by (auto simp: accepted_input_def in_time_def next_watermark_def split: if_splits)

section \<open>Closed windows and ended tasks\<close>

lemma life_has_close: "life (M, False) xs = Some (M', True) \<Longrightarrow> \<exists>x\<in>set xs. \<exists>w. awm_operation x = Close w"
proof (induction xs arbitrary: M)
  case (Cons x xs)
  then show ?case by (cases "awm_operation x") (auto split: if_splits)
qed simp

lemma life_closes: "life s xs = Some (M, c) \<Longrightarrow> x \<in> set xs \<Longrightarrow> awm_operation x = Close w \<Longrightarrow> c"
proof (induction s xs rule: life.induct)
  case (2 s y ys)
  obtain N d where s: "s = (N, d)" by (cases s)
  from "2.prems"(1) obtain s' where s': "life_step s (awm_operation y) = Some s'" "life s' ys = Some (M, c)"
    by (auto simp: bind_eq_Some_conv)
  show ?case
  proof (cases "x \<in> set ys")
    case True
    with "2.IH" [OF s'] "2.prems"(3) show ?thesis by blast
  next
    case False
    then have "s' = (N, True)" using "2.prems"(2,3) s'(1) by (auto simp: s split: if_splits)
    with s'(2) life_closed show ?thesis by fastforce
  qed
qed simp

lemma closed_in_iff: "w \<in> set (closed_in ops) \<longleftrightarrow> (\<exists>x\<in>set (ops_of w ops). awm_operation x = Close w)"
proof (induction ops)
  case (Cons x ops)
  then show ?case by (cases "awm_operation x") auto
qed simp

lemma ended_if_handled:
  assumes "actor_inv G handled a" and "w \<in> G" and "w \<in> set (closed_in handled)"
  shows "w \<in> rt_window ` set (ra_ended a)"
proof -
  obtain M c where M: "life ([], False) (ops_of w handled) = Some (M, c)"
    "filter (\<lambda>t. rt_window t = w) (ra_ended a) = (if c then [\<lparr>rt_window = w, rt_received = M\<rparr>] else [])"
    using assms(1,2) unfolding actor_inv_def by blast
  then have "c" using assms(3) life_closes [OF M(1)] unfolding closed_in_iff by blast
  with M(2) have "\<lparr>rt_window = w, rt_received = M\<rparr> \<in> set (filter (\<lambda>t. rt_window t = w) (ra_ended a))" by simp
  then show ?thesis by force
qed

lemma closed_if_held:
  assumes "loop_inv trunc G acc ops r" and "w \<in> G" and "of_window w acc \<noteq> []"
    and "w \<notin> set (active_windows (ar_window_manager r))"
  shows "w \<in> set (closed_in ops)"
proof -
  have "life ([], False) (ops_of w ops) = Some (of_window w acc, True)"
    using assms unfolding loop_inv_def by simp
  from life_has_close [OF this] obtain x v where "x \<in> set (ops_of w ops)" "awm_operation x = Close v" by blast
  moreover from this have "v = w" by (auto simp: ops_of_def)
  ultimately show ?thesis unfolding closed_in_iff by blast
qed

section \<open>The grid\<close>

lemma grid_length:
  assumes "aligned_inv trunc mgr"
  shows "\<exists>L>0. \<forall>w\<in>grid mgr. win_end w = win_start w + L"
proof (cases mgr)
  case (Fixed m)
  then have "0 < dur_millis (fw_window_length m)"
    using assms good_duration_millis by (simp add: aligned_inv_def fixed_inv_def)
  then show ?thesis
    by (intro exI [of _ "dur_millis (fw_window_length m) * 1000000"])
      (auto simp: Fixed grid_def window_at_def window_new_def from_timestamp_millis_def algebra_simps)
next
  case (Sliding m)
  then have "0 < dur_millis (sw_window_length m)"
    using assms good_duration_millis by (simp add: aligned_inv_def sliding_inv_def)
  then show ?thesis
    by (intro exI [of _ "dur_millis (sw_window_length m) * 1000000"])
      (auto simp: Sliding grid_def window_at_def window_new_def from_timestamp_millis_def algebra_simps)
qed

lemma fixed_grid_before:
  assumes "v \<in> grid (Fixed m)" and "w \<in> grid (Fixed m)" and "win_start w < win_end v"
    and "aligned_inv trunc (Fixed m)"
  shows "win_end w \<le> win_end v"
proof -
  let ?len = "dur_millis (fw_window_length m)"
  obtain i j where "v = window_at ?len (?len * i)" and "w = window_at ?len (?len * j)"
    using assms(1,2) by (auto simp: grid_def elim!: dvdE)
  moreover from this have "?len * j < ?len * i + ?len"
    using assms(3) by (simp add: window_at_def window_new_def from_timestamp_millis_def)
  moreover have "?len * j \<le> ?len * i" if "?len * j < ?len * i + ?len"
  proof -
    have pos: "0 \<le> ?len"
      using assms(4) good_duration_millis [of "fw_window_length m"] by (simp add: aligned_inv_def fixed_inv_def)
    have "j \<le> i"
    proof (rule ccontr)
      assume "\<not> j \<le> i"
      then have "i + 1 \<le> j" by simp
      from mult_left_mono [OF this pos] that show False by (simp add: distrib_left)
    qed
    from mult_left_mono [OF this pos] show ?thesis .
  qed
  ultimately show ?thesis by (simp add: window_at_def window_new_def from_timestamp_millis_def)
qed

section \<open>What a garbage-collection event covers\<close>

text \<open>Every window that holds an accepted message before \<open>b\<close> has a task that ended.\<close>

definition covered_ended :: "window set \<Rightarrow> message list \<Rightarrow> datetime \<Rightarrow> window set \<Rightarrow> bool" where
  "covered_ended G acc b ended \<longleftrightarrow>
     (\<forall>m\<in>set acc. msg_event_time m < b \<longrightarrow> (\<forall>w\<in>G. holds w (msg_event_time m) \<longrightarrow> w \<in> ended))"

definition events_inv :: "window set \<Rightarrow> message list \<Rightarrow> datetime \<Rightarrow> reduce_actor \<Rightarrow> bool" where
  "events_inv G acc wm a \<longleftrightarrow>
     (\<forall>e\<in>set (ra_gc_events a). \<exists>w. e = window_to_gc_event w \<and> win_end w \<le> wm \<and>
        covered_ended G acc (win_end w) (rt_window ` set (ra_ended a)))"

lemma events_inv_read:
  assumes "events_inv G acc wm a" and "wm \<le> wm'" and "\<And>m. m \<in> set new \<Longrightarrow> wm \<le> msg_event_time m"
  shows "events_inv G (acc @ new) wm' a"
  using assms unfolding events_inv_def covered_ended_def by fastforce

text \<open>The actor is about to handle the close of \<open>v\<close>.\<close>

definition closing ::
    "(datetime \<Rightarrow> int \<Rightarrow> datetime option) \<Rightarrow> window set \<Rightarrow> message list \<Rightarrow> aligned_window_message list \<Rightarrow>
     aligned_window_message list \<Rightarrow> window \<Rightarrow> 'e aligned_reducer \<Rightarrow> reduce_actor \<Rightarrow> bool" where
  "closing trunc G acc handled rest v r a \<longleftrightarrow>
     (\<exists>x. awm_operation x = Close v \<and> loop_inv trunc G acc (handled @ x # rest) r \<and>
        order_inv (handled @ x # rest) r \<and> queue_inv (x # rest) r) \<and> actor_inv G handled a"

lemma closing_facts:
  assumes "closing trunc G acc handled rest v r a"
  shows "v \<in> G" and "v \<in> set (closed_windows (ar_window_manager r))"
    and "set (closed_in rest) \<subseteq> set (closed_windows (ar_window_manager r))"
    and "win_end v \<le> ar_current_watermark r"
    and "aligned_inv trunc (ar_window_manager r)" and "grid (ar_window_manager r) = G"
    and "w \<in> set (closed_in rest) \<Longrightarrow> win_end v < win_end w"
    and "u \<in> set (closed_windows (ar_window_manager r)) \<Longrightarrow> w \<in> set (active_windows (ar_window_manager r)) \<Longrightarrow>
      win_end u < win_end w"
    and "u \<in> set (closed_windows (ar_window_manager r)) \<Longrightarrow> u \<in> G"
proof -
  obtain x where x: "awm_operation x = Close v" and loop: "loop_inv trunc G acc (handled @ x # rest) r"
    and ord: "order_inv (handled @ x # rest) r" and q: "queue_inv (x # rest) r"
    using assms unfolding closing_def by blast
  let ?ops = "handled @ x # rest"
  have in_G: "u \<in> G" if "u \<in> set (closed_in ?ops)" for u
  proof -
    from that obtain y where "y \<in> set ?ops" "awm_operation y = Close u"
      unfolding closed_in_iff by (auto simp: ops_of_def split: if_splits)
    with loop show ?thesis unfolding loop_inv_def by fastforce
  qed
  have sub: "set (closed_windows (ar_window_manager r)) \<subseteq> set (closed_in ?ops)" using ord unfolding order_inv_def by blast
  show "v \<in> G" using in_G x by simp
  show "v \<in> set (closed_windows (ar_window_manager r))"
    "set (closed_in rest) \<subseteq> set (closed_windows (ar_window_manager r))"
    using q x by (simp_all add: queue_inv_def)
  show "win_end v \<le> ar_current_watermark r" using ord x unfolding order_inv_def by simp
  show "aligned_inv trunc (ar_window_manager r)" "grid (ar_window_manager r) = G"
    using loop unfolding loop_inv_def by blast+
  show "w \<in> set (closed_in rest) \<Longrightarrow> win_end v < win_end w"
    using ord x by (simp add: order_inv_def sorted_wrt_append)
  show "u \<in> set (closed_windows (ar_window_manager r)) \<Longrightarrow> w \<in> set (active_windows (ar_window_manager r)) \<Longrightarrow>
      win_end u < win_end w"
    using ord sub unfolding order_inv_def by blast
  show "u \<in> set (closed_windows (ar_window_manager r)) \<Longrightarrow> u \<in> G" using sub in_G by blast
qed

lemma closing_where:
  assumes "closing trunc G acc handled rest v r a" and "w \<in> G" and "m \<in> set acc" and "holds w (msg_event_time m)"
  shows "w \<in> set (active_windows (ar_window_manager r)) \<or> w = v \<or> w \<in> set (closed_in rest) \<or>
    w \<in> rt_window ` set (ra_ended a)"
proof (cases "w \<in> set (active_windows (ar_window_manager r))")
  case False
  obtain x where x: "awm_operation x = Close v" "loop_inv trunc G acc (handled @ x # rest) r" and act: "actor_inv G handled a"
    using assms(1) unfolding closing_def by blast
  have "of_window w acc \<noteq> []" using assms(3,4) by (auto simp: of_window_def filter_empty_conv)
  from closed_if_held [OF x(2) assms(2) this False] x(1) have
    "w \<in> set (closed_in handled) \<or> w = v \<or> w \<in> set (closed_in rest)" by auto
  then show ?thesis using ended_if_handled [OF act assms(2)] by blast
qed simp

lemma fixed_close_covers:
  assumes "closing trunc G acc handled rest v r a" and "ar_window_manager r = Fixed m"
  shows "covered_ended G acc (win_end v) (insert v (rt_window ` set (ra_ended a)))"
  unfolding covered_ended_def
proof (intro ballI impI)
  fix msg w assume msg: "msg \<in> set acc" "msg_event_time msg < win_end v" and w: "w \<in> G" "holds w (msg_event_time msg)"
  note facts = closing_facts [OF assms(1)]
  have "win_start w < win_end v" using w(2) msg(2) by (simp add: holds_def)
  then have "win_end w \<le> win_end v" using fixed_grid_before [of v m w trunc] facts(1,5,6) w(1) assms(2) by simp
  then show "w \<in> insert v (rt_window ` set (ra_ended a))"
    using closing_where [OF assms(1) w(1) msg(1) w(2)] facts(7) [of w] facts(8) [OF facts(2), of w] by auto
qed

lemma oldest_close_covers:
  assumes "closing trunc G acc handled rest v r a" and "oldest_window (ar_window_manager r) = Some oldest"
  shows "covered_ended G acc (win_start oldest) (insert v (rt_window ` set (ra_ended a)))"
    and "win_start oldest \<le> ar_current_watermark r"
proof -
  note facts = closing_facts [OF assms(1)]
  let ?mgr = "ar_window_manager r"
  obtain L where L: "0 < L" "\<forall>w\<in>G. win_end w = win_start w + L" using grid_length [OF facts(5)] facts(6) by blast
  have "bt_first (closed_windows ?mgr) = Some oldest"
    using assms(2) awm.old_law [OF facts(5)] facts(2) by (cases "closed_windows ?mgr") (auto simp: bt_first_def)
  then obtain us where us: "closed_windows ?mgr = oldest # us" by (cases "closed_windows ?mgr") (auto simp: bt_first_def)
  have "bt_wf win_end (oldest # us)" using awm.ordered [OF facts(5)] us by simp
  then have least: "win_end oldest \<le> win_end u" if "u \<in> set (closed_windows ?mgr)" for u
    using that us by fastforce
  have oldest: "oldest \<in> set (closed_windows ?mgr)" "oldest \<in> G" using us facts(9) by simp_all
  show "win_start oldest \<le> ar_current_watermark r" using least [OF facts(2)] facts(4) L oldest(2) by fastforce
  show "covered_ended G acc (win_start oldest) (insert v (rt_window ` set (ra_ended a)))"
    unfolding covered_ended_def
  proof (intro ballI impI)
    fix msg w assume msg: "msg \<in> set acc" "msg_event_time msg < win_start oldest" and w: "w \<in> G" "holds w (msg_event_time msg)"
    have "win_end w < win_end oldest" using L w oldest(2) msg(2) by (auto simp: holds_def)
    then show "w \<in> insert v (rt_window ` set (ra_ended a))"
      using closing_where [OF assms(1) w(1) msg(1) w(2)] facts(3) facts(8) [OF oldest(1), of w] least [of w] by auto
  qed
qed

lemma events_inv_mono:
  assumes "events_inv G acc wm a" and "set (ra_gc_events a') = set (ra_gc_events a)" and "set (ra_ended a) \<subseteq> set (ra_ended a')"
  shows "events_inv G acc wm a'"
  using assms unfolding events_inv_def covered_ended_def by (metis image_mono subsetD)

lemma finish_recovery:
  assumes "closing trunc G acc handled rest v r a" and "events_inv G acc (ar_current_watermark r) a" and "rt_window t = v"
    and "finish_task result t (a\<lparr>ra_active_streams := streams\<rparr>, ar_window_manager r) = (a', mgr')"
  shows "events_inv G acc (ar_current_watermark r) a'"
proof -
  note facts = closing_facts [OF assms(1)]
  have ended: "rt_window ` set (ra_ended a') = insert v (rt_window ` set (ra_ended a))"
    using finish_task_ended(1) [of result t "a\<lparr>ra_active_streams := streams\<rparr>" "ar_window_manager r"] assms(3,4) by simp
  have old: "\<exists>w. e = window_to_gc_event w \<and> win_end w \<le> ar_current_watermark r \<and>
      covered_ended G acc (win_end w) (insert v (rt_window ` set (ra_ended a)))" if "e \<in> set (ra_gc_events a)" for e
    using assms(2) that unfolding events_inv_def covered_ended_def by blast
  have new: "\<exists>w. e = window_to_gc_event w \<and> win_end w \<le> ar_current_watermark r \<and>
      covered_ended G acc (win_end w) (insert v (rt_window ` set (ra_ended a)))"
    if old: "oldest_window (ar_window_manager r) = Some oldest" and
      e: "e = (case ar_window_manager r of
        Sliding _ \<Rightarrow> window_to_gc_event \<lparr>win_start = win_start oldest, win_end = win_start oldest\<rparr>
      | Fixed _ \<Rightarrow> window_to_gc_event v)" for e oldest
  proof (cases "ar_window_manager r")
    case (Fixed m)
    then show ?thesis using e fixed_close_covers [OF assms(1) Fixed] facts(4) by auto
  next
    case (Sliding m)
    let ?w = "\<lparr>win_start = win_start oldest, win_end = win_start oldest\<rparr>"
    show ?thesis using e Sliding oldest_close_covers [OF assms(1) old] by (intro exI [of _ ?w]) simp
  qed
  have "set (ra_gc_events a') \<subseteq> set (ra_gc_events a) \<union> {e. \<exists>oldest. oldest_window (ar_window_manager r) = Some oldest \<and>
      e = (case ar_window_manager r of
        Sliding _ \<Rightarrow> window_to_gc_event \<lparr>win_start = win_start oldest, win_end = win_start oldest\<rparr>
      | Fixed _ \<Rightarrow> window_to_gc_event v)}"
    using assms(3,4) by (auto simp: finish_task_def Let_def split: if_splits option.splits)
  then show ?thesis unfolding events_inv_def ended using old new by blast
qed

definition recovery_inv ::
    "(datetime \<Rightarrow> int \<Rightarrow> datetime option) \<Rightarrow> window set \<Rightarrow> message list \<Rightarrow> aligned_window_message list \<Rightarrow>
     'e reduce_system \<Rightarrow> bool" where
  "recovery_inv trunc G acc handled s \<longleftrightarrow>
     system_inv trunc G acc handled s \<and>
     steps_ok (handled @ rs_channel s) (rs_channel s) (ar_current_watermark (rs_reducer s)) (rs_reducer s) \<and>
     events_inv G acc (ar_current_watermark (rs_reducer s)) (rs_actor s)"

lemma gc_steps:
  assumes "closing trunc G acc handled rest v r a" and "order_inv ops r"
  shows "order_inv ops (r\<lparr>ar_window_manager := gc_window v (ar_window_manager r)\<rparr>)"
    and "queue_inv rest (r\<lparr>ar_window_manager := gc_window v (ar_window_manager r)\<rparr>)"
proof -
  note facts = closing_facts [OF assms(1)]
  note law = gc_law [OF facts(5), of v]
  show "order_inv ops (r\<lparr>ar_window_manager := gc_window v (ar_window_manager r)\<rparr>)"
    using assms(2) law by (auto simp: order_inv_def)
  show "queue_inv rest (r\<lparr>ar_window_manager := gc_window v (ar_window_manager r)\<rparr>)"
    using facts(3,7) law by (fastforce simp: queue_inv_def)
qed

lemma recovery_handle:
  assumes "recovery_inv trunc G acc handled s" and chan: "rs_channel s = x # rest"
    and step: "handle_window_message result x (rs_actor s, ar_window_manager (rs_reducer s)) = (a', mgr')"
  shows "recovery_inv trunc G acc (handled @ [x])
    (s\<lparr>rs_reducer := (rs_reducer s)\<lparr>ar_window_manager := mgr'\<rparr>, rs_channel := rest, rs_actor := a'\<rparr>)"
proof -
  let ?r = "rs_reducer s" and ?a = "rs_actor s"
  have sys: "system_inv trunc G acc handled s" and ord: "order_inv (handled @ x # rest) ?r" and q: "queue_inv (x # rest) ?r"
    and ev: "events_inv G acc (ar_current_watermark ?r) ?a"
    using assms(1) chan by (simp_all add: recovery_inv_def steps_ok_def)
  have loop: "loop_inv trunc G acc (handled @ x # rest) ?r" and act: "actor_inv G handled ?a"
    using sys chan by (simp_all add: system_inv_def)
  note sys' = system_inv_handle [OF sys chan step]
  have same: "(?r\<lparr>ar_window_manager := ar_window_manager ?r\<rparr>) = ?r" by simp
  have "order_inv (handled @ x # rest) (?r\<lparr>ar_window_manager := mgr'\<rparr>) \<and> queue_inv rest (?r\<lparr>ar_window_manager := mgr'\<rparr>) \<and>
      events_inv G acc (ar_current_watermark ?r) a'"
  proof (cases "\<exists>v. awm_operation x = Close v")
    case False
    then have "mgr' = ar_window_manager ?r" "ra_gc_events a' = ra_gc_events ?a" "set (ra_ended ?a) \<subseteq> set (ra_ended a')"
      "closed_in (x # rest) = closed_in rest"
      using step by (cases "awm_operation x"; auto simp: handle_window_message_def window_open_def window_append_def
          Let_def split: option.splits)+
    with ord q events_inv_mono [OF ev, of a'] same show ?thesis by (simp add: queue_inv_def)
  next
    case True
    then obtain v where v: "awm_operation x = Close v" by blast
    have closing: "closing trunc G acc handled rest v ?r ?a" using v loop ord q act unfolding closing_def by blast
    have slot: "awm_pnf_slot x = window_to_pnf_slot v" using loop v by (auto simp: loop_inv_def)
    show ?thesis
    proof (cases "hm_get (ra_active_streams ?a) (window_to_pnf_slot v)")
      case None
      then have "a' = ?a" "mgr' = ar_window_manager ?r"
        using step v slot by (simp_all add: handle_window_message_def window_close_def)
      with ord q ev same v show ?thesis by (simp add: queue_inv_def)
    next
      case (Some t)
      let ?fin = "finish_task result t (?a\<lparr>ra_active_streams := hm_remove (window_to_pnf_slot v) (ra_active_streams ?a)\<rparr>,
        ar_window_manager ?r)"
      have fin: "?fin = (a', mgr')"
        using step v slot Some by (simp add: handle_window_message_def window_close_def)
      have t: "rt_window t = v"
        using act closing_facts(1) [OF closing] Some unfolding actor_inv_def by (fastforce split: if_splits)
      have "mgr' = ar_window_manager ?r \<or> mgr' = gc_window v (ar_window_manager ?r)"
        using finish_task_manager [of result t] t fin by (metis snd_conv)
      then show ?thesis
        using gc_steps [OF closing ord] finish_recovery [OF closing ev t fin] ord closing_facts(3) [OF closing] same
        by (auto simp: queue_inv_def)
    qed
  qed
  then show ?thesis using sys' by (simp add: recovery_inv_def steps_ok_def)
qed

lemma recovery_run:
  assumes "reduce_run trunc s0 acc handled s" and "recovery_inv trunc G [] [] s0"
  shows "recovery_inv trunc G acc handled s"
  using assms
proof (induction rule: reduce_run.induct)
  case (reduce_read acc handled s msg r' ops)
  then have inv: "recovery_inv trunc G acc handled s" by simp
  then have loop: "loop_inv trunc G acc (handled @ rs_channel s) (rs_reducer s)"
    by (simp add: recovery_inv_def system_inv_def)
  have ok: "steps_ok (handled @ rs_channel s @ ops) (rs_channel s @ ops) (ar_current_watermark (rs_reducer s)) r'"
    using read_steps [OF loop _ reduce_read.hyps(2)] inv by (simp add: recovery_inv_def)
  then have up: "ar_current_watermark (rs_reducer s) \<le> ar_current_watermark r'" by (simp add: steps_ok_def)
  have "events_inv G (acc @ accepted_input msg (rs_reducer s)) (ar_current_watermark r') (rs_actor s)"
    by (rule events_inv_read [OF _ up]) (use inv accepted_after_watermark in \<open>auto simp: recovery_inv_def\<close>)
  moreover have "loop_inv trunc G (acc @ accepted_input msg (rs_reducer s)) (handled @ rs_channel s @ ops) r'"
    using loop_inv_read [OF loop reduce_read.hyps(2)] by simp
  ultimately show ?case using ok inv by (simp add: recovery_inv_def system_inv_def steps_ok_def)
next
  case (reduce_error acc handled s e r' c)
  note same = handle_error_keeps [OF reduce_error.hyps(2)]
  have "recovery_inv trunc G acc handled s" using reduce_error.IH reduce_error.prems by blast
  moreover have "recovery_inv trunc G acc handled (s\<lparr>rs_reducer := r'\<rparr>) \<longleftrightarrow> recovery_inv trunc G acc handled s"
    by (simp add: recovery_inv_def system_inv_def loop_inv_def steps_ok_def order_inv_def queue_inv_def same)
  ultimately show ?case by blast
next
  case (reduce_handle acc handled s m rest result a' mgr')
  then show ?case by (intro recovery_handle) simp_all
qed (simp add: recovery_inv_def)

lemma recovery_start:
  assumes "aligned_inv trunc mgr" and "active_windows mgr = []" and "closed_windows mgr = []"
    and "collected_by (from_timestamp_millis (-1)) mgr"
  shows "recovery_inv trunc (grid mgr) [] [] (reduce_system_new mgr lateness keyed gc_wal)"
  using reduce_system_new_inv [OF assms(1,2,4), of lateness keyed gc_wal] assms(3)
  by (simp add: recovery_inv_def steps_ok_def order_inv_def queue_inv_def events_inv_def reduce_system_new_def
      aligned_reducer_new_def reduce_actor_new_def)

lemma data_entries_shape: "no_footer (data_entries ds)" "switched (data_entries ds) = []"
  by (induction ds) (simp_all add: data_entries_def)

lemma event_end_decoded:
  assumes "decodes_timestamps (wc_from_timestamp cd)" and "wc_decode_gc cd g = Inr (window_to_gc_event w)"
    and "representable (win_end w)" and "gc_entry cd g = Some e"
  shows "gce_end_time e = win_end w"
  using assms timestamp_roundtrip [OF assms(1,3)]
  by (auto simp: gc_entry_def gc_event_entry_of_def window_to_gc_event_def)


section \<open>A run over two windows\<close>

definition second_input :: message where
  "second_input = (message_default 125000000000)\<lparr>msg_watermark := Some 120000000000\<rparr>"

definition second_window :: window where
  "second_window = window_at 60000 120000"

definition logged_system :: "unit reduce_system" where
  "logged_system = reduce_system_new (Fixed example_fixed) 0 True True"

definition both_read :: "unit aligned_reducer" where
  "both_read = example_reading\<lparr>ar_window_manager :=
       Fixed (example_fixed\<lparr>fw_active_windows := [second_window], fw_closed_windows := [example_window]\<rparr>),
     ar_current_watermark := 120000000000\<rparr>"

lemma second_read:
  "read_message example_trunc second_input example_reading =
     Some (both_read, [close_message example_window, assign_message [] second_input second_window])"
proof -
  have "create_window example_trunc second_input m = Some second_window" if "fw_window_length m = fw_window_length example_fixed" for m
    using that by (simp add: create_window_def example_fixed_def fixed_new_def example_durations message_default_def
      truncate_floor [OF example_trunc] timestamp_millis_def window_at_def second_input_def second_window_def)
  then show ?thesis
    by (simp add: read_message_def assign_and_close_windows_def next_watermark_def close_windows_with_watermark_def
      checked_sub_def aligned_reducer_new_def representable_def second_input_def message_default_def Let_def
      from_timestamp_millis_def close_windows_def fixed_close_windows_def bt_extract_def example_fixed_def
      fixed_new_def assign_windows_def fixed_assign_windows_def example_reading_def assign_message_def
      both_read_def example_window_def second_window_def window_at_def window_new_def close_message_def)
qed

lemma two_inputs_run:
  "reduce_run example_trunc logged_system [example_input, second_input] []
     (logged_system\<lparr>rs_reducer := both_read, rs_channel := [assign_message [] example_input example_window,
        close_message example_window, assign_message [] second_input second_window]\<rparr>)"
proof -
  have first: "read_message example_trunc example_input (rs_reducer logged_system) =
      Some (example_reading, [assign_message [] example_input example_window])"
    using example_read(1) by (simp add: logged_system_def example_system_def reduce_system_new_def)
  have acc: "accepted_input example_input (rs_reducer logged_system) = [example_input]"
    "accepted_input second_input example_reading = [second_input]"
    by (simp_all add: accepted_input_def in_time_def next_watermark_def example_input_def second_input_def message_default_def
      logged_system_def reduce_system_new_def aligned_reducer_new_def from_timestamp_millis_def example_reading_def)
  from reduce_read [OF reduce_start first] have "reduce_run example_trunc logged_system [example_input] []
      (logged_system\<lparr>rs_reducer := example_reading, rs_channel := [assign_message [] example_input example_window]\<rparr>)"
    by (simp add: acc) (simp add: logged_system_def reduce_system_new_def)
  from reduce_read [OF this, of second_input both_read] second_read acc(2) show ?thesis by simp
qed

definition first_task :: reduce_task where
  "first_task = \<lparr>rt_window = example_window, rt_received = [example_input]\<rparr>"

lemma first_window_run:
  "reduce_run example_trunc logged_system [example_input, second_input]
     [assign_message [] example_input example_window, close_message example_window]
     (logged_system\<lparr>rs_reducer := both_read\<lparr>ar_window_manager := snd (finish_task result first_task (reduce_actor_new True, ar_window_manager both_read))\<rparr>,
        rs_channel := [assign_message [] second_input second_window],
        rs_actor := fst (finish_task result first_task (reduce_actor_new True, ar_window_manager both_read))\<rparr>)"
proof -
  let ?open = "assign_message [] example_input example_window" and ?close = "close_message example_window"
  let ?slot = "window_to_pnf_slot example_window" and ?new = "assign_message [] second_input second_window"
  let ?a1 = "(reduce_actor_new True)\<lparr>ra_active_streams := [(?slot, first_task)]\<rparr>"
  have "handle_window_message result ?open (reduce_actor_new True, mgr) = (?a1, mgr)" for mgr
    by (simp add: handle_window_message_def assign_message_def window_open_def reduce_actor_new_def first_task_def)
  with reduce_handle [OF two_inputs_run, of ?open "[?close, ?new]" result ?a1 "ar_window_manager both_read"]
  have 1: "reduce_run example_trunc logged_system [example_input, second_input] [?open]
      (logged_system\<lparr>rs_reducer := both_read, rs_channel := [?close, ?new], rs_actor := ?a1\<rparr>)"
    by (simp add: logged_system_def reduce_system_new_def)
  have empty: "?a1\<lparr>ra_active_streams := []\<rparr> = reduce_actor_new True" by (simp add: reduce_actor_new_def)
  have "handle_window_message result ?close (?a1, mgr) = finish_task result first_task (reduce_actor_new True, mgr)" for mgr
    using empty by (simp add: handle_window_message_def close_message_def window_close_def)
  then have "handle_window_message result ?close (?a1, ar_window_manager both_read) =
      (fst (finish_task result first_task (reduce_actor_new True, ar_window_manager both_read)),
       snd (finish_task result first_task (reduce_actor_new True, ar_window_manager both_read)))" by simp
  with reduce_handle [OF 1, of ?close "[?new]" result] show ?thesis by simp
qed

definition recovery_codec :: wal_codec where
  "recovery_codec = example_codec
     \<lparr>wc_decode_gc := (\<lambda>d. Inr (window_to_gc_event example_window)),
      wc_decode_message := (\<lambda>d. Inr \<lparr>prm_message = Some
         \<lparr>pm_header = Some
            \<lparr>ph_message_info = Some \<lparr>pmi_event_time = Some (prost_timestamp_from_utc 125000000000), pmi_is_late = False\<rparr>,
             ph_kind = 0, ph_id = None, ph_keys = [], ph_headers = [], ph_metadata = None\<rparr>,
          pm_body = Some d\<rparr>, prm_read_offset = 0, prm_watermark = None\<rparr>)\<rparr>"


text \<open>
  An ended task need not have written its result: when the task of the first window fails and that of
  the second is written before the reducer is cancelled, the event of the second covers the messages of
  the first, which the manager still keeps as closed and not collected.
\<close>

lemma failed_window_covered:
  "\<exists>handled s. reduce_run example_trunc logged_system [example_input, second_input] handled s \<and>
     ra_gc_events (rs_actor s) = [window_to_gc_event second_window] \<and>
     example_window \<in> set (closed_windows (ar_window_manager (rs_reducer s))) \<and>
     holds example_window (msg_event_time example_input) \<and> msg_event_time example_input < win_end second_window"
proof -
  let ?new = "assign_message [] second_input second_window" and ?close = "close_message second_window"
  let ?idle = "(message_default 0)\<lparr>msg_typ := WMB_message, msg_watermark := Some 180000000000\<rparr>"
  let ?slot = "window_to_pnf_slot second_window"
  let ?t = "\<lparr>rt_window = second_window, rt_received = [second_input]\<rparr>"
  let ?a = "(reduce_actor_new True)\<lparr>ra_ended := [first_task]\<rparr>"
  let ?a1 = "?a\<lparr>ra_active_streams := [(?slot, ?t)]\<rparr>"
  let ?mgr = "Fixed (example_fixed\<lparr>fw_closed_windows := [example_window, second_window]\<rparr>)"
  let ?r = "both_read\<lparr>ar_window_manager := ?mgr, ar_current_watermark := 180000000000\<rparr>"
  have "both_read\<lparr>ar_window_manager := ar_window_manager both_read\<rparr> = both_read" by simp
  then have 1: "reduce_run example_trunc logged_system [example_input, second_input]
      [assign_message [] example_input example_window, close_message example_window]
      (logged_system\<lparr>rs_reducer := both_read, rs_channel := [?new], rs_actor := ?a\<rparr>)"
    using first_window_run [of Task_failed] by (simp add: finish_task_def reduce_actor_new_def)
  have "read_message example_trunc ?idle both_read = Some (?r, [?close])"
    by (simp add: read_message_def close_windows_with_watermark_def both_read_def checked_sub_def representable_def
        message_default_def close_windows_def fixed_close_windows_def bt_extract_def example_reading_def
        aligned_reducer_new_def second_window_def example_window_def window_at_def window_new_def from_timestamp_millis_def
        example_fixed_def fixed_new_def)
  from reduce_read [OF 1, of ?idle ?r "[?close]"] this
  have 2: "reduce_run example_trunc logged_system [example_input, second_input]
      [assign_message [] example_input example_window, close_message example_window]
      (logged_system\<lparr>rs_reducer := ?r, rs_channel := [?new, ?close], rs_actor := ?a\<rparr>)"
    by (simp add: accepted_input_def logged_system_def reduce_system_new_def)
  have "handle_window_message Task_written ?new (?a, ?mgr) = (?a1, ?mgr)"
    by (simp add: handle_window_message_def assign_message_def window_open_def reduce_actor_new_def)
  with reduce_handle [OF 2, of ?new "[?close]" Task_written ?a1 ?mgr]
  have 3: "reduce_run example_trunc logged_system [example_input, second_input]
      [assign_message [] example_input example_window, close_message example_window, ?new]
      (logged_system\<lparr>rs_reducer := ?r, rs_channel := [?close], rs_actor := ?a1\<rparr>)"
    by (simp add: logged_system_def reduce_system_new_def both_read_def example_reading_def aligned_reducer_new_def)
  have "handle_window_message Task_written ?close (?a1, ?mgr) =
      (?a\<lparr>ra_ended := [first_task, ?t], ra_gc_events := [window_to_gc_event second_window]\<rparr>,
       Fixed (example_fixed\<lparr>fw_closed_windows := [example_window]\<rparr>))"
    by (simp add: handle_window_message_def close_message_def window_close_def finish_task_def oldest_window_def
        fixed_oldest_window_def bt_first_def gc_window_def fixed_gc_window_def bt_remove_def Let_def reduce_actor_new_def
        example_window_def second_window_def window_at_def window_new_def)
  with reduce_handle [OF 3, of ?close "[]" Task_written] have "reduce_run example_trunc logged_system
      [example_input, second_input] ([assign_message [] example_input example_window, close_message example_window, ?new] @ [?close])
      (logged_system\<lparr>rs_reducer := ?r, rs_channel := [?close], rs_actor := ?a1\<rparr>
        \<lparr>rs_reducer := ?r\<lparr>ar_window_manager := Fixed (example_fixed\<lparr>fw_closed_windows := [example_window]\<rparr>)\<rparr>, rs_channel := [],
         rs_actor := ?a\<lparr>ra_ended := [first_task, ?t], ra_gc_events := [window_to_gc_event second_window]\<rparr>\<rparr>)"
    by simp
  moreover have "holds example_window (msg_event_time example_input)" "msg_event_time example_input < win_end second_window"
    by (simp_all add: holds_def example_window_def second_window_def window_at_def window_new_def
        from_timestamp_millis_def example_input_def message_default_def)
  ultimately show ?thesis
    by (intro exI conjI) (assumption, simp_all add: closed_windows_def)
qed

end
