(* ===== verification/Spec2Isabelle.thy ===== *)
theory Spec2Isabelle
  imports Prelude Timeline KVStore Processor WmPublisher WmFetcher Message OrderedMap Tracker
    IdleDetector AlignedWindows UnalignedWindows SessionWindows AccumulatorWindows AlignedReducer
    Floats RateLimiter LimiterStore SimpleBuffer BufferDelivery BufferAdapter
    WindowManager IsbWatermark SourceWatermark WalSegment WalCompactor ReduceRecovery
begin

text \<open>
  Numaflow runs pipelines of vertices joined by inter-step buffers. The data plane is the Rust
  workspace under \<^verbatim>\<open>src/rust\<close>. This development models the parts of it whose correctness is a matter
  of state and order: how watermarks are published, stored, fetched and held back; how messages are
  acknowledged, tracked and windowed; how a reduce vertex runs its windows; how inter-step buffers
  deliver; how throughput is limited.

  \<^bold>\<open>Conventions.\<close> The theories are a shallow embedding. A struct is a record, an enum a datatype, a
  method a function on the state it is called on that returns the new state. \<^verbatim>\<open>i64\<close> is \<open>int\<close> with the
  wrap-around written out where it can happen (\<open>as_i64\<close>), \<^verbatim>\<open>u16\<close> and \<^verbatim>\<open>u32\<close> are words, \<^verbatim>\<open>usize\<close> is \<open>nat\<close>, a
  \<^verbatim>\<open>DateTime\<close> a number of nanoseconds, an \<^verbatim>\<open>f32\<close> or \<^verbatim>\<open>f64\<close> a value of \<open>fp\<close> with IEEE rounding
  (\<^verbatim>\<open>Floats\<close>). A \<^verbatim>\<open>HashMap\<close> is an association list without repeated keys (\<open>hm_\<close>), a \<^verbatim>\<open>BTreeSet\<close> a
  sorted list (\<open>bt_\<close>), a \<^verbatim>\<open>BTreeMap\<close> a sorted association list (\<open>bm_\<close>). A panic is \<open>None\<close>, an error a
  left value. What a lock or an actor serialises is one step; what runs concurrently is an inductive
  run relation whose steps interleave. The clock, the protobuf codec, the user-defined functions and
  other code that is not in the repository are parameters, with what is relied on as a named
  hypothesis. \<^verbatim>\<open>Prelude\<close> has the types, these containers and their lemmas; \<^verbatim>\<open>OrderedMap\<close> the sorted maps.

  \<^bold>\<open>Watermarks\<close> (\<^verbatim>\<open>numaflow-core/src/watermark\<close>).
  \<^item> \<^verbatim>\<open>Timeline\<close>: the watermark message and the offset timeline of a processor (\<^verbatim>\<open>wmb.rs\<close>,
    \<^verbatim>\<open>processor/timeline.rs\<close>). The timeline keeps its order and length, and the event time it gives
    for an offset is exactly the greatest watermark recorded at or below it.
  \<^item> \<^verbatim>\<open>KVStore\<close>: the in-memory key-value store with history and watch streams
    (\<^verbatim>\<open>numaflow-shared/src/kv\<close>). Its history rebuilds it; a watch shows every entry once, in order.
  \<^item> \<^verbatim>\<open>Processor\<close>: the processor manager that turns watched entries into timelines
    (\<^verbatim>\<open>processor/manager.rs\<close>), with its invariant over every interleaving of its tasks.
  \<^item> \<^verbatim>\<open>WmPublisher\<close>: the publisher (\<^verbatim>\<open>isb/wm_publisher.rs\<close>): what it writes never decreases, is the best
    it was given, and is spaced by the delay.
  \<^item> \<^verbatim>\<open>WmFetcher\<close>: the fetchers (\<^verbatim>\<open>isb/wm_fetcher.rs\<close>, \<^verbatim>\<open>source/source_wm_fetcher.rs\<close>): a fetched
    watermark is at most what every upstream processor promises.
  \<^item> \<^verbatim>\<open>IdleDetector\<close>: idle streams and idle source partitions (\<^verbatim>\<open>idle/isb.rs\<close>, \<^verbatim>\<open>idle/source.rs\<close>).
  \<^item> \<^verbatim>\<open>IsbWatermark\<close>: the handle of a vertex (\<^verbatim>\<open>isb.rs\<close>), which composes fetcher, publisher, idle
    detector, tracker and window manager. Whatever it writes was safe when it was computed: before
    the end of every pending window, or at most the watermark of every message in flight, or at most
    the heads of upstream processors that are all idle.
  \<^item> \<^verbatim>\<open>SourceWatermark\<close>: the handle and the publisher of a source (\<^verbatim>\<open>source.rs\<close>,
    \<^verbatim>\<open>source/source_wm_publisher.rs\<close>): a source within its delay never makes a message late.

  \<^bold>\<open>Messages\<close> (\<^verbatim>\<open>numaflow-core/src/message.rs\<close>, \<^verbatim>\<open>metadata.rs\<close>, \<^verbatim>\<open>tracker.rs\<close>).
  \<^item> \<^verbatim>\<open>Message\<close>: messages, offsets, conversion to and from the buffer's protobuf, and the
    acknowledgement handle: a message is acknowledged exactly when every copy succeeded.
  \<^item> \<^verbatim>\<open>Tracker\<close>: the offsets in flight, as a set.

  \<^bold>\<open>Reduce\<close> (\<^verbatim>\<open>numaflow-core/src/reduce\<close>).
  \<^item> \<^verbatim>\<open>AlignedWindows\<close>: fixed and sliding windows and the state file (\<^verbatim>\<open>reducer/aligned/windower\<close>):
    a message gets exactly the windows that hold its event time, and a closed window gets no more.
  \<^item> \<^verbatim>\<open>UnalignedWindows\<close>, \<^verbatim>\<open>SessionWindows\<close>, \<^verbatim>\<open>AccumulatorWindows\<close>: keyed windows
    (\<^verbatim>\<open>reducer/unaligned/windower\<close>): sessions cover exactly the activity of the messages and closing
    conserves it; the accumulator keeps exactly the pending event times.
  \<^item> \<^verbatim>\<open>WindowManager\<close>: the managers behind one interface, with the contract of the oldest end time
    as the locale \<open>oldest_contract\<close>.
  \<^item> \<^verbatim>\<open>AlignedReducer\<close>: the reducer of aligned windows (\<^verbatim>\<open>reducer/aligned/reducer.rs\<close>): over all
    interleavings of its loop, its actor and its tasks no message is lost or given twice.

  \<^bold>\<open>Buffers\<close> (\<^verbatim>\<open>numaflow-core/src/pipeline/isb/inmemory\<close>).
  \<^item> \<^verbatim>\<open>SimpleBuffer\<close>, \<^verbatim>\<open>BufferDelivery\<close>, \<^verbatim>\<open>BufferAdapter\<close>: the in-memory buffer refines a queue with
    acknowledgements; a message written is the message read.

  \<^bold>\<open>Throttling\<close> (\<^verbatim>\<open>numaflow-throttling/src\<close>).
  \<^item> \<^verbatim>\<open>RateLimiter\<close>, \<^verbatim>\<open>LimiterStore\<close>: the token buckets and the agreement on the pool size: a pool never
    spends more than its budget, and its members agree after two rounds.

  \<^bold>\<open>Write-ahead log\<close> (\<^verbatim>\<open>numaflow-core/src/reduce/wal.rs\<close> and \<^verbatim>\<open>reduce/wal\<close>).
  \<^item> \<^verbatim>\<open>WalSegment\<close>: the actor that appends to segments and freezes them (\<^verbatim>\<open>segment/append.rs\<close>) and the
    replay of frozen segments (\<^verbatim>\<open>segment/replay.rs\<close>) over a disk whose calls can fail: what was written is
    replayed in order, and a cut segment ends the replay where it was cut.
  \<^item> \<^verbatim>\<open>WalCompactor\<close>: compaction and the replay at boot (\<^verbatim>\<open>segment/compactor.rs\<close>): exactly the messages
    that no garbage-collection event covers are replayed and kept. The writer of the compaction log
    takes what was sent after each compaction; the lemma \<open>deleted_before_written\<close> is about the state
    between the two.
  \<^item> \<^verbatim>\<open>ReduceRecovery\<close>: the aligned reducer and the compaction together: the garbage-collection events of
    the reducer never cover a message of a window whose task has not ended.

  \<^bold>\<open>Bounds and fuel.\<close> All model functions are total. Loops that end when a container is exhausted are
  recursions with a termination proof. The polling loops of the buffer reader and of the limiter are
  given the list of the instants at which they wake up, so a longer wait is a longer list, and the
  statements hold for every list.

  \<^bold>\<open>Not modelled.\<close> The control plane (Go, under \<^verbatim>\<open>pkg\<close>, \<^verbatim>\<open>cmd\<close> and \<^verbatim>\<open>server\<close>) and the user interface; the
  connectors to external systems (JetStream, Kafka, SQS, Pulsar, NATS, HTTP and Redis), which are
  calls into client libraries; the gRPC clients of the user-defined functions and the generated
  protobuf code; metrics, tracing and log output; the parsing of the configuration; the start-up and
  shut-down of tasks, timers and injected latencies. Not translated so far, although they are code of
  the data plane: the reducer of unaligned windows (\<^verbatim>\<open>reducer/unaligned/reducer.rs\<close>), the persistent
  buffer queue (\<^verbatim>\<open>reduce/pbq.rs\<close>), the actors of sources and sinks, the buffer reader and writer of a
  vertex with compression and conditional forwarding, and the forwarders; the properties are about the
  components these connect, not about the connection.
\<close>

end
